(* ===== verification/Prelude.thy ===== *)
theory Prelude
  imports Main "HOL-Library.Word" "HOL-Library.Monad_Syntax"
begin

text \<open>
  Shared vocabulary of the development: the machine types of \<open>include/types.h\<close>, the C
  \<open>int\<close> arithmetic at its width, the error numbers of \<open>include/errno.h\<close> the kernel returns,
  the size constants of \<open>include/sched.h\<close> and \<open>include/mm_address.h\<close>, and the few generic
  lemmas on lists, options and words that several components use.

  Conventions. An unsigned C value is a word of its width. A C \<open>int\<close> is an \<^typ>\<open>int\<close>, and
  every arithmetic operation of the source that can leave the 32-bit range is wrapped in
  \<open>i32\<close>, the two's complement reading of its low 32 bits. An operation that the hardware
  would abort (a NULL or out-of-range access) has an \<^typ>\<open>'a option\<close> result, and \<^term>\<open>None\<close>
  is the crash.
\<close>

unbundle bit_operations_syntax

section \<open>Machine types\<close>

type_synonym u8 = "8 word"
type_synonym u16 = "16 word"
type_synonym u32 = "32 word"
type_synonym u64 = "64 word"

text \<open>\<open>Byte\<close>, \<open>Word\<close> and \<open>DWord\<close> of types.h.\<close>

type_synonym Byte = u8
type_synonym Word16 = u16
type_synonym DWord = u32

definition i32 :: "int \<Rightarrow> int" where
  "i32 x = signed_take_bit 31 x"

definition int_range :: "int \<Rightarrow> bool" where
  "int_range x \<longleftrightarrow> - 2147483648 \<le> x \<and> x < 2147483648"

lemma i32_id: "int_range x \<Longrightarrow> i32 x = x"
  by (simp add: i32_def int_range_def signed_take_bit_int_eq_self)

lemma i32_range: "int_range (i32 x)"
  using signed_take_bit_int_greater_eq_minus_exp [of 31 x] signed_take_bit_int_less_exp [of 31 x]
  by (simp add: i32_def int_range_def)

lemma int_range_sint: "int_range (sint (w :: 32 word))"
  using sint_range_size [of w] by (simp add: int_range_def word_size)

section \<open>Constants\<close>

text \<open>include/errno.h: the error numbers the kernel uses.\<close>

definition EPERM :: int where [simp]: "EPERM = 1"
definition ESRCH :: int where [simp]: "ESRCH = 3"
definition EBADF :: int where [simp]: "EBADF = 9"
definition ENOMEM :: int where [simp]: "ENOMEM = 12"
definition EACCES :: int where [simp]: "EACCES = 13"
definition EFAULT :: int where [simp]: "EFAULT = 14"
definition EBUSY :: int where [simp]: "EBUSY = 16"
definition EINVAL :: int where [simp]: "EINVAL = 22"
definition ENOSYS :: int where [simp]: "ENOSYS = 38"

text \<open>include/sched.h.\<close>

definition NR_TASKS :: nat where [simp]: "NR_TASKS = 15"
definition KERNEL_STACK_SIZE :: nat where [simp]: "KERNEL_STACK_SIZE = 1024"

text \<open>include/mm_address.h.\<close>

definition TOTAL_PAGES :: nat where [simp]: "TOTAL_PAGES = 1024"
definition NUM_PAG_KERNEL :: nat where [simp]: "NUM_PAG_KERNEL = 256"
definition L_USER_START :: nat where [simp]: "L_USER_START = 0x100000"
definition PAG_LOG_INIT_CODE :: nat where [simp]: "PAG_LOG_INIT_CODE = L_USER_START div 4096"
definition NUM_PAG_CODE :: nat where [simp]: "NUM_PAG_CODE = 8"
definition PAG_LOG_INIT_DATA :: nat where [simp]: "PAG_LOG_INIT_DATA = PAG_LOG_INIT_CODE + NUM_PAG_CODE"
definition NUM_PAG_DATA :: nat where [simp]: "NUM_PAG_DATA = 20"
definition PAGE_SIZE :: nat where [simp]: "PAGE_SIZE = 0x1000"
definition PAG_LOG_INIT_HEAP :: nat where [simp]: "PAG_LOG_INIT_HEAP = PAG_LOG_INIT_DATA + NUM_PAG_DATA"
definition HEAP_START :: nat where [simp]: "HEAP_START = PAG_LOG_INIT_HEAP * 4096"
definition USER_FIRST_PAGE :: nat where [simp]: "USER_FIRST_PAGE = L_USER_START div 4096"

text \<open>The length of the semaphore array (\<open>struct semaphore semaphores[20]\<close>).\<close>

definition NR_SEMS :: nat where [simp]: "NR_SEMS = 20"

section \<open>Options and lists\<close>

lemma bind_eq_Some_iff:
  "Option.bind m f = Some y \<longleftrightarrow> (\<exists>x. m = Some x \<and> f x = Some y)"
  by (cases m) auto

lemma distinct_last_neq_hd:
  "distinct (a # xs) \<Longrightarrow> xs \<noteq> [] \<Longrightarrow> last xs \<noteq> a"
  by (metis distinct.simps(2) last_in_set)

lemma set_tl_subset: "set (tl xs) \<subseteq> set xs"
  by (cases xs) auto

section \<open>Words\<close>

lemma unat_lt2p: "unat (x :: 'a::len word) < 2 ^ LENGTH('a)"
  by (rule unsigned_less)

lemma unat_ucast: "unat (ucast (w :: 'a::len word) :: 'b::len word) = unat w mod 2 ^ LENGTH('b)"
  by (simp add: unsigned_ucast_eq take_bit_eq_mod)

lemma unat_drop_bit_12: "unat (drop_bit 12 (a :: u32)) = unat a div 4096"
  by (subst unat_drop_bit_eq) (simp add: drop_bit_eq_div)

lemma unat_of_nat_u32: "n < 2 ^ 32 \<Longrightarrow> unat (of_nat n :: u32) = n"
  by (simp add: unat_of_nat)

end
