(* ===== verification/ListHead.thy ===== *)
theory ListHead
  imports Prelude
begin

text \<open>
  The intrusive circular doubly linked list of \<open>list.c\<close> and \<open>include/list.h\<close>, on an explicit
  heap: \<open>'p links\<close> maps the address of every \<open>struct list_head\<close> to its two pointers, and a
  pointer is an \<^typ>\<open>'p option\<close> with \<^term>\<open>None\<close> for NULL. Following NULL is a crash
  (\<^term>\<open>None\<close>), so every operation that dereferences a pointer read from the heap returns an
  option. \<open>queue_repr\<close> says which abstract list a head represents; each operation is shown to
  refine the list operation it stands for, with its frame. The laws are the interface
  \<open>link_queues\<close>, whose lemmas about families of disjoint queues the scheduler uses.
\<close>

section \<open>list.c\<close>

record 'p list_head =
  nxt :: "'p option"
  prv :: "'p option"

type_synonym 'p links = "'p \<Rightarrow> 'p list_head"

definition INIT_LIST_HEAD :: "'p links \<Rightarrow> 'p \<Rightarrow> 'p links" where
  "INIT_LIST_HEAD h lst =
     (let h1 = h(lst := (h lst)\<lparr>nxt := Some lst\<rparr>)
      in h1(lst := (h1 lst)\<lparr>prv := Some lst\<rparr>))"

text \<open>\<open>__list_add\<close>: four stores, two of them through the pointers \<open>next\<close> and \<open>prev\<close>.\<close>

definition list_add_between :: "'p links \<Rightarrow> 'p \<Rightarrow> 'p option \<Rightarrow> 'p option \<Rightarrow> 'p links option" where
  "list_add_between h new prev next =
     do {
       n \<leftarrow> next;
       let h1 = h(n := (h n)\<lparr>prv := Some new\<rparr>);
       let h2 = h1(new := (h1 new)\<lparr>nxt := next\<rparr>);
       let h3 = h2(new := (h2 new)\<lparr>prv := prev\<rparr>);
       p \<leftarrow> prev;
       Some (h3(p := (h3 p)\<lparr>nxt := Some new\<rparr>))
     }"

definition list_add :: "'p links \<Rightarrow> 'p \<Rightarrow> 'p \<Rightarrow> 'p links option" where
  "list_add h new head = list_add_between h new (Some head) (nxt (h head))"

definition list_add_tail :: "'p links \<Rightarrow> 'p \<Rightarrow> 'p \<Rightarrow> 'p links option" where
  "list_add_tail h new head = list_add_between h new (prv (h head)) (Some head)"

text \<open>\<open>__list_del\<close> and \<open>list_del\<close>.\<close>

definition list_del_between :: "'p links \<Rightarrow> 'p option \<Rightarrow> 'p option \<Rightarrow> 'p links option" where
  "list_del_between h prev next =
     do {
       n \<leftarrow> next;
       let h1 = h(n := (h n)\<lparr>prv := prev\<rparr>);
       p \<leftarrow> prev;
       Some (h1(p := (h1 p)\<lparr>nxt := next\<rparr>))
     }"

definition list_del :: "'p links \<Rightarrow> 'p \<Rightarrow> 'p links option" where
  "list_del h entry =
     do {
       h1 \<leftarrow> list_del_between h (prv (h entry)) (nxt (h entry));
       let h2 = h1(entry := (h1 entry)\<lparr>nxt := None\<rparr>);
       Some (h2(entry := (h2 entry)\<lparr>prv := None\<rparr>))
     }"

definition list_is_last :: "'p links \<Rightarrow> 'p \<Rightarrow> 'p \<Rightarrow> bool" where
  "list_is_last h lst head \<longleftrightarrow> nxt (h lst) = Some head"

definition list_empty :: "'p links \<Rightarrow> 'p \<Rightarrow> bool" where
  "list_empty h head \<longleftrightarrow> nxt (h head) = Some head"

text \<open>The macro \<open>list_first\<close> of list.h.\<close>

definition list_first :: "'p links \<Rightarrow> 'p \<Rightarrow> 'p option" where
  "list_first h head = nxt (h head)"

section \<open>The abstract list a head represents\<close>

fun chain :: "'p links \<Rightarrow> 'p \<Rightarrow> 'p list \<Rightarrow> 'p \<Rightarrow> bool" where
  "chain h a [] z \<longleftrightarrow> nxt (h a) = Some z \<and> prv (h z) = Some a"
| "chain h a (x # xs) z \<longleftrightarrow> nxt (h a) = Some x \<and> prv (h x) = Some a \<and> chain h x xs z"

definition queue_repr :: "'p links \<Rightarrow> 'p \<Rightarrow> 'p list \<Rightarrow> bool" where
  "queue_repr h q xs \<longleftrightarrow> distinct (q # xs) \<and> chain h q xs q"

lemma chain_append:
  "chain h a (xs @ y # ys) z \<longleftrightarrow> chain h a xs y \<and> chain h y ys z"
  by (induction xs arbitrary: a) auto

lemma chain_nxt_frame:
  "\<forall>x\<in>insert a (set xs). nxt (h' x) = nxt (h x) \<Longrightarrow>
   \<forall>x\<in>insert z (set xs). prv (h' x) = prv (h x) \<Longrightarrow>
   chain h' a xs z = chain h a xs z"
  by (induction xs arbitrary: a) auto

lemma chain_first: "chain h a xs z \<Longrightarrow> nxt (h a) = Some (hd (xs @ [z]))"
  by (cases xs) auto

lemma chain_last: "chain h a xs z \<Longrightarrow> prv (h z) = Some (last (a # xs))"
  by (induction xs arbitrary: a) auto

lemma queue_repr_distinct: "queue_repr h q xs \<Longrightarrow> distinct (q # xs)"
  by (simp add: queue_repr_def)

lemma queue_repr_frame:
  assumes "queue_repr h q xs" "\<And>x. x \<in> insert q (set xs) \<Longrightarrow> h' x = h x"
  shows "queue_repr h' q xs"
  using assms chain_nxt_frame [of q xs h' h q] by (auto simp: queue_repr_def)


lemma chain_redirect:
  assumes "chain h a xs w" "distinct (a # xs)"
    and "\<forall>x\<in>set (butlast (a # xs)). nxt (h' x) = nxt (h x)"
    and "\<forall>x\<in>set xs. prv (h' x) = prv (h x)"
    and "nxt (h' (last (a # xs))) = Some p" "prv (h' p) = Some (last (a # xs))"
  shows "chain h' a xs p"
  using assms by (induction xs arbitrary: a) (auto split: if_splits)

lemma butlast_ne_last: "distinct xs \<Longrightarrow> x \<in> set (butlast xs) \<Longrightarrow> x \<noteq> last xs"
  by (induction xs) (auto split: if_splits)

text \<open>What the four stores of \<open>__list_add\<close> and the two of \<open>__list_del\<close> leave in the heap.\<close>

lemma list_add_between_Some:
  assumes "a \<noteq> p" "z \<noteq> p"
  shows "\<exists>h'. list_add_between h p (Some a) (Some z) = Some h' \<and>
    (\<forall>x. nxt (h' x) = (if x = a then Some p else if x = p then Some z else nxt (h x))) \<and>
    (\<forall>x. prv (h' x) = (if x = z then Some p else if x = p then Some a else prv (h x)))"
  using assms by (auto simp: list_add_between_def Let_def)

lemma list_del_Some:
  assumes "prv (h p) = Some a" "nxt (h p) = Some z" "a \<noteq> p" "z \<noteq> p"
  shows "\<exists>h'. list_del h p = Some h' \<and>
    (\<forall>x. nxt (h' x) = (if x = p then None else if x = a then Some z else nxt (h x))) \<and>
    (\<forall>x. prv (h' x) = (if x = p then None else if x = z then Some a else prv (h x)))"
  using assms by (auto simp: list_del_def list_del_between_def Let_def)

lemma list_head_eqI:
  "nxt a = nxt b \<Longrightarrow> prv a = prv (b :: 'p list_head) \<Longrightarrow> a = b"
  by (cases a, cases b) simp

section \<open>Each operation refines the list operation it stands for\<close>

lemma INIT_LIST_HEAD_repr: "queue_repr (INIT_LIST_HEAD h q) q []"
  by (simp add: queue_repr_def INIT_LIST_HEAD_def Let_def)

lemma INIT_LIST_HEAD_frame: "x \<noteq> q \<Longrightarrow> INIT_LIST_HEAD h q x = h x"
  by (simp add: INIT_LIST_HEAD_def Let_def)

lemma list_empty_repr: "queue_repr h q xs \<Longrightarrow> list_empty h q \<longleftrightarrow> xs = []"
  by (cases xs) (auto simp: queue_repr_def list_empty_def)

lemma list_first_repr: "queue_repr h q (x # xs) \<Longrightarrow> list_first h q = Some x"
  by (simp add: queue_repr_def list_first_def)

lemma list_add_between_repr:
  assumes q: "queue_repr h q (xs @ ys)" and p: "p \<notin> insert q (set (xs @ ys))"
  shows "\<exists>h'. list_add_between h p (Some (last (q # xs))) (Some (hd (ys @ [q]))) = Some h' \<and>
    queue_repr h' q (xs @ p # ys) \<and> (\<forall>x. x \<notin> insert p (insert q (set (xs @ ys))) \<longrightarrow> h' x = h x)"
proof -
  let ?l = "last (q # xs)" and ?w = "hd (ys @ [q])"
  have l: "?l \<in> insert q (set xs)" by auto
  have w: "?w \<in> insert q (set ys)" by (cases ys) auto
  have d: "distinct (q # xs @ ys)" using q by (simp add: queue_repr_def)
  obtain h' where h': "list_add_between h p (Some ?l) (Some ?w) = Some h'"
    and n: "\<And>x. nxt (h' x) = (if x = ?l then Some p else if x = p then Some ?w else nxt (h x))"
    and v: "\<And>x. prv (h' x) = (if x = ?w then Some p else if x = p then Some ?l else prv (h x))"
    using list_add_between_Some [of ?l p ?w h] l w p by auto
  have left: "chain h q xs ?w" using q
    by (cases ys) (auto simp: queue_repr_def chain_append)
  have wx: "?w \<notin> set xs" using w d by auto
  have pl: "p \<noteq> ?l" and pw: "p \<noteq> ?w" using l w p by auto
  have bl: "\<forall>x\<in>set (butlast (q # xs)). nxt (h' x) = nxt (h x)"
  proof
    fix x assume x: "x \<in> set (butlast (q # xs))"
    have "x \<noteq> ?l" using butlast_ne_last [OF _ x] d by simp
    moreover have "x \<noteq> p" using p in_set_butlastD [OF x] by auto
    ultimately show "nxt (h' x) = nxt (h x)" by (simp add: n)
  qed
  have vx: "\<forall>x\<in>set xs. prv (h' x) = prv (h x)" using wx p by (auto simp: v)
  have "chain h' q xs p"
    using left d by (rule_tac chain_redirect [OF left _ bl vx]) (auto simp: n v pl pw)
  moreover have "chain h' p ys q"
  proof (cases ys)
    case Nil
    then show ?thesis using pl pw by (auto simp: n v)
  next
    case (Cons y ys')
    have "chain h y ys' q" using q Cons by (simp add: queue_repr_def chain_append)
    moreover have "\<forall>x\<in>insert y (set ys'). nxt (h' x) = nxt (h x)"
      using d l p Cons by (auto simp: n)
    moreover have "\<forall>x\<in>insert q (set ys'). prv (h' x) = prv (h x)"
      using d p Cons by (auto simp: v)
    ultimately have "chain h' y ys' q" using chain_nxt_frame [of y ys' h' h q] by simp
    then show ?thesis using Cons pl p d l by (auto simp: n v)
  qed
  ultimately have "queue_repr h' q (xs @ p # ys)"
    using d p by (auto simp: queue_repr_def chain_append)
  moreover have "\<forall>x. x \<notin> insert p (insert q (set (xs @ ys))) \<longrightarrow> h' x = h x"
    using l w by (auto intro!: list_head_eqI simp: n v)
  ultimately show ?thesis using h' by blast
qed


lemma list_add_tail_repr:
  assumes "queue_repr h q xs" "p \<notin> insert q (set xs)"
  shows "\<exists>h'. list_add_tail h p q = Some h' \<and> queue_repr h' q (xs @ [p]) \<and>
    (\<forall>x. x \<notin> insert p (insert q (set xs)) \<longrightarrow> h' x = h x)"
  using list_add_between_repr [of h q xs "[]" p] assms chain_last [of h q xs q]
  by (simp add: list_add_tail_def queue_repr_def)

lemma list_add_repr:
  assumes "queue_repr h q xs" "p \<notin> insert q (set xs)"
  shows "\<exists>h'. list_add h p q = Some h' \<and> queue_repr h' q (p # xs) \<and>
    (\<forall>x. x \<notin> insert p (insert q (set xs)) \<longrightarrow> h' x = h x)"
  using list_add_between_repr [of h q "[]" xs p] assms chain_first [of h q xs q]
  by (simp add: list_add_def queue_repr_def)

lemma list_del_repr:
  assumes q: "queue_repr h q (xs @ p # ys)"
  shows "\<exists>h'. list_del h p = Some h' \<and> queue_repr h' q (xs @ ys) \<and>
    nxt (h' p) = None \<and> prv (h' p) = None \<and>
    (\<forall>x. x \<notin> insert q (set (xs @ p # ys)) \<longrightarrow> h' x = h x)"
proof -
  let ?l = "last (q # xs)" and ?w = "hd (ys @ [q])"
  have l: "?l \<in> insert q (set xs)" by auto
  have w: "?w \<in> insert q (set ys)" by (cases ys) auto
  have d: "distinct (q # xs @ p # ys)" using q by (simp add: queue_repr_def)
  have left: "chain h q xs p" and right: "chain h p ys q"
    using q by (auto simp: queue_repr_def chain_append)
  have pl: "p \<noteq> ?l" and pw: "p \<noteq> ?w" using l w d by auto
  have pv: "prv (h p) = Some ?l" and pn: "nxt (h p) = Some ?w"
    using chain_last [OF left] chain_first [OF right] by simp_all
  obtain h' where h': "list_del h p = Some h'"
    and n: "\<And>x. nxt (h' x) = (if x = p then None else if x = ?l then Some ?w else nxt (h x))"
    and v: "\<And>x. prv (h' x) = (if x = p then None else if x = ?w then Some ?l else prv (h x))"
    using list_del_Some [where h = h and p = p and a = "?l" and z = "?w"] pv pn pl pw by auto
  have wx: "?w \<notin> set xs" using w d by auto
  have bl: "\<forall>x\<in>set (butlast (q # xs)). nxt (h' x) = nxt (h x)"
  proof
    fix x assume x: "x \<in> set (butlast (q # xs))"
    have "x \<noteq> ?l" using butlast_ne_last [OF _ x] d by simp
    moreover have "x \<noteq> p" using d in_set_butlastD [OF x] by auto
    ultimately show "nxt (h' x) = nxt (h x)" by (simp add: n)
  qed
  have vx: "\<forall>x\<in>set xs. prv (h' x) = prv (h x)" using wx d by (auto simp: v)
  have A: "chain h' q xs ?w"
    using left d pl pw by (rule_tac chain_redirect [OF left _ bl vx]) (auto simp: n v)
  have "chain h' q (xs @ ys) q"
  proof (cases ys)
    case Nil
    then show ?thesis using A by simp
  next
    case (Cons y ys')
    have "chain h y ys' q" using right Cons by simp
    moreover have "\<forall>x\<in>insert y (set ys'). nxt (h' x) = nxt (h x)"
      using d l Cons by (auto simp: n)
    moreover have "\<forall>x\<in>insert q (set ys'). prv (h' x) = prv (h x)"
      using d Cons by (auto simp: v)
    ultimately have "chain h' y ys' q" using chain_nxt_frame [of y ys' h' h q] by simp
    then show ?thesis using A Cons by (simp add: chain_append)
  qed
  then have "queue_repr h' q (xs @ ys)" using d by (auto simp: queue_repr_def)
  moreover have "\<forall>x. x \<notin> insert q (set (xs @ p # ys)) \<longrightarrow> h' x = h x"
    using l w by (auto intro!: list_head_eqI simp: n v)
  ultimately show ?thesis using h' by (auto simp: n v)
qed

lemma queue_repr_unique:
  assumes "queue_repr h q xs" "queue_repr h q ys"
  shows "xs = ys"
proof -
  have "chain h a xs z \<Longrightarrow> chain h a ys z \<Longrightarrow> z \<notin> set xs \<Longrightarrow> z \<notin> set ys \<Longrightarrow> xs = ys" for a z
  proof (induction xs arbitrary: a ys)
    case Nil
    then show ?case by (cases ys) auto
  next
    case (Cons x xs)
    then show ?case by (cases ys) auto
  qed
  then show ?thesis using assms by (auto simp: queue_repr_def)
qed

section \<open>The queue interface\<close>

text \<open>
  The contract the scheduler and the semaphores rely on: a family of queues over one heap of
  links, each represented by its head. \<open>family h Q S\<close> says that the heads in \<open>S\<close> represent the
  disjoint lists \<open>Q\<close>; the lemmas say what moving an element between queues does to the family.
\<close>

locale link_queues =
  fixes repr :: "'h \<Rightarrow> 'p \<Rightarrow> 'p list \<Rightarrow> bool"
    and init :: "'h \<Rightarrow> 'p \<Rightarrow> 'h"
    and push_front :: "'h \<Rightarrow> 'p \<Rightarrow> 'p \<Rightarrow> 'h option"
    and push_back :: "'h \<Rightarrow> 'p \<Rightarrow> 'p \<Rightarrow> 'h option"
    and unlink :: "'h \<Rightarrow> 'p \<Rightarrow> 'h option"
    and is_empty :: "'h \<Rightarrow> 'p \<Rightarrow> bool"
    and first :: "'h \<Rightarrow> 'p \<Rightarrow> 'p option"
    and agree :: "'h \<Rightarrow> 'h \<Rightarrow> 'p set \<Rightarrow> bool"
  assumes init_repr: "repr (init h q) q []"
    and init_agree: "q \<notin> A \<Longrightarrow> agree h (init h q) A"
    and repr_agree: "repr h q xs \<Longrightarrow> agree h h' (insert q (set xs)) \<Longrightarrow> repr h' q xs"
    and repr_distinct: "repr h q xs \<Longrightarrow> distinct (q # xs)"
    and push_back_repr: "repr h q xs \<Longrightarrow> p \<notin> insert q (set xs) \<Longrightarrow>
      \<exists>h'. push_back h p q = Some h' \<and> repr h' q (xs @ [p]) \<and>
        (\<forall>A. A \<inter> insert p (insert q (set xs)) = {} \<longrightarrow> agree h h' A)"
    and push_front_repr: "repr h q xs \<Longrightarrow> p \<notin> insert q (set xs) \<Longrightarrow>
      \<exists>h'. push_front h p q = Some h' \<and> repr h' q (p # xs) \<and>
        (\<forall>A. A \<inter> insert p (insert q (set xs)) = {} \<longrightarrow> agree h h' A)"
    and unlink_repr: "repr h q (xs @ p # ys) \<Longrightarrow>
      \<exists>h'. unlink h p = Some h' \<and> repr h' q (xs @ ys) \<and>
        (\<forall>A. A \<inter> insert q (set (xs @ p # ys)) = {} \<longrightarrow> agree h h' A)"
    and is_empty_repr: "repr h q xs \<Longrightarrow> is_empty h q \<longleftrightarrow> xs = []"
    and first_repr: "repr h q (x # xs) \<Longrightarrow> first h q = Some x"
begin

definition family :: "'h \<Rightarrow> ('p \<Rightarrow> 'p list) \<Rightarrow> 'p set \<Rightarrow> bool" where
  "family h Q S \<longleftrightarrow>
     (\<forall>q\<in>S. repr h q (Q q) \<and> set (Q q) \<inter> S = {}) \<and>
     (\<forall>q\<in>S. \<forall>r\<in>S. q \<noteq> r \<longrightarrow> set (Q q) \<inter> set (Q r) = {})"

lemma family_repr: "family h Q S \<Longrightarrow> q \<in> S \<Longrightarrow> repr h q (Q q)"
  by (simp add: family_def)

lemma family_step:
  assumes "family h Q S" "q \<in> S" "repr h' q xs" "set xs \<inter> S = {}"
    and "\<And>r. r \<in> S \<Longrightarrow> r \<noteq> q \<Longrightarrow> set xs \<inter> set (Q r) = {}"
    and "\<And>r. r \<in> S \<Longrightarrow> r \<noteq> q \<Longrightarrow> agree h h' (insert r (set (Q r)))"
  shows "family h' (Q(q := xs)) S"
  using assms by (auto simp: family_def intro: repr_agree)

lemma family_push_back:
  assumes fam: "family h Q S" and q: "q \<in> S" and p: "p \<notin> S" "\<And>r. r \<in> S \<Longrightarrow> p \<notin> set (Q r)"
  shows "\<exists>h'. push_back h p q = Some h' \<and> family h' (Q(q := Q q @ [p])) S"
proof -
  have "repr h q (Q q)" "p \<notin> insert q (set (Q q))" using fam q p by (auto simp: family_def)
  then obtain h' where h': "push_back h p q = Some h'" "repr h' q (Q q @ [p])"
    and fr: "\<And>A. A \<inter> insert p (insert q (set (Q q))) = {} \<Longrightarrow> agree h h' A"
    using push_back_repr by blast
  have "family h' (Q(q := Q q @ [p])) S"
  proof (rule family_step [OF fam q h'(2)])
    fix r assume r: "r \<in> S" "r \<noteq> q"
    show "set (Q q @ [p]) \<inter> set (Q r) = {}" using fam q r p by (auto simp: family_def)
    show "agree h h' (insert r (set (Q r)))"
      using fam q r p by (intro fr) (auto simp: family_def)
  qed (use fam q p in \<open>auto simp: family_def\<close>)
  with h' show ?thesis by blast
qed

lemma family_push_front:
  assumes fam: "family h Q S" and q: "q \<in> S" and p: "p \<notin> S" "\<And>r. r \<in> S \<Longrightarrow> p \<notin> set (Q r)"
  shows "\<exists>h'. push_front h p q = Some h' \<and> family h' (Q(q := p # Q q)) S"
proof -
  have "repr h q (Q q)" "p \<notin> insert q (set (Q q))" using fam q p by (auto simp: family_def)
  then obtain h' where h': "push_front h p q = Some h'" "repr h' q (p # Q q)"
    and fr: "\<And>A. A \<inter> insert p (insert q (set (Q q))) = {} \<Longrightarrow> agree h h' A"
    using push_front_repr by blast
  have "family h' (Q(q := p # Q q)) S"
  proof (rule family_step [OF fam q h'(2)])
    fix r assume r: "r \<in> S" "r \<noteq> q"
    show "set (p # Q q) \<inter> set (Q r) = {}" using fam q r p by (auto simp: family_def)
    show "agree h h' (insert r (set (Q r)))"
      using fam q r p by (intro fr) (auto simp: family_def)
  qed (use fam q p in \<open>auto simp: family_def\<close>)
  with h' show ?thesis by blast
qed

lemma family_unlink:
  assumes fam: "family h Q S" and q: "q \<in> S" and p: "p \<in> set (Q q)"
  shows "\<exists>h'. unlink h p = Some h' \<and> family h' (Q(q := remove1 p (Q q))) S"
proof -
  obtain xs ys where sp: "Q q = xs @ p # ys" using p by (meson split_list)
  have rp: "repr h q (xs @ p # ys)" using family_repr [OF fam q] sp by simp
  then obtain h' where h': "unlink h p = Some h'" "repr h' q (xs @ ys)"
    and fr: "\<And>A. A \<inter> insert q (set (xs @ p # ys)) = {} \<Longrightarrow> agree h h' A"
    using unlink_repr by blast
  have rem: "remove1 p (Q q) = xs @ ys"
    using repr_distinct [OF rp] sp by (auto simp: remove1_append)
  have "family h' (Q(q := xs @ ys)) S"
  proof (rule family_step [OF fam q h'(2)])
    fix r assume r: "r \<in> S" "r \<noteq> q"
    have dj: "set (Q q) \<inter> set (Q r) = {}" using fam q r unfolding family_def by blast
    then show "set (xs @ ys) \<inter> set (Q r) = {}" using sp by auto
    have "r \<notin> set (Q q)" "q \<notin> set (Q r)" using fam q r unfolding family_def by blast+
    then show "agree h h' (insert r (set (Q r)))"
      using dj sp r by (intro fr) auto
  next
    show "set (xs @ ys) \<inter> S = {}" using fam q sp unfolding family_def by fastforce
  qed
  with h' rem show ?thesis by simp
qed

text \<open>Taking the first element of a queue, and moving an element from one queue to another.\<close>

lemma family_pop:
  assumes fam: "family h Q S" and q: "q \<in> S" and ne: "Q q = p # ps"
  shows "first h q = Some p \<and> (\<exists>h'. unlink h p = Some h' \<and> family h' (Q(q := ps)) S)"
  using family_unlink [OF fam q, of p] first_repr [of h q p ps] family_repr [OF fam q] ne
  by auto

lemma family_move:
  assumes fam: "family h Q S" and q: "q \<in> S" and r: "r \<in> S" and p: "p \<in> set (Q q)"
  shows "\<exists>h1 h2. unlink h p = Some h1 \<and> push_back h1 p r = Some h2 \<and>
    family h2 ((Q(q := remove1 p (Q q)))(r := (Q(q := remove1 p (Q q))) r @ [p])) S"
proof -
  let ?Q = "Q(q := remove1 p (Q q))"
  obtain h1 where h1: "unlink h p = Some h1" "family h1 ?Q S"
    using family_unlink [OF fam q p] by blast
  have d: "distinct (Q q)" using repr_distinct [OF family_repr [OF fam q]] by simp
  have "p \<notin> S" using fam q p by (auto simp: family_def)
  moreover have "p \<notin> set (?Q s)" if "s \<in> S" for s
  proof (cases "s = q")
    case False
    then show ?thesis using fam q p that unfolding family_def by auto blast
  qed (use d in simp)
  ultimately show ?thesis using family_push_back [OF h1(2) r] h1(1) by blast
qed

lemma family_init:
  assumes fam: "family h Q S" and q: "q \<notin> S" "\<And>r. r \<in> S \<Longrightarrow> q \<notin> set (Q r)"
  shows "family (init h q) (Q(q := [])) (insert q S)"
  unfolding family_def
  using assms init_repr init_agree by (auto simp: family_def intro: repr_agree)

lemma family_agree:
  "family h Q S \<Longrightarrow> (\<And>q. q \<in> S \<Longrightarrow> agree h h' (insert q (set (Q q)))) \<Longrightarrow> family h' Q S"
  unfolding family_def by (blast intro: repr_agree)

lemma family_restrict: "family h Q S \<Longrightarrow> T \<subseteq> S \<Longrightarrow> family h Q T"
  unfolding family_def by blast

end

definition links_agree :: "'p links \<Rightarrow> 'p links \<Rightarrow> 'p set \<Rightarrow> bool" where
  "links_agree h h' A \<longleftrightarrow> (\<forall>x\<in>A. h' x = h x)"

interpretation lq: link_queues queue_repr INIT_LIST_HEAD list_add list_add_tail list_del
  list_empty list_first links_agree
proof unfold_locales
  fix h :: "'p links" and q p xs
  assume a: "queue_repr h q xs" "p \<notin> insert q (set xs)"
  show "\<exists>h'. list_add_tail h p q = Some h' \<and> queue_repr h' q (xs @ [p]) \<and>
      (\<forall>A. A \<inter> insert p (insert q (set xs)) = {} \<longrightarrow> links_agree h h' A)"
    using list_add_tail_repr [OF a] unfolding links_agree_def by blast
  show "\<exists>h'. list_add h p q = Some h' \<and> queue_repr h' q (p # xs) \<and>
      (\<forall>A. A \<inter> insert p (insert q (set xs)) = {} \<longrightarrow> links_agree h h' A)"
    using list_add_repr [OF a] unfolding links_agree_def by blast
next
  fix h :: "'p links" and q p xs ys
  assume "queue_repr h q (xs @ p # ys)"
  then show "\<exists>h'. list_del h p = Some h' \<and> queue_repr h' q (xs @ ys) \<and>
      (\<forall>A. A \<inter> insert q (set (xs @ p # ys)) = {} \<longrightarrow> links_agree h h' A)"
    using list_del_repr [of h q xs p ys] unfolding links_agree_def by blast
next
  fix h h' :: "'p links" and q xs
  assume "queue_repr h q xs" "links_agree h h' (insert q (set xs))"
  then show "queue_repr h' q xs" by (auto simp: links_agree_def intro: queue_repr_frame)
next
  fix h :: "'p links" and q :: 'p and A
  assume "q \<notin> A"
  then show "links_agree h (INIT_LIST_HEAD h q) A"
    by (metis links_agree_def INIT_LIST_HEAD_frame)
qed (auto simp: INIT_LIST_HEAD_repr links_agree_def
      list_empty_repr list_first_repr dest: queue_repr_distinct)

section \<open>Properties\<close>

text \<open>Filling an empty queue with \<open>list_add_tail\<close>, and emptying it from the front.\<close>

fun enqueue_all :: "'p links \<Rightarrow> 'p \<Rightarrow> 'p list \<Rightarrow> 'p links option" where
  "enqueue_all h q [] = Some h"
| "enqueue_all h q (p # ps) = do { h' \<leftarrow> list_add_tail h p q; enqueue_all h' q ps }"

fun dequeue_n :: "'p links \<Rightarrow> 'p \<Rightarrow> nat \<Rightarrow> ('p list \<times> 'p links) option" where
  "dequeue_n h q 0 = Some ([], h)"
| "dequeue_n h q (Suc n) =
     do { p \<leftarrow> list_first h q; h1 \<leftarrow> list_del h p; (ps, h2) \<leftarrow> dequeue_n h1 q n; Some (p # ps, h2) }"

lemma enqueue_all_repr:
  "queue_repr h q xs \<Longrightarrow> distinct (q # xs @ ps) \<Longrightarrow>
    \<exists>h'. enqueue_all h q ps = Some h' \<and> queue_repr h' q (xs @ ps)"
proof (induction ps arbitrary: h xs)
  case (Cons p ps)
  then obtain h1 where "list_add_tail h p q = Some h1" "queue_repr h1 q (xs @ [p])"
    using list_add_tail_repr [of h q xs p] by auto
  then show ?case using Cons.IH [of h1 "xs @ [p]"] Cons.prems(2) by auto
qed simp

lemma dequeue_n_repr:
  "queue_repr h q (xs @ ys) \<Longrightarrow>
    \<exists>h'. dequeue_n h q (length xs) = Some (xs, h') \<and> queue_repr h' q ys"
proof (induction xs arbitrary: h)
  case (Cons x xs)
  then obtain h1 where "list_del h x = Some h1" "queue_repr h1 q (xs @ ys)"
    using list_del_repr [of h q "[]" x "xs @ ys"] by auto
  moreover have "list_first h q = Some x" using Cons.prems list_first_repr [of h q x "xs @ ys"] by simp
  ultimately show ?case using Cons.IH [of h1] by auto
qed simp

text \<open>
  C32. A list initialised with INIT_LIST_HEAD and filled with list_add_tail is a first-in first-
  out queue: taking list_first and list_del repeatedly gives the elements in the order of
  insertion, and list_empty holds at the end.
\<close>

theorem list_is_fifo:
  assumes "distinct (q # ps)"
  shows "\<exists>h1 h2. enqueue_all (INIT_LIST_HEAD h q) q ps = Some h1 \<and>
    dequeue_n h1 q (length ps) = Some (ps, h2) \<and> list_empty h2 q"
proof -
  obtain h1 where 1: "enqueue_all (INIT_LIST_HEAD h q) q ps = Some h1" "queue_repr h1 q ps"
    using enqueue_all_repr [OF INIT_LIST_HEAD_repr, of q ps h] assms by auto
  obtain h2 where "dequeue_n h1 q (length ps) = Some (ps, h2)" "queue_repr h2 q []"
    using dequeue_n_repr [of h1 q ps "[]"] 1(2) by auto
  then show ?thesis using 1(1) list_empty_repr [of h2 q "[]"] by auto
qed

theorem list_is_fifo_witness:
  "\<exists>h1 h2. enqueue_all (INIT_LIST_HEAD (\<lambda>_. \<lparr>nxt = None, prv = None\<rparr>) (0 :: nat)) 0 [3, 1, 2] = Some h1 \<and>
    dequeue_n h1 0 3 = Some ([3, 1, 2], h2) \<and> list_empty h2 0"
  using list_is_fifo [of "0 :: nat" "[3, 1, 2]"] by (simp add: numeral_3_eq_3)

text \<open>
  Inserting a new element at the tail and deleting it restores the list and every link
  outside the element, whose own links become NULL.
\<close>

theorem list_del_undoes_insertion:
  assumes "queue_repr h q xs" "p \<notin> insert q (set xs)"
  shows "\<exists>h1 h2. list_add_tail h p q = Some h1 \<and> queue_repr h1 q (xs @ [p]) \<and>
    list_del h1 p = Some h2 \<and> queue_repr h2 q xs \<and> nxt (h2 p) = None \<and> prv (h2 p) = None \<and>
    (\<forall>x. x \<noteq> p \<longrightarrow> x \<notin> insert q (set xs) \<longrightarrow> h2 x = h x)"
proof -
  obtain h1 where 1: "list_add_tail h p q = Some h1" "queue_repr h1 q (xs @ [p])"
    "\<forall>x. x \<notin> insert p (insert q (set xs)) \<longrightarrow> h1 x = h x"
    using list_add_tail_repr [OF assms] by blast
  obtain h2 where "list_del h1 p = Some h2" "queue_repr h2 q xs" "nxt (h2 p) = None" "prv (h2 p) = None"
    "\<forall>x. x \<notin> insert q (set (xs @ [p])) \<longrightarrow> h2 x = h1 x"
    using list_del_repr [of h1 q xs p "[]"] 1(2) by auto
  then show ?thesis using 1 by (intro exI [of _ h1] exI [of _ h2]) auto
qed

theorem list_del_undoes_insertion_witness:
  "\<exists>h1 h2. list_add_tail (INIT_LIST_HEAD (\<lambda>_. \<lparr>nxt = None, prv = None\<rparr>) (0 :: nat)) 5 0 = Some h1 \<and>
    list_del h1 5 = Some h2 \<and> queue_repr h2 0 []"
  using list_del_undoes_insertion [OF INIT_LIST_HEAD_repr, of 5 0] by force

end
