(* ===== verification/ListIter.thy ===== *)
theory ListIter
  imports ListHead
begin

text \<open>
  The two traversal macros of \<open>include/list.h\<close>. The kernel does not use them, its interface offers
  them. The loops end only on a well-formed list, so they are partial functions over the heap of links
  and a state of the loop body; a body may change both.
\<close>

type_synonym ('p, 's) loop_body = "'p \<Rightarrow> 'p links \<Rightarrow> 's \<Rightarrow> ('p links \<times> 's) option"

text \<open>\<open>for (pos = head->next; pos != head; pos = pos->next)\<close>.\<close>

partial_function (option) for_each_from ::
  "('p, 's) loop_body \<Rightarrow> 'p \<Rightarrow> 'p option \<Rightarrow> 'p links \<Rightarrow> 's \<Rightarrow> ('p links \<times> 's) option" where
  "for_each_from body head pos h s =
     (if pos = Some head then Some (h, s)
      else do { p \<leftarrow> pos; (h1, s1) \<leftarrow> body p h s; for_each_from body head (nxt (h1 p)) h1 s1 })"

definition list_for_each :: "('p, 's) loop_body \<Rightarrow> 'p \<Rightarrow> 'p links \<Rightarrow> 's \<Rightarrow> ('p links \<times> 's) option" where
  "list_for_each body head h s = for_each_from body head (nxt (h head)) h s"

text \<open>\<open>for (pos = head->next, n = pos->next; pos != head; pos = n, n = pos->next)\<close>.\<close>

partial_function (option) for_each_safe_from ::
  "('p, 's) loop_body \<Rightarrow> 'p \<Rightarrow> 'p option \<Rightarrow> 'p option \<Rightarrow> 'p links \<Rightarrow> 's \<Rightarrow> ('p links \<times> 's) option" where
  "for_each_safe_from body head pos n h s =
     (if pos = Some head then Some (h, s)
      else do { p \<leftarrow> pos; (h1, s1) \<leftarrow> body p h s; q \<leftarrow> n; for_each_safe_from body head (Some q) (nxt (h1 q)) h1 s1 })"

definition list_for_each_safe :: "('p, 's) loop_body \<Rightarrow> 'p \<Rightarrow> 'p links \<Rightarrow> 's \<Rightarrow> ('p links \<times> 's) option" where
  "list_for_each_safe body head h s =
     do { p \<leftarrow> nxt (h head); for_each_safe_from body head (Some p) (nxt (h p)) h s }"

section \<open>A body that leaves the list alone\<close>

lemma for_each_chain:
  assumes "chain h a xs q" "q \<notin> set xs" "\<And>p t. p \<in> set xs \<Longrightarrow> body p h t = Some (h, f p t)"
  shows "for_each_from body q (nxt (h a)) h s = Some (h, fold f xs s)"
  using assms
proof (induction xs arbitrary: a s)
  case Nil
  then show ?case by (simp add: for_each_from.simps [of body q "Some q"])
next
  case (Cons x xs)
  then show ?case by (auto simp: for_each_from.simps [of body q "Some x"])
qed

theorem list_for_each_folds:
  assumes "queue_repr h q xs" "\<And>p t. p \<in> set xs \<Longrightarrow> body p h t = Some (h, f p t)"
  shows "list_for_each body q h s = Some (h, fold f xs s)"
  unfolding list_for_each_def by (rule for_each_chain) (use assms in \<open>simp_all add: queue_repr_def\<close>)

section \<open>A body that deletes elements\<close>

definition delete_if :: "('p \<Rightarrow> bool) \<Rightarrow> ('p, 's) loop_body" where
  "delete_if P p h s = (if P p then do { h1 \<leftarrow> list_del h p; Some (h1, s) } else Some (h, s))"

lemma queue_nxt: "queue_repr h q (xs @ x # ys) \<Longrightarrow> nxt (h x) = Some (hd (ys @ [q]))"
  using chain_first [of h x ys q] by (auto simp: queue_repr_def chain_append)

lemma queue_pos_neq: "queue_repr h q (xs @ x # ys) \<Longrightarrow> x \<noteq> q"
  by (auto simp: queue_repr_def)

text \<open>The safe macro steps over a list whose current element goes away.\<close>

lemma for_each_safe_deletes:
  "queue_repr h q (ys @ xs) \<Longrightarrow>
    \<exists>h'. for_each_safe_from (delete_if P) q (Some (hd (xs @ [q]))) (nxt (h (hd (xs @ [q])))) h s = Some (h', s) \<and>
      queue_repr h' q (ys @ filter (\<lambda>x. \<not> P x) xs)"
proof (induction xs arbitrary: h ys)
  case Nil
  then show ?case by (simp add: for_each_safe_from.simps [of _ q "Some q"])
next
  case (Cons x xs)
  have x: "x \<noteq> q" "nxt (h x) = Some (hd (xs @ [q]))"
    using queue_pos_neq [OF Cons.prems] queue_nxt [OF Cons.prems] .
  show ?case
  proof (cases "P x")
    case True
    obtain h1 where h1: "list_del h x = Some h1" "queue_repr h1 q (ys @ xs)"
      using list_del_repr [OF Cons.prems] by blast
    then show ?thesis using Cons.IH [OF h1(2)] x True
      by (simp add: for_each_safe_from.simps [of _ q "Some x"] delete_if_def)
  next
    case False
    then show ?thesis using Cons.IH [of h "ys @ [x]"] Cons.prems x
      by (simp add: for_each_safe_from.simps [of _ q "Some x"] delete_if_def)
  qed
qed

theorem list_for_each_safe_deletes:
  assumes "queue_repr h q xs"
  shows "\<exists>h'. list_for_each_safe (delete_if P) q h s = Some (h', s) \<and> queue_repr h' q (filter (\<lambda>x. \<not> P x) xs)"
  using for_each_safe_deletes [of h q "[]" xs P s] assms chain_first [of h q xs q]
  by (simp add: list_for_each_safe_def queue_repr_def)

text \<open>The plain macro does not: deleting the current element leads it to NULL.\<close>

theorem list_for_each_delete_faults:
  assumes "queue_repr h q (x # xs)" "P x"
  shows "list_for_each (delete_if P) q h s = None"
proof -
  obtain h1 where "list_del h x = Some h1" "nxt (h1 x) = None"
    using list_del_repr [of h q "[]" x xs] assms(1) by auto
  moreover have "nxt (h q) = Some x" "x \<noteq> q" using assms(1) by (auto simp: queue_repr_def)
  ultimately show ?thesis using assms(2)
    by (simp add: list_for_each_def for_each_from.simps [of _ q "Some x"] for_each_from.simps [of _ q None] delete_if_def)
qed

end
