(* ===== verification/CirBuffer.thy ===== *)
theory CirBuffer
  imports Prelude
begin

text \<open>
  The keyboard ring buffer of \<open>cirBuffer.c\<close> and \<open>include/cirBuffer.h\<close>: its record, the four
  operations as written (an access outside the 16 bytes of \<open>buffer\<close> is \<^term>\<open>None\<close>), the
  abstract queue it stands for, the refinement of a bounded FIFO as far as the code implements
  one, and what the code does beyond that point: \<open>cirBuffRead\<close> never wraps \<open>readPos\<close>.
\<close>

section \<open>The code\<close>

definition CIRBUFFER_SIZE :: int where [simp]: "CIRBUFFER_SIZE = 16"

record cirBuffer =
  writePos :: int
  readPos :: int
  full :: u32
  buffer :: "u8 list"

definition buf_store :: "cirBuffer \<Rightarrow> int \<Rightarrow> u8 \<Rightarrow> cirBuffer option" where
  "buf_store b i c =
     (if 0 \<le> i \<and> i < CIRBUFFER_SIZE then Some (b\<lparr>buffer := (buffer b)[nat i := c]\<rparr>) else None)"

definition buf_load :: "cirBuffer \<Rightarrow> int \<Rightarrow> u8 option" where
  "buf_load b i = (if 0 \<le> i \<and> i < CIRBUFFER_SIZE then Some (buffer b ! nat i) else None)"

definition cirBuffWrite :: "cirBuffer \<Rightarrow> u8 \<Rightarrow> cirBuffer option" where
  "cirBuffWrite buff add =
     (if full buff \<noteq> 0 then Some buff
      else do {
        b1 \<leftarrow> buf_store buff (writePos buff) add;
        let b2 = b1\<lparr>writePos := i32 (writePos b1 + 1)\<rparr>;
        let b3 = (if writePos b2 \<ge> CIRBUFFER_SIZE then b2\<lparr>writePos := 0\<rparr> else b2);
        Some (if writePos b3 = readPos b3 then b3\<lparr>full := 1\<rparr> else b3)
      })"

definition cirBuffRead :: "cirBuffer \<Rightarrow> (u8 \<times> cirBuffer) option" where
  "cirBuffRead buff =
     do {
       ret \<leftarrow> buf_load buff (readPos buff);
       let b1 = buff\<lparr>readPos := i32 (readPos buff + 1)\<rparr>;
       Some (ret, if readPos b1 = writePos b1 then b1\<lparr>full := 0\<rparr> else b1)
     }"

definition cirBuffFull :: "cirBuffer \<Rightarrow> int" where
  "cirBuffFull buff = sint (full buff)"

definition cirBuffLenght :: "cirBuffer \<Rightarrow> int" where
  "cirBuffLenght buff =
     (if writePos buff > readPos buff then i32 (writePos buff - readPos buff)
      else if writePos buff = readPos buff then
        (if full buff \<noteq> 0 then CIRBUFFER_SIZE else 0)
      else i32 (i32 (CIRBUFFER_SIZE - readPos buff) + writePos buff))"

text \<open>The static initial value (\<open>struct cirBuffer keyboardBuff\<close> in system.c is zeroed).\<close>

definition cirBuffer_zero :: cirBuffer where
  "cirBuffer_zero = \<lparr>writePos = 0, readPos = 0, full = 0, buffer = replicate 16 0\<rparr>"

section \<open>The queue it represents\<close>

definition buf_wf :: "cirBuffer \<Rightarrow> bool" where
  "buf_wf b \<longleftrightarrow> length (buffer b) = 16 \<and> 0 \<le> writePos b \<and> writePos b < 16 \<and>
     0 \<le> readPos b \<and> readPos b < 16 \<and> (full b \<noteq> 0 \<longrightarrow> writePos b = readPos b)"

definition contents :: "cirBuffer \<Rightarrow> u8 list" where
  "contents b = map (\<lambda>k. buffer b ! nat ((readPos b + int k) mod 16)) [0..<nat (cirBuffLenght b)]"

lemma mod16_diff:
  "0 \<le> (a :: int) \<Longrightarrow> a < 16 \<Longrightarrow> 0 \<le> b \<Longrightarrow> b < 16 \<Longrightarrow>
    (a - b) mod 16 = (if b \<le> a then a - b else a - b + 16)"
  using mod_add_self2 [of "a - b" 16] mod_pos_pos_trivial [of "a - b + 16" 16]
    mod_pos_pos_trivial [of "a - b" 16] by auto

lemma mod16_add:
  "0 \<le> (a :: int) \<Longrightarrow> a < 16 \<Longrightarrow> 0 \<le> b \<Longrightarrow> b < 16 \<Longrightarrow>
    (a + b) mod 16 = (if a + b < 16 then a + b else a + b - 16)"
  using mod_add_self2 [of "a + b - 16" 16] mod_pos_pos_trivial [of "a + b - 16" 16]
    mod_pos_pos_trivial [of "a + b" 16] by auto

lemma mod16_Suc:
  "0 \<le> (a :: int) \<Longrightarrow> a < 16 \<Longrightarrow> (a + 1) mod 16 = (if a = 15 then 0 else a + 1)"
  by auto

lemma buf_wf_Lenght:
  "buf_wf b \<Longrightarrow> cirBuffLenght b =
     (if full b \<noteq> 0 then 16 else (writePos b - readPos b) mod 16)"
  by (auto simp: buf_wf_def cirBuffLenght_def i32_id int_range_def mod16_diff)

lemma length_contents: "buf_wf b \<Longrightarrow> int (length (contents b)) = cirBuffLenght b"
  by (simp add: contents_def buf_wf_Lenght)

lemma length_contents_full: "buf_wf b \<Longrightarrow> length (contents b) = 16 \<longleftrightarrow> full b \<noteq> 0"
  using length_contents [of b] pos_mod_bound [of 16 "writePos b - readPos b"]
  by (auto simp: buf_wf_Lenght split: if_splits)

lemma length_contents_le: "buf_wf b \<Longrightarrow> length (contents b) \<le> 16"
  using length_contents [of b] pos_mod_bound [of 16 "writePos b - readPos b"]
  by (auto simp: buf_wf_Lenght split: if_splits)

lemma contents_zero: "buf_wf cirBuffer_zero \<and> contents cirBuffer_zero = []"
  by (simp add: buf_wf_def cirBuffer_zero_def contents_def cirBuffLenght_def)

lemma cirBuffWrite_refines:
  assumes wf: "buf_wf b"
  shows "\<exists>b'. cirBuffWrite b c = Some b' \<and> buf_wf b' \<and>
    contents b' = (if length (contents b) = 16 then contents b else contents b @ [c])"
proof (cases "full b = 0")
  case False
  then show ?thesis using wf length_contents_full [OF wf] by (auto simp: cirBuffWrite_def)
next
  case True
  define w' where "w' = (writePos b + 1) mod 16"
  define b' where "b' = b\<lparr>buffer := (buffer b)[nat (writePos b) := c], writePos := w',
    full := (if w' = readPos b then 1 else 0)\<rparr>"
  have w: "0 \<le> writePos b" "writePos b < 16" "0 \<le> readPos b" "readPos b < 16"
    and len: "length (buffer b) = 16" using wf by (auto simp: buf_wf_def)
  have "i32 (writePos b + 1) = writePos b + 1" using w by (simp add: i32_id int_range_def)
  moreover have "(if writePos b + 1 \<ge> 16 then 0 else writePos b + 1) = w'"
    using w unfolding w'_def by presburger
  ultimately have wr: "cirBuffWrite b c = Some b'"
    using True w by (cases b) (auto simp: cirBuffWrite_def buf_store_def b'_def Let_def w'_def)
  have wf': "buf_wf b'" using w len by (auto simp: buf_wf_def b'_def w'_def)
  let ?n = "nat ((writePos b - readPos b) mod 16)"
  have n: "?n < 16" by simp
  have L: "nat (cirBuffLenght b) = ?n" using buf_wf_Lenght [OF wf] True by simp
  have w15: "w' = readPos b \<Longrightarrow> (writePos b - readPos b) mod 16 = 15"
    and wn: "w' \<noteq> readPos b \<Longrightarrow> (w' - readPos b) mod 16 = (writePos b - readPos b) mod 16 + 1"
    using w by (auto simp: w'_def mod16_Suc mod16_diff split: if_splits)
  have "cirBuffLenght b' = (if w' = readPos b then 16 else (w' - readPos b) mod 16)"
    using buf_wf_Lenght [OF wf'] by (simp add: b'_def)
  then have L': "nat (cirBuffLenght b') = Suc ?n"
    using w15 wn by (auto simp: nat_add_distrib)
  have pos: "(readPos b + int ?n) mod 16 = writePos b"
    using w by (auto simp: mod16_diff mod16_add split: if_splits)
  have nth: "buffer b' ! nat ((readPos b + int k) mod 16) =
      (if k = ?n then c else buffer b ! nat ((readPos b + int k) mod 16))" if "k \<le> ?n" for k
  proof -
    have "k = ?n \<longleftrightarrow> (readPos b + int k) mod 16 = writePos b"
      using that n w by (auto simp: mod16_diff mod16_add split: if_splits)
    then show ?thesis using w len pos
      by (auto simp: b'_def nth_list_update nat_eq_iff)
  qed
  have "contents b' = contents b @ [c]"
  proof -
    have "readPos b' = readPos b" by (simp add: b'_def)
    then show ?thesis unfolding contents_def L L' using nth [of ?n] nth by (simp add: nth)
  qed
  moreover have "length (contents b) \<noteq> 16" using length_contents_full [OF wf] True by simp
  ultimately show ?thesis using wr wf' by simp
qed


lemma cirBuffRead_refines:
  assumes wf: "buf_wf b" and c: "contents b = c # cs" and nf: "full b = 0" and r: "readPos b < 15"
  shows "\<exists>b'. cirBuffRead b = Some (c, b') \<and> buf_wf b' \<and> full b' = 0 \<and>
    readPos b' = readPos b + 1 \<and> contents b' = cs"
proof -
  have w: "0 \<le> writePos b" "writePos b < 16" "0 \<le> readPos b" "readPos b < 16"
    and len: "length (buffer b) = 16" using wf by (auto simp: buf_wf_def)
  define b' where "b' = b\<lparr>readPos := readPos b + 1\<rparr>"
  have "i32 (readPos b + 1) = readPos b + 1" using w by (simp add: i32_id int_range_def)
  then have rd: "cirBuffRead b = Some (buffer b ! nat (readPos b), b')"
    using w nf by (cases b) (simp add: cirBuffRead_def buf_load_def b'_def Let_def)
  have wf': "buf_wf b'" using wf r nf by (simp add: buf_wf_def b'_def)
  have L: "cirBuffLenght b = (writePos b - readPos b) mod 16"
    using buf_wf_Lenght [OF wf] nf by simp
  have pos: "0 < cirBuffLenght b" using length_contents [OF wf] c by simp
  have "cirBuffLenght b' = (writePos b - readPos b - 1) mod 16"
    using buf_wf_Lenght [OF wf'] nf by (simp add: b'_def algebra_simps)
  also have "\<dots> = cirBuffLenght b - 1" using pos w r unfolding L
    by (subst mod16_diff [of "writePos b" "readPos b + 1", simplified diff_diff_eq [symmetric]])
      (auto simp: mod16_diff split: if_splits)
  finally have L': "cirBuffLenght b' = cirBuffLenght b - 1" .
  define m where "m = nat (cirBuffLenght b')"
  have m: "nat (cirBuffLenght b) = Suc m" using L' pos by (simp add: m_def)
  have "contents b = buffer b ! nat (readPos b) # contents b'"
  proof -
    have "[0..<Suc m] = 0 # map Suc [0..<m]" by (simp add: map_Suc_upt upt_conv_Cons del: upt_Suc)
    then show ?thesis
      unfolding contents_def m m_def [symmetric] using w by (simp add: b'_def algebra_simps)
  qed
  then show ?thesis using rd wf' c nf by (auto simp: b'_def)
qed

section \<open>What the code does beyond the FIFO\<close>

text \<open>A read that does not fault moves \<open>readPos\<close> up by one, always.\<close>

lemma cirBuffRead_advances:
  "cirBuffRead b = Some (c, b') \<Longrightarrow>
    0 \<le> readPos b \<and> readPos b < 16 \<and> readPos b' = readPos b + 1 \<and> writePos b' = writePos b"
  by (auto simp: cirBuffRead_def buf_load_def bind_eq_Some_iff i32_id int_range_def Let_def
      split: if_splits)

lemma cirBuffWrite_readPos: "cirBuffWrite b c = Some b' \<Longrightarrow> readPos b' = readPos b"
  by (auto simp: cirBuffWrite_def buf_store_def bind_eq_Some_iff Let_def split: if_splits)

text \<open>Runs of operations on a buffer.\<close>

datatype buf_op = Put u8 | Get

fun buf_run :: "buf_op list \<Rightarrow> cirBuffer \<Rightarrow> (u8 list \<times> cirBuffer) option" where
  "buf_run [] b = Some ([], b)"
| "buf_run (Put c # ops) b = do { b' \<leftarrow> cirBuffWrite b c; buf_run ops b' }"
| "buf_run (Get # ops) b =
     do { (c, b') \<leftarrow> cirBuffRead b; (cs, b'') \<leftarrow> buf_run ops b'; Some (c # cs, b'') }"

text \<open>The bounded queue of 16 characters the buffer is meant to be.\<close>

fun fifo_run :: "buf_op list \<Rightarrow> u8 list \<Rightarrow> (u8 list \<times> u8 list) option" where
  "fifo_run [] q = Some ([], q)"
| "fifo_run (Put c # ops) q = fifo_run ops (if length q = 16 then q else q @ [c])"
| "fifo_run (Get # ops) [] = None"
| "fifo_run (Get # ops) (c # q) = do { (cs, q') \<leftarrow> fifo_run ops q; Some (c # cs, q') }"

text \<open>The longest the abstract queue gets during a run.\<close>

fun fifo_peak :: "buf_op list \<Rightarrow> u8 list \<Rightarrow> nat" where
  "fifo_peak [] q = length q"
| "fifo_peak (Put c # ops) q = max (length q) (fifo_peak ops (if length q = 16 then q else q @ [c]))"
| "fifo_peak (Get # ops) q = max (length q) (fifo_peak ops (tl q))"

lemma fifo_peak_ge: "length q \<le> fifo_peak ops q"
  by (cases "(ops, q)" rule: fifo_peak.cases) auto

lemma buf_run_readPos:
  "buf_run ops b = Some (cs, b') \<Longrightarrow> readPos b' = readPos b + int (length cs)"
proof (induction ops b arbitrary: cs b' rule: buf_run.induct)
  case (2 c ops b)
  then obtain b1 where "cirBuffWrite b c = Some b1" "buf_run ops b1 = Some (cs, b')"
    by (auto simp: bind_eq_Some_iff)
  then show ?case using 2 cirBuffWrite_readPos by metis
next
  case (3 ops b)
  from 3(2) obtain c b1 cs1 where 1: "cirBuffRead b = Some (c, b1)" "buf_run ops b1 = Some (cs1, b')"
    "cs = c # cs1"
    by (auto simp: bind_eq_Some_iff)
  then show ?case using 3(1) [of "(c, b1)" c b1 cs1 b'] cirBuffRead_advances [OF 1(1)] by simp
qed simp

lemma buf_run_bound:
  "buf_run ops b = Some (cs, b') \<Longrightarrow> readPos b \<le> 16 \<Longrightarrow> readPos b' \<le> 16"
proof (induction ops b arbitrary: cs b' rule: buf_run.induct)
  case (2 c ops b)
  then obtain b1 where "cirBuffWrite b c = Some b1" "buf_run ops b1 = Some (cs, b')"
    by (auto simp: bind_eq_Some_iff)
  then show ?case using 2 cirBuffWrite_readPos by metis
next
  case (3 ops b)
  from 3(2) obtain c b1 cs1 where 1: "cirBuffRead b = Some (c, b1)" "buf_run ops b1 = Some (cs1, b')"
    by (auto simp: bind_eq_Some_iff)
  then show ?case using 3(1) [of "(c, b1)" c b1 cs1 b'] cirBuffRead_advances [OF 1(1)] by simp
qed simp

lemma buf_run_fifo:
  assumes "buf_wf b" "fifo_run ops (contents b) = Some (cs, q)"
    "fifo_peak ops (contents b) < 16" "readPos b + int (length cs) \<le> 15"
  shows "\<exists>b'. buf_run ops b = Some (cs, b') \<and> buf_wf b' \<and> contents b' = q"
  using assms
proof (induction ops b arbitrary: cs q rule: buf_run.induct)
  case (1 b)
  then show ?case by simp
next
  case (2 c ops b)
  obtain b1 where b1: "cirBuffWrite b c = Some b1" "buf_wf b1"
    "contents b1 = (if length (contents b) = 16 then contents b else contents b @ [c])"
    using cirBuffWrite_refines [OF 2(2)] by blast
  have r1: "readPos b1 = readPos b" using b1(1) by (rule cirBuffWrite_readPos)
  have "\<exists>b'. buf_run ops b1 = Some (cs, b') \<and> buf_wf b' \<and> contents b' = q"
    using 2(3-5) r1 b1 by (intro 2(1) [OF b1(1)]) auto
  then show ?case using b1(1) by simp
next
  case (3 ops b)
  obtain c q0 cs0 where c: "contents b = c # q0" and cs: "cs = c # cs0"
    "fifo_run ops q0 = Some (cs0, q)"
    using 3(3) by (cases "contents b") (auto simp: bind_eq_Some_iff)
  have "full b = 0"
    using 3(2,4) length_contents_full [OF 3(2)] fifo_peak_ge [of "contents b" "Get # ops"] by simp
  moreover have "readPos b < 15" using 3(5) cs by simp
  ultimately obtain b1 where b1: "cirBuffRead b = Some (c, b1)" "buf_wf b1" "contents b1 = q0"
    "readPos b1 = readPos b + 1"
    using cirBuffRead_refines [OF 3(2) c] by blast
  have "fifo_peak ops (contents b1) < 16" "readPos b1 + int (length cs0) \<le> 15"
    using 3(4,5) c cs b1 by auto
  then show ?case using 3(1) [of "(c, b1)" c b1 cs0 q] b1 cs by auto
qed

section \<open>Properties\<close>

text \<open>
  C33. As long as the buffer does not fill up and at most 15 characters have been read, every
  sequence of writes and reads behaves as a queue.
\<close>

theorem ring_is_bounded_fifo:
  assumes "buf_wf b" "fifo_run ops (contents b) = Some (cs, q)"
    "fifo_peak ops (contents b) < 16" "readPos b + int (length cs) \<le> 15"
  shows "\<exists>b'. buf_run ops b = Some (cs, b') \<and> buf_wf b' \<and> contents b' = q"
  using buf_run_fifo [OF assms] .

theorem ring_is_bounded_fifo_witness:
  "\<exists>b'. buf_run [Put 1, Put 2, Get, Put 3, Get] cirBuffer_zero = Some ([1, 2], b') \<and> contents b' = [3]"
  using ring_is_bounded_fifo [of cirBuffer_zero "[Put 1, Put 2, Get, Put 3, Get]"] contents_zero
  by (simp add: cirBuffer_zero_def) (elim ex_forward, simp)

lemma buf_run_gets:
  "0 \<le> readPos b \<Longrightarrow> readPos b + int n \<le> 16 \<Longrightarrow>
    \<exists>cs b'. buf_run (replicate n Get) b = Some (cs, b') \<and> length cs = n"
proof (induction n arbitrary: b)
  case (Suc n)
  define b1 where "b1 = (if readPos b + 1 = writePos b then b\<lparr>readPos := readPos b + 1, full := 0\<rparr>
    else b\<lparr>readPos := readPos b + 1\<rparr>)"
  have b1: "cirBuffRead b = Some (buffer b ! nat (readPos b), b1)" "readPos b1 = readPos b + 1"
    using Suc.prems by (simp_all add: b1_def cirBuffRead_def buf_load_def i32_id int_range_def Let_def)
  then show ?case using Suc.IH [of b1] Suc.prems by auto
qed simp

text \<open>
  Since readPos never wraps, no run of operations on the initial buffer reads more than 16
  characters: the next read is outside the array.
\<close>

theorem ring_reads_at_most_16:
  assumes "buf_run ops cirBuffer_zero = Some (cs, b)"
  shows "length cs \<le> 16 \<and> (length cs = 16 \<longrightarrow> cirBuffRead b = None)"
proof -
  have p: "readPos b = int (length cs)" "readPos b \<le> 16"
    using buf_run_readPos [OF assms] buf_run_bound [OF assms] by (simp_all add: cirBuffer_zero_def)
  have "cirBuffRead b = None" if "readPos b = 16" using that by (simp add: cirBuffRead_def buf_load_def)
  then show ?thesis using p by simp
qed

theorem ring_reads_at_most_16_witness:
  "\<exists>cs b. buf_run (replicate 16 Get) cirBuffer_zero = Some (cs, b) \<and> length cs = 16 \<and> cirBuffRead b = None"
proof -
  have "\<exists>cs b. buf_run (replicate 16 Get) cirBuffer_zero = Some (cs, b) \<and> length cs = 16"
    by (rule buf_run_gets) (simp_all add: cirBuffer_zero_def)
  then show ?thesis using ring_reads_at_most_16 [of "replicate 16 Get"] by blast
qed

end
