(* ===== verification/MemCopy.thy ===== *)
theory MemCopy
  imports Prelude
begin

text \<open>
  \<open>utils.c\<close>: the copy loops, the user pointer check and the tick counter. Memory is the physical
  byte memory; a virtual access goes through an \<open>mmu\<close> (a partial function from virtual to physical
  addresses, \<^term>\<open>None\<close> a page fault). The copy loops keep the source's two phases, a
  double word at a time while more than four bytes are left and then byte by byte, and are shown
  to copy exactly the requested bytes between ranges that do not overlap.
\<close>

section \<open>Memory accesses\<close>

type_synonym mem = "u32 \<Rightarrow> u8"
type_synonym mmu = "u32 \<Rightarrow> u32 option"

definition load8 :: "mmu \<Rightarrow> mem \<Rightarrow> u32 \<Rightarrow> u8 option" where
  "load8 tr m a = do { p \<leftarrow> tr a; Some (m p) }"

definition store8 :: "mmu \<Rightarrow> mem \<Rightarrow> u32 \<Rightarrow> u8 \<Rightarrow> mem option" where
  "store8 tr m a v = do { p \<leftarrow> tr a; Some (m(p := v)) }"

text \<open>A \<open>DWord\<close> is four bytes, the lowest first.\<close>

definition dword_of :: "u8 \<Rightarrow> u8 \<Rightarrow> u8 \<Rightarrow> u8 \<Rightarrow> u32" where
  "dword_of b0 b1 b2 b3 =
     ucast b0 OR push_bit 8 (ucast b1) OR push_bit 16 (ucast b2) OR push_bit 24 (ucast b3)"

definition byte_of :: "nat \<Rightarrow> u32 \<Rightarrow> u8" where
  "byte_of n w = ucast (drop_bit (8 * n) w)"

definition load32 :: "mmu \<Rightarrow> mem \<Rightarrow> u32 \<Rightarrow> u32 option" where
  "load32 tr m a =
     do { b0 \<leftarrow> load8 tr m a; b1 \<leftarrow> load8 tr m (a + 1);
          b2 \<leftarrow> load8 tr m (a + 2); b3 \<leftarrow> load8 tr m (a + 3);
          Some (dword_of b0 b1 b2 b3) }"

definition store32 :: "mmu \<Rightarrow> mem \<Rightarrow> u32 \<Rightarrow> u32 \<Rightarrow> mem option" where
  "store32 tr m a v =
     do { m0 \<leftarrow> store8 tr m a (byte_of 0 v); m1 \<leftarrow> store8 tr m0 (a + 1) (byte_of 1 v);
          m2 \<leftarrow> store8 tr m1 (a + 2) (byte_of 2 v); store8 tr m2 (a + 3) (byte_of 3 v) }"

lemma byte_of_dword [simp]:
  "byte_of 0 (dword_of b0 b1 b2 b3) = b0" "byte_of (Suc 0) (dword_of b0 b1 b2 b3) = b1"
  "byte_of 2 (dword_of b0 b1 b2 b3) = b2" "byte_of 3 (dword_of b0 b1 b2 b3) = b3"
  by (rule bit_word_eqI; auto simp: byte_of_def dword_of_def bit_simps dest: bit_imp_le_length)+

section \<open>copy_data, copy_from_user, copy_to_user\<close>

text \<open>The loop \<open>while(size > 4)\<close>, then the loop \<open>while(size > 0)\<close>.\<close>

function copy_words :: "mmu \<Rightarrow> mem \<Rightarrow> u32 \<Rightarrow> u32 \<Rightarrow> int \<Rightarrow> (mem \<times> u32 \<times> u32 \<times> int) option" where
  "copy_words tr m p q sz =
     (if sz > 4 then
        do { w \<leftarrow> load32 tr m p; m' \<leftarrow> store32 tr m q w;
             copy_words tr m' (p + 4) (q + 4) (sz - 4) }
      else Some (m, p, q, sz))"
  by pat_completeness auto
termination by (relation "measure (\<lambda>(tr, m, p, q, sz). nat sz)") auto

function copy_bytes :: "mmu \<Rightarrow> mem \<Rightarrow> u32 \<Rightarrow> u32 \<Rightarrow> int \<Rightarrow> mem option" where
  "copy_bytes tr m p q sz =
     (if sz > 0 then
        do { b \<leftarrow> load8 tr m p; m' \<leftarrow> store8 tr m q b;
             copy_bytes tr m' (p + 1) (q + 1) (sz - 1) }
      else Some m)"
  by pat_completeness auto
termination by (relation "measure (\<lambda>(tr, m, p, q, sz). nat sz)") auto

declare copy_words.simps [simp del] copy_bytes.simps [simp del]

definition copy_data :: "mmu \<Rightarrow> mem \<Rightarrow> u32 \<Rightarrow> u32 \<Rightarrow> int \<Rightarrow> mem option" where
  "copy_data tr m start dest sz =
     do { (m1, p, q, sz1) \<leftarrow> copy_words tr m start dest sz; copy_bytes tr m1 p q sz1 }"

definition copy_from_user :: "mmu \<Rightarrow> mem \<Rightarrow> u32 \<Rightarrow> u32 \<Rightarrow> int \<Rightarrow> (int \<times> mem) option" where
  "copy_from_user tr m start dest sz =
     do { (m1, p, q, sz1) \<leftarrow> copy_words tr m start dest sz;
          m2 \<leftarrow> copy_bytes tr m1 p q sz1;
          Some (0, m2) }"

definition copy_to_user :: "mmu \<Rightarrow> mem \<Rightarrow> u32 \<Rightarrow> u32 \<Rightarrow> int \<Rightarrow> (int \<times> mem) option" where
  "copy_to_user tr m start dest sz =
     do { (m1, p, q, sz1) \<leftarrow> copy_words tr m start dest sz;
          m2 \<leftarrow> copy_bytes tr m1 p q sz1;
          Some (0, m2) }"

section \<open>What a copy does\<close>

text \<open>\<open>pa tr a i\<close> is the physical address of the byte \<open>i\<close> of the block at \<open>a\<close>.\<close>

definition pa :: "mmu \<Rightarrow> u32 \<Rightarrow> nat \<Rightarrow> u32" where
  "pa tr a i = the (tr (a + of_nat i))"

definition copied :: "mmu \<Rightarrow> mem \<Rightarrow> mem \<Rightarrow> u32 \<Rightarrow> u32 \<Rightarrow> nat \<Rightarrow> bool" where
  "copied tr m m' p q n \<longleftrightarrow>
     (\<forall>i<n. m' (pa tr q i) = m (pa tr p i)) \<and> (\<forall>x. (\<forall>i<n. x \<noteq> pa tr q i) \<longrightarrow> m' x = m x)"

text \<open>The two blocks are mapped, do not overlap, and the destination has no aliases.\<close>

definition copy_ok :: "mmu \<Rightarrow> u32 \<Rightarrow> u32 \<Rightarrow> nat \<Rightarrow> bool" where
  "copy_ok tr p q n \<longleftrightarrow>
     (\<forall>i<n. tr (p + of_nat i) \<noteq> None \<and> tr (q + of_nat i) \<noteq> None) \<and>
     (\<forall>i<n. \<forall>j<n. pa tr p i \<noteq> pa tr q j) \<and>
     (\<forall>i<n. \<forall>j<n. i \<noteq> j \<longrightarrow> pa tr q i \<noteq> pa tr q j)"

lemma pa_add: "pa tr (a + of_nat k) i = pa tr a (k + i)"
  by (simp add: pa_def algebra_simps)

lemma copied_0: "copied tr m m' p q 0 \<longleftrightarrow> m' = m"
  by (auto simp: copied_def)

lemma copy_ok_mono: "copy_ok tr p q (k + n) \<Longrightarrow> copy_ok tr p q k"
  by (auto simp: copy_ok_def)

lemma copy_ok_shift: "copy_ok tr p q (k + n) \<Longrightarrow> copy_ok tr (p + of_nat k) (q + of_nat k) n"
  by (simp add: copy_ok_def pa_add add.assoc flip: of_nat_add)

lemma copied_trans:
  assumes ok: "copy_ok tr p q (k + n)" and 1: "copied tr m m1 p q k"
    and 2: "copied tr m1 m2 (p + of_nat k) (q + of_nat k) n"
  shows "copied tr m m2 p q (k + n)"
  unfolding copied_def
proof (intro conjI allI impI)
  fix i assume i: "i < k + n"
  show "m2 (pa tr q i) = m (pa tr p i)"
  proof (cases "i < k")
    case True
    have "m2 (pa tr q i) = m1 (pa tr q i)"
      using 2 ok True i unfolding copied_def pa_add copy_ok_def by auto
    then show ?thesis using 1 True by (simp add: copied_def)
  next
    case False
    then have e: "k + (i - k) = i" "i - k < n" using i by auto
    then have "m2 (pa tr q i) = m1 (pa tr p i)"
      using 2 unfolding copied_def pa_add by metis
    moreover have "m1 (pa tr p i) = m (pa tr p i)"
      using 1 ok i unfolding copied_def copy_ok_def by auto
    ultimately show ?thesis by simp
  qed
next
  fix x assume x: "\<forall>i<k + n. x \<noteq> pa tr q i"
  then have "m2 x = m1 x" using 2 unfolding copied_def pa_add by simp
  also have "m1 x = m x" using 1 x unfolding copied_def by simp
  finally show "m2 x = m x" .
qed


lemma load8_Some: "tr (p + of_nat i) \<noteq> None \<Longrightarrow> load8 tr m (p + of_nat i) = Some (m (pa tr p i))"
  by (auto simp: load8_def pa_def)

lemma store8_Some:
  "tr (q + of_nat i) \<noteq> None \<Longrightarrow> store8 tr m (q + of_nat i) v = Some (m(pa tr q i := v))"
  by (auto simp: store8_def pa_def)

lemma copy_byte_copied:
  assumes "copy_ok tr p q 1"
  shows "\<exists>b m'. load8 tr m p = Some b \<and> store8 tr m q b = Some m' \<and> copied tr m m' p q 1"
  using load8_Some [of tr p 0 m] store8_Some [of tr q 0 m] assms
  by (auto simp: copy_ok_def copied_def)

lemma copy_word_copied:
  assumes "copy_ok tr p q 4"
  shows "\<exists>w m'. load32 tr m p = Some w \<and> store32 tr m q w = Some m' \<and> copied tr m m' p q 4"
proof -
  have d: "\<And>i. i < 4 \<Longrightarrow> tr (p + of_nat i) \<noteq> None \<and> tr (q + of_nat i) \<noteq> None"
    and dis: "\<And>i j. i < 4 \<Longrightarrow> j < 4 \<Longrightarrow> pa tr p i \<noteq> pa tr q j"
    and inj: "\<And>i j. i < 4 \<Longrightarrow> j < 4 \<Longrightarrow> i \<noteq> j \<Longrightarrow> pa tr q i \<noteq> pa tr q j"
    using assms by (auto simp: copy_ok_def)
  have l: "load8 tr m p = Some (m (pa tr p 0))" "load8 tr m (p + 1) = Some (m (pa tr p 1))"
    "load8 tr m (p + 2) = Some (m (pa tr p 2))" "load8 tr m (p + 3) = Some (m (pa tr p 3))"
    using load8_Some [of tr p 0 m] load8_Some [of tr p 1 m] load8_Some [of tr p 2 m]
      load8_Some [of tr p 3 m] d [of 0] d [of 1] d [of 2] d [of 3] by simp_all
  have s: "store8 tr m' q v = Some (m'(pa tr q 0 := v))"
    "store8 tr m' (q + 1) v = Some (m'(pa tr q 1 := v))"
    "store8 tr m' (q + 2) v = Some (m'(pa tr q 2 := v))"
    "store8 tr m' (q + 3) v = Some (m'(pa tr q 3 := v))" for m' v
    using store8_Some [of tr q 0 m' v] store8_Some [of tr q 1 m' v] store8_Some [of tr q 2 m' v]
      store8_Some [of tr q 3 m' v] d [of 0] d [of 1] d [of 2] d [of 3] by simp_all
  have lt4: "(i < (4 :: nat)) = (i = 0 \<or> i = 1 \<or> i = 2 \<or> i = 3)" for i by auto
  show ?thesis
    using inj [of 0 1] inj [of 0 2] inj [of 0 3] inj [of 1 2] inj [of 1 3] inj [of 2 3]
    by (auto simp: load32_def store32_def l s copied_def lt4)
qed

lemma copy_bytes_copied:
  "copy_ok tr p q (nat sz) \<Longrightarrow>
    \<exists>m'. copy_bytes tr m p q sz = Some m' \<and> copied tr m m' p q (nat sz)"
proof (induction tr m p q sz rule: copy_bytes.induct)
  case (1 tr m p q sz)
  show ?case
  proof (cases "sz > 0")
    case True
    define n where "n = nat (sz - 1)"
    have n: "nat sz = 1 + n" using True by (simp add: n_def)
    obtain b m1 where b: "load8 tr m p = Some b" "store8 tr m q b = Some m1" "copied tr m m1 p q 1"
      using copy_byte_copied copy_ok_mono 1(2) unfolding n by blast
    have "copy_ok tr (p + 1) (q + 1) n" using copy_ok_shift [of tr p q 1 n] 1(2) n by simp
    then obtain m2 where m2: "copy_bytes tr m1 (p + 1) (q + 1) (sz - 1) = Some m2"
      "copied tr m1 m2 (p + 1) (q + 1) n"
      using 1(1) [OF True b(1,2)] unfolding n_def by blast
    have "copied tr m m2 p q (1 + n)"
      using copied_trans [of tr p q 1 n m m1 m2] 1(2) b(3) m2(2) n by simp
    then show ?thesis using True b m2 n by (subst copy_bytes.simps) simp
  next
    case False
    then show ?thesis by (subst copy_bytes.simps) (simp add: copied_0)
  qed
qed

lemma copy_words_copied:
  "copy_ok tr p q (nat sz) \<Longrightarrow>
    \<exists>m' k r. copy_words tr m p q sz = Some (m', p + of_nat k, q + of_nat k, r) \<and>
      copied tr m m' p q k \<and> nat sz = k + nat r"
proof (induction tr m p q sz rule: copy_words.induct)
  case (1 tr m p q sz)
  show ?case
  proof (cases "sz > 4")
    case True
    define n where "n = nat (sz - 4)"
    have n: "nat sz = 4 + n" using True by (simp add: n_def)
    obtain w m1 where w: "load32 tr m p = Some w" "store32 tr m q w = Some m1" "copied tr m m1 p q 4"
      using copy_word_copied copy_ok_mono 1(2) unfolding n by blast
    have "copy_ok tr (p + 4) (q + 4) n" using copy_ok_shift [of tr p q 4 n] 1(2) n by simp
    then obtain m2 k r where m2: "copy_words tr m1 (p + 4) (q + 4) (sz - 4) =
        Some (m2, p + 4 + of_nat k, q + 4 + of_nat k, r)"
      "copied tr m1 m2 (p + 4) (q + 4) k" "n = k + nat r"
      using 1(1) [OF True w(1,2)] unfolding n_def by blast
    have "copied tr m m2 p q (4 + k)"
      using copied_trans [of tr p q 4 k m m1 m2] copy_ok_mono [of tr p q "4 + k" "nat r"] 1(2) w(3)
        m2(2,3) n by (simp add: add.assoc)
    then show ?thesis using True w m2 n
      by (subst copy_words.simps) (auto intro!: exI [of _ "4 + k"] simp: add.assoc)
  next
    case False
    have "copy_words tr m p q sz = Some (m, p + of_nat 0, q + of_nat 0, sz)"
      using False by (subst copy_words.simps) simp
    then show ?thesis using copied_0 by fastforce
  qed
qed

text \<open>The two phases together copy the block; the three functions share it.\<close>

lemma copy_phases_copied:
  assumes "copy_ok tr p q (nat sz)"
  shows "\<exists>m1 p1 q1 r m'. copy_words tr m p q sz = Some (m1, p1, q1, r) \<and>
    copy_bytes tr m1 p1 q1 r = Some m' \<and> copied tr m m' p q (nat sz)"
proof -
  obtain m1 k r where w: "copy_words tr m p q sz = Some (m1, p + of_nat k, q + of_nat k, r)"
    "copied tr m m1 p q k" "nat sz = k + nat r"
    using copy_words_copied [OF assms] by blast
  have ok: "copy_ok tr p q (k + nat r)" using assms w(3) by simp
  obtain m' where m': "copy_bytes tr m1 (p + of_nat k) (q + of_nat k) r = Some m'"
    "copied tr m1 m' (p + of_nat k) (q + of_nat k) (nat r)"
    using copy_bytes_copied [OF copy_ok_shift [OF ok]] by blast
  show ?thesis using w m' copied_trans [OF ok w(2) m'(2)] by (metis w(3))
qed

lemma copy_data_copied:
  assumes "copy_ok tr p q (nat sz)"
  shows "\<exists>m'. copy_data tr m p q sz = Some m' \<and> copied tr m m' p q (nat sz)"
  using copy_phases_copied [OF assms, of m] by (auto simp: copy_data_def)

lemma copy_from_user_copied:
  assumes "copy_ok tr p q (nat sz)"
  shows "\<exists>m'. copy_from_user tr m p q sz = Some (0, m') \<and> copied tr m m' p q (nat sz)"
  using copy_phases_copied [OF assms, of m] by (auto simp: copy_from_user_def)

lemma copy_to_user_copied:
  assumes "copy_ok tr p q (nat sz)"
  shows "\<exists>m'. copy_to_user tr m p q sz = Some (0, m') \<and> copied tr m m' p q (nat sz)"
  using copy_phases_copied [OF assms, of m] by (auto simp: copy_to_user_def)


section \<open>access_ok\<close>

definition VERIFY_READ :: int where [simp]: "VERIFY_READ = 0"
definition VERIFY_WRITE :: int where [simp]: "VERIFY_WRITE = 1"

text \<open>
  The \<open>case VERIFY_WRITE\<close> of the switch has no \<open>break\<close>: when its test fails, control falls
  through to the \<open>default\<close> test.
\<close>

definition access_ok :: "int \<Rightarrow> u32 \<Rightarrow> u32 \<Rightarrow> int" where
  "access_ok ty addr sz =
     (let addr_ini = unat (drop_bit 12 addr); addr_fin = unat (drop_bit 12 (addr + sz)) in
      if addr_fin < addr_ini then 0
      else
        (let dflt = (if addr_ini \<ge> USER_FIRST_PAGE \<and>
             addr_fin \<le> USER_FIRST_PAGE + NUM_PAG_CODE + NUM_PAG_DATA then 1 else 0)
         in if ty = VERIFY_WRITE then
              (if addr_ini \<ge> USER_FIRST_PAGE + NUM_PAG_CODE \<and>
                 addr_fin \<le> USER_FIRST_PAGE + NUM_PAG_CODE + NUM_PAG_DATA then 1 else dflt)
            else dflt))"

lemma access_ok_iff:
  "access_ok ty addr sz \<noteq> 0 \<longleftrightarrow>
     256 \<le> unat addr div 4096 \<and> unat addr div 4096 \<le> unat (addr + sz) div 4096 \<and>
     unat (addr + sz) div 4096 \<le> 284"
  by (auto simp: access_ok_def unat_drop_bit_12 Let_def)

lemma access_ok_type: "access_ok ty addr sz = access_ok ty' addr sz"
  by (auto simp: access_ok_def Let_def)

lemma access_ok_bytes:
  assumes ok: "access_ok ty addr sz \<noteq> 0" and sz: "unat sz < 2147483648" and i: "i \<le> unat sz"
  shows "256 * 4096 \<le> unat (addr + of_nat i) \<and> unat (addr + of_nat i) < 285 * 4096 \<and>
    unat (addr + of_nat i) = unat addr + i"
proof -
  have a: "256 \<le> unat addr div 4096" "unat addr div 4096 \<le> 284"
    "unat (addr + sz) div 4096 \<le> 284" "unat addr div 4096 \<le> unat (addr + sz) div 4096"
    using ok unfolding access_ok_iff by simp_all
  have "unat addr < 285 * 4096" using a(2) by simp
  then have "unat addr + unat sz < 2 ^ 32" using sz by simp
  then have s: "unat (addr + sz) = unat addr + unat sz" by (simp add: unat_word_ariths)
  have "unat (of_nat i :: u32) = i" using i sz by (simp add: unat_of_nat)
  then have "unat (addr + of_nat i) = unat addr + i"
    using i \<open>unat addr + unat sz < 2 ^ 32\<close> by (simp add: unat_word_ariths)
  moreover have "unat addr + unat sz < 285 * 4096" using a(3) s by simp
  moreover have "256 * 4096 \<le> unat addr" using a(1) by simp
  ultimately show ?thesis using i by simp
qed

section \<open>get_ticks\<close>

text \<open>
  The macro \<open>do_div\<close> divides a 64-bit dividend by a 32-bit base with one C division of the high
  half and one \<open>divl\<close>, which divides \<open>high:low\<close> and faults (\<^term>\<open>None\<close>) when the quotient does not
  fit in 32 bits. The result is the quotient left in \<open>n\<close> and the remainder.
\<close>

definition divl :: "u32 \<Rightarrow> u32 \<Rightarrow> u32 \<Rightarrow> (u32 \<times> u32) option" where
  "divl hi lo base =
     (let d = unat hi * 2 ^ 32 + unat lo in
      if base = 0 \<or> 2 ^ 32 \<le> d div unat base then None
      else Some (of_nat (d div unat base), of_nat (d mod unat base)))"

definition do_div :: "u64 \<Rightarrow> u32 \<Rightarrow> (u64 \<times> u32) option" where
  "do_div n base =
     (let low = (ucast n :: u32); high = (ucast (drop_bit 32 n) :: u32);
          (upper, high') = (if high \<noteq> 0 then (high mod base, high div base) else (high, high))
      in do {
        (low', md) \<leftarrow> divl upper low base;
        Some (push_bit 32 (ucast high') + ucast low', md)
      })"

definition CYCLESPERTICK :: u32 where "CYCLESPERTICK = 109000"

text \<open>\<open>rdtsc\<close> delivers the two halves of the processor's 64-bit counter \<open>tsc\<close>.\<close>

definition get_ticks :: "u64 \<Rightarrow> u32 option" where
  "get_ticks tsc =
     (let eax = (ucast tsc :: u32); edx = (ucast (drop_bit 32 tsc) :: u32);
          ticks = push_bit 32 (ucast edx :: u64) + ucast eax
      in do { (ticks', _) \<leftarrow> do_div ticks CYCLESPERTICK; Some (ucast ticks') })"

lemma u64_halves:
  "unat (n :: u64) = unat (ucast (drop_bit 32 n) :: u32) * 2 ^ 32 + unat (ucast n :: u32)"
proof -
  have "unat n < 2 ^ 64" using unat_lt2p [of n] by simp
  then have "unat n div 2 ^ 32 < 2 ^ 32" by (simp add: div_less_iff_less_mult)
  moreover have "unat (drop_bit 32 n) = unat n div 2 ^ 32"
    by (subst unat_drop_bit_eq) (simp add: drop_bit_eq_div)
  ultimately have "unat (ucast (drop_bit 32 n) :: u32) = unat n div 2 ^ 32"
    by (simp only: unat_ucast) simp
  moreover have "unat (ucast n :: u32) = unat n mod 2 ^ 32"
    by (simp add: unat_ucast)
  ultimately show ?thesis by simp
qed

lemma push_add_u64:
  "unat (push_bit 32 (ucast (h :: u32)) + ucast (l :: u32) :: u64) = unat h * 2 ^ 32 + unat l"
proof -
  have h: "unat h < 2 ^ 32" and l: "unat l < 2 ^ 32" using unat_lt2p [of h] unat_lt2p [of l] by simp_all
  have "unat (push_bit 32 (ucast h) :: u64) = unat h * 2 ^ 32"
    using h by (simp add: push_bit_eq_mult unat_word_ariths unat_ucast take_bit_eq_mod)
  moreover have "unat (ucast l :: u64) = unat l" using l by (simp add: unat_ucast take_bit_eq_mod)
  ultimately show ?thesis using h l by (simp add: unat_word_ariths)
qed

lemma halves_join: "push_bit 32 (ucast (ucast (drop_bit 32 n) :: u32)) + ucast (ucast n :: u32) = (n :: u64)"
  using push_add_u64 [of "ucast (drop_bit 32 n)" "ucast n"] u64_halves [of n]
  by (metis word_unat_eq_iff)

lemma do_div_correct:
  assumes b: "base \<noteq> 0"
  shows "\<exists>q r. do_div n base = Some (q, r) \<and> unat q = unat n div unat base \<and>
    unat r = unat n mod unat base"
proof -
  let ?l = "ucast n :: u32" and ?h = "ucast (drop_bit 32 n) :: u32" and ?b = "unat base"
  define d where "d = unat (?h mod base) * 2 ^ 32 + unat ?l"
  have b0: "0 < ?b" using b by (simp add: unat_gt_0)
  have bl: "?b < 2 ^ 32" and ll: "unat ?l < 2 ^ 32" using unat_lt2p [of base] unat_lt2p [of ?l] by simp_all
  have hm: "unat (?h mod base) = unat ?h mod ?b" and hd: "unat (?h div base) = unat ?h div ?b"
    by (simp_all add: unat_mod unat_div)
  have n: "unat n = unat ?h * 2 ^ 32 + unat ?l" by (rule u64_halves)
  have "unat ?h * 2 ^ 32 = (unat ?h div ?b * ?b + unat ?h mod ?b) * 2 ^ 32"
    by (simp only: div_mult_mod_eq)
  then have "unat ?h * 2 ^ 32 = (unat ?h div ?b * 2 ^ 32) * ?b + (unat ?h mod ?b) * 2 ^ 32"
    by (simp only: add_mult_distrib mult.assoc mult.commute [of ?b])
  then have nd: "unat n = d + (unat ?h div ?b * 2 ^ 32) * ?b" using n hm by (simp add: d_def)
  have "d < ?b * 2 ^ 32"
  proof -
    have "unat ?h mod ?b + 1 \<le> ?b" using b0 by (simp add: Suc_leI)
    then have "(unat ?h mod ?b + 1) * 2 ^ 32 \<le> ?b * 2 ^ 32" by (rule mult_le_mono1)
    then show ?thesis using ll hm by (simp add: d_def)
  qed
  then have dq: "d div ?b < 2 ^ 32" using b0 by (simp add: div_less_iff_less_mult mult.commute)
  have up: "(if ?h \<noteq> 0 then (?h mod base, ?h div base) else (?h, ?h)) = (?h mod base, ?h div base)"
    by (auto simp: word_unat_eq_iff unat_mod unat_div)
  have dv: "divl (?h mod base) ?l base = Some (of_nat (d div ?b), of_nat (d mod ?b))"
    using dq b by (simp add: divl_def d_def Let_def)
  let ?q = "push_bit 32 (ucast (?h div base)) + ucast (of_nat (d div ?b) :: u32) :: u64"
  have "do_div n base = Some (?q, of_nat (d mod ?b))"
    unfolding do_div_def Let_def up by (simp add: dv)
  moreover have "unat ?q = unat n div ?b"
    using push_add_u64 [of "?h div base" "of_nat (d div ?b)"] dq nd b0 hd
    by (simp add: unat_of_nat)
  moreover have "unat (of_nat (d mod ?b) :: u32) = unat n mod ?b"
    using nd bl mod_less_divisor [OF b0, of d] by (simp add: unat_of_nat)
  ultimately show ?thesis by blast
qed

lemma get_ticks_correct:
  "\<exists>t. get_ticks tsc = Some t \<and> unat t = unat tsc div 109000 mod 2 ^ 32"
proof -
  obtain q r where "do_div tsc CYCLESPERTICK = Some (q, r)" "unat q = unat tsc div 109000"
    using do_div_correct [of CYCLESPERTICK tsc] by (auto simp: CYCLESPERTICK_def)
  then show ?thesis
    unfolding get_ticks_def Let_def halves_join by (simp add: unat_ucast take_bit_eq_mod)
qed

section \<open>Properties\<close>

text \<open>
  copy_to_user between blocks that are mapped and do not overlap makes every destination
  byte equal to the source byte, changes no other byte, and returns 0, for every size.
\<close>

theorem copy_to_user_copies:
  assumes "copy_ok tr p q (nat sz)"
  shows "\<exists>m'. copy_to_user tr m p q sz = Some (0, m') \<and>
    (\<forall>i<nat sz. load8 tr m' (q + of_nat i) = load8 tr m (p + of_nat i)) \<and>
    (\<forall>x. (\<forall>i<nat sz. x \<noteq> pa tr q i) \<longrightarrow> m' x = m x)"
proof -
  obtain m' where m': "copy_to_user tr m p q sz = Some (0, m')" "copied tr m m' p q (nat sz)"
    using copy_to_user_copied [OF assms] by blast
  then show ?thesis using assms
    by (intro exI [of _ m']) (auto simp: copied_def copy_ok_def load8_Some)
qed

lemma copy_ok_identity:
  assumes "unat p + n \<le> unat q" "unat q + n \<le> 2 ^ 32"
  shows "copy_ok Some p q n"
proof -
  have u: "unat (p + of_nat i) = unat p + i" "unat (q + of_nat i) = unat q + i" if "i < n" for i
    using that assms by (auto simp: unat_word_ariths unat_of_nat_u32)
  have "p + of_nat i \<noteq> q + of_nat j" if "i < n" "j < n" for i j
    using u(1) [OF that(1)] u(2) [OF that(2)] that assms(1) by (auto dest: arg_cong [of _ _ unat])
  moreover have "q + of_nat i \<noteq> q + of_nat j" if "i < n" "j < n" "i \<noteq> j" for i j
    using u(2) [OF that(1)] u(2) [OF that(2)] that(3) by (auto dest: arg_cong [of _ _ unat])
  ultimately show ?thesis by (simp add: copy_ok_def pa_def)
qed

theorem copy_to_user_copies_witness:
  "\<exists>m'. copy_to_user Some (\<lambda>a. ucast a) 0x10 0x40 11 = Some (0, m') \<and> m' 0x4A = 0x1A"
proof -
  have "copy_ok Some 0x10 0x40 (nat 11)" by (intro copy_ok_identity) simp_all
  from copy_to_user_copies [OF this, of "\<lambda>a. ucast a"]
  obtain m' where c: "copy_to_user Some (\<lambda>a. ucast a) 0x10 0x40 11 = Some (0, m')"
    "\<forall>i<nat 11. load8 Some m' (0x40 + of_nat i) = load8 Some (\<lambda>a. ucast a) (0x10 + of_nat i)" by blast
  have "m' 0x4A = 0x1A" using c(2) [rule_format, of 10] by (simp add: load8_def)
  then show ?thesis using c(1) by blast
qed

text \<open>
  C35. A block below 2 GB accepted by access_ok lies between the first user page and the end of
  page 284 (one page past the data pages).
\<close>

theorem access_ok_stays_in_user_pages:
  assumes "access_ok ty addr sz \<noteq> 0" "unat sz < 2147483648" "i \<le> unat sz"
  shows "256 * 4096 \<le> unat (addr + of_nat i) \<and> unat (addr + of_nat i) < 285 * 4096"
  using access_ok_bytes [OF assms] by blast

theorem access_ok_stays_in_user_pages_witness:
  "access_ok VERIFY_READ 0x100000 0x1C000 \<noteq> 0 \<and> unat (0x100000 + of_nat 0x1BFFF :: u32) < 285 * 4096"
  using access_ok_stays_in_user_pages [of VERIFY_READ "0x100000" "0x1C000" "0x1BFFF"]
  by (simp add: access_ok_def)

text \<open>
  access_ok gives the same answer for reading and for writing, so a block of code pages is
  accepted for writing.
\<close>

theorem access_ok_ignores_type:
  "access_ok VERIFY_WRITE addr sz = access_ok VERIFY_READ addr sz \<and> access_ok VERIFY_WRITE 0x100000 4 = 1"
  using access_ok_type [of VERIFY_WRITE addr sz VERIFY_READ] by (simp add: access_ok_def)

text \<open>
  get_ticks never faults and returns the low 32 bits of the time-stamp counter divided by
  CYCLESPERTICK.
\<close>

text \<open>
  C34. get_ticks, which divides the two halves of the time-stamp counter with 32-bit divisions,
  computes the low 32 bits of the 64-bit quotient by CYCLESPERTICK and never overflows a
  division.
\<close>

theorem get_ticks_divides:
  "\<exists>t. get_ticks clk = Some t \<and> unat t = unat clk div 109000 mod 2 ^ 32"
  by (rule get_ticks_correct)

end
