(* ===== verification/Console.thy ===== *)
theory Console
  imports Prelude
begin

text \<open>
  The text screen of \<open>io.c\<close> and the console device of \<open>devices.c\<close>. The state is the cursor
  (\<open>Byte x, y\<close>), the bytes sent to the debug port 0xe9, and the screen memory at 0xb8000, one
  16-bit cell per character. The lemmas say that printing never leaves the 80x25 screen, that the
  cursor walks it in row-major order, and that the console is a byte sink: what is written to it
  comes out of the port in order.
\<close>

section \<open>io.c\<close>

definition NUM_COLUMNS :: int where [simp]: "NUM_COLUMNS = 80"
definition NUM_ROWS :: int where [simp]: "NUM_ROWS = 25"

record console =
  cur_x :: Byte
  cur_y :: Byte
  port_e9 :: "u8 list"
  vram :: "u32 \<Rightarrow> u16"

definition console_init :: console where
  "console_init = \<lparr>cur_x = 0, cur_y = 19, port_e9 = [], vram = (\<lambda>_. 0)\<rparr>"

definition next_row :: "Byte \<Rightarrow> Byte" where
  "next_row y = word_of_int ((uint y + 1) mod NUM_ROWS)"

definition cell_addr :: "Byte \<Rightarrow> Byte \<Rightarrow> u32" where
  "cell_addr x y = word_of_int (0xb8000 + (uint y * NUM_COLUMNS + uint x) * 2)"

definition printc :: "console \<Rightarrow> u8 \<Rightarrow> console" where
  "printc s c =
     (let s1 = s\<lparr>port_e9 := port_e9 s @ [c]\<rparr> in
      if c = 10 then s1\<lparr>cur_x := 0, cur_y := next_row (cur_y s1)\<rparr>
      else
        (let ch = (ucast (c AND 0xFF) OR 0x0200 :: u16);
             screen = cell_addr (cur_x s1) (cur_y s1);
             s2 = s1\<lparr>cur_x := cur_x s1 + 1\<rparr>;
             s3 = (if uint (cur_x s2) \<ge> NUM_COLUMNS
                   then s2\<lparr>cur_x := 0, cur_y := next_row (cur_y s2)\<rparr> else s2)
         in s3\<lparr>vram := (vram s3)(screen := ch)\<rparr>))"

definition printc_xy :: "console \<Rightarrow> Byte \<Rightarrow> Byte \<Rightarrow> u8 \<Rightarrow> console" where
  "printc_xy s mx my c =
     (let cx = cur_x s; cy = cur_y s;
          s1 = s\<lparr>cur_x := mx, cur_y := my\<rparr>;
          s2 = printc s1 c
      in s2\<lparr>cur_x := cx, cur_y := cy\<rparr>)"

text \<open>\<open>printk\<close> walks the characters of its argument up to the NUL; running off the array is
  \<^term>\<open>None\<close>.\<close>

fun printk :: "console \<Rightarrow> u8 list \<Rightarrow> console option" where
  "printk s [] = None"
| "printk s (c # cs) = (if c = 0 then Some s else printk (printc s c) cs)"

section \<open>sys_write_console (devices.c)\<close>

text \<open>\<open>rd i\<close> reads \<open>buffer[i]\<close>.\<close>

function write_console_from :: "console \<Rightarrow> (int \<Rightarrow> u8 option) \<Rightarrow> int \<Rightarrow> int \<Rightarrow> console option" where
  "write_console_from s rd i sz =
     (if i < sz then do { c \<leftarrow> rd i; write_console_from (printc s c) rd (i + 1) sz } else Some s)"
  by pat_completeness auto
termination by (relation "measure (\<lambda>(s, rd, i, sz). nat (sz - i))") auto

declare write_console_from.simps [simp del]

definition sys_write_console :: "console \<Rightarrow> (int \<Rightarrow> u8 option) \<Rightarrow> int \<Rightarrow> (int \<times> console) option" where
  "sys_write_console s rd sz = do { s' \<leftarrow> write_console_from s rd 0 sz; Some (sz, s') }"

section \<open>The screen\<close>

definition screen_ok :: "console \<Rightarrow> bool" where
  "screen_ok s \<longleftrightarrow> uint (cur_x s) < 80 \<and> uint (cur_y s) < 25"

text \<open>The cursor as a position in the 2000 cells, in row-major order.\<close>

definition screen_pos :: "console \<Rightarrow> int" where
  "screen_pos s = uint (cur_y s) * 80 + uint (cur_x s)"

definition cell :: "console \<Rightarrow> int \<Rightarrow> u16" where
  "cell s k = vram s (word_of_int (0xb8000 + k * 2))"

lemma next_row_uint: "uint y < 25 \<Longrightarrow> uint (next_row y) = (uint y + 1) mod 25"
  by (simp add: next_row_def uint_word_of_int mod_pos_pos_trivial)

lemma uint_add1: "uint (x :: Byte) < 80 \<Longrightarrow> uint (x + 1) = uint x + 1"
  by (simp add: uint_word_ariths)

lemma printc_cursor:
  "screen_ok s \<Longrightarrow> screen_ok (printc s c) \<and>
    (c \<noteq> 10 \<longrightarrow> screen_pos (printc s c) = (screen_pos s + 1) mod 2000) \<and>
    (c = 10 \<longrightarrow> screen_pos (printc s c) = ((uint (cur_y s) + 1) mod 25) * 80)"
proof -
  assume ok: "screen_ok s"
  have x: "0 \<le> uint (cur_x s)" "uint (cur_x s) < 80" and y: "0 \<le> uint (cur_y s)" "uint (cur_y s) < 25"
    using ok by (auto simp: screen_ok_def)
  have row: "(uint (cur_y s) + 1) mod 25 = (if uint (cur_y s) = 24 then 0 else uint (cur_y s) + 1)"
    using y by auto
  have pos: "(screen_pos s + 1) mod 2000 =
      (if uint (cur_x s) = 79 \<and> uint (cur_y s) = 24 then 0 else screen_pos s + 1)"
    using x y by (auto simp: screen_pos_def)
  show ?thesis
    using x y row pos
    by (auto simp: printc_def Let_def screen_ok_def screen_pos_def next_row_uint uint_add1)
qed

lemma printc_port: "port_e9 (printc s c) = port_e9 s @ [c]"
  by (simp add: printc_def Let_def)

lemma printc_vram:
  "vram (printc s c) = (if c = 10 then vram s
     else (vram s)(word_of_int (0xb8000 + screen_pos s * 2) := ucast c OR 0x0200))"
proof -
  have "(0xFF :: u8) = - 1" by simp
  then have "c AND 0xFF = c" by (simp only: word_and_max)
  then show ?thesis by (simp add: printc_def Let_def cell_addr_def screen_pos_def)
qed


lemma cell_uint:
  "0 \<le> k \<Longrightarrow> k < 2000 \<Longrightarrow> uint (word_of_int (0xb8000 + k * 2) :: u32) = 0xb8000 + k * 2"
  by (subst uint_word_of_int) (simp add: mod_pos_pos_trivial)

lemma cell_printc:
  assumes "screen_ok s" "c \<noteq> 10" "0 \<le> k" "k < 2000"
  shows "cell (printc s c) k = (if k = screen_pos s then ucast c OR 0x0200 else cell s k)"
proof -
  have p: "0 \<le> screen_pos s" "screen_pos s < 2000"
    using assms(1) uint_ge_0 [of "cur_x s"] uint_ge_0 [of "cur_y s"]
    by (auto simp: screen_ok_def screen_pos_def simp del: uint_ge_0)
  have "(word_of_int (0xb8000 + k * 2) :: u32) = word_of_int (0xb8000 + j * 2) \<longleftrightarrow> k = j"
    if "0 \<le> j" "j < 2000" for j
    using cell_uint [OF assms(3,4)] cell_uint [OF that] by (metis add_left_cancel mult_right_cancel zero_neq_numeral)
  then show ?thesis using p assms(2) by (simp only: cell_def printc_vram fun_upd_apply) simp
qed

lemma printc_outside:
  assumes "screen_ok s" "unat a < 0xb8000 \<or> 0xb8000 + 4000 \<le> unat a"
  shows "vram (printc s c) a = vram s a"
proof -
  have p: "0 \<le> screen_pos s" "screen_pos s < 2000"
    using assms(1) uint_ge_0 [of "cur_x s"] uint_ge_0 [of "cur_y s"]
    by (auto simp: screen_ok_def screen_pos_def simp del: uint_ge_0)
  have "a \<noteq> word_of_int (0xb8000 + screen_pos s * 2)"
  proof
    assume "a = word_of_int (0xb8000 + screen_pos s * 2)"
    then have "uint a = 0xb8000 + screen_pos s * 2" using cell_uint [OF p] by simp
    then show False using assms(2) p by (simp only: unat_eq_nat_uint) linarith
  qed
  then show ?thesis by (simp only: printc_vram fun_upd_apply) simp
qed

text \<open>Printing a line of characters fills consecutive cells, wrapping at the end of the screen.\<close>

lemma foldl_printc_row_major:
  "screen_ok s \<Longrightarrow> 10 \<notin> set cs \<Longrightarrow> length cs \<le> 2000 \<Longrightarrow>
    screen_ok (foldl printc s cs) \<and>
    screen_pos (foldl printc s cs) = (screen_pos s + int (length cs)) mod 2000 \<and>
    (\<forall>i<length cs. cell (foldl printc s cs) ((screen_pos s + int i) mod 2000) =
       ucast (cs ! i) OR 0x0200)"
proof (induction cs rule: rev_induct)
  case Nil
  have "0 \<le> screen_pos s" "screen_pos s < 2000"
    using Nil uint_ge_0 [of "cur_x s"] uint_ge_0 [of "cur_y s"]
    by (auto simp: screen_ok_def screen_pos_def simp del: uint_ge_0)
  then show ?case using Nil by simp
next
  case (snoc c cs)
  let ?t = "foldl printc s cs"
  have IH: "screen_ok ?t" "screen_pos ?t = (screen_pos s + int (length cs)) mod 2000"
    "\<And>i. i < length cs \<Longrightarrow> cell ?t ((screen_pos s + int i) mod 2000) = ucast (cs ! i) OR 0x0200"
    using snoc by auto
  have c: "c \<noteq> 10" using snoc by auto
  have "cell (printc ?t c) ((screen_pos s + int i) mod 2000) = ucast ((cs @ [c]) ! i) OR 0x0200"
    if i: "i < length (cs @ [c])" for i
  proof (cases "i = length cs")
    case True
    then show ?thesis using cell_printc [OF IH(1) c, of "screen_pos ?t"] IH(2) by simp
  next
    case False
    then have l: "i < length cs" using i by simp
    have "(screen_pos s + int i) mod 2000 \<noteq> (screen_pos s + int (length cs)) mod 2000"
    proof
      assume "(screen_pos s + int i) mod 2000 = (screen_pos s + int (length cs)) mod 2000"
      then have "2000 dvd (int (length cs) - int i)"
        by (metis mod_eq_dvd_iff add_diff_cancel_left)
      then show False using l snoc(4) by (auto dest: zdvd_imp_le)
    qed
    then show ?thesis
      using cell_printc [OF IH(1) c, of "(screen_pos s + int i) mod 2000"] IH l by (simp add: nth_append)
  qed
  then show ?case
    using printc_cursor [OF IH(1), of c] IH c
      mod_add_left_eq [of "screen_pos s + int (length cs)" 2000 1] by (simp add: algebra_simps)
qed

section \<open>The console as a byte sink\<close>

text \<open>
  The contract \<open>write\<close> relies on: every byte handed to the device is appended to its output,
  and the device keeps its own invariant.
\<close>

locale byte_sink =
  fixes put :: "'s \<Rightarrow> 'b \<Rightarrow> 's" and out :: "'s \<Rightarrow> 'b list" and inv :: "'s \<Rightarrow> bool"
  assumes put_out: "out (put s b) = out s @ [b]"
    and put_inv: "inv s \<Longrightarrow> inv (put s b)"
begin

lemma foldl_out: "out (foldl put s bs) = out s @ bs"
  by (induction bs arbitrary: s) (auto simp: put_out)

lemma foldl_inv: "inv s \<Longrightarrow> inv (foldl put s bs)"
  by (induction bs arbitrary: s) (auto simp: put_inv)

end

interpretation con: byte_sink printc port_e9 screen_ok
  by unfold_locales (auto simp: printc_port printc_cursor)

lemma write_console_from_foldl:
  "(\<And>j. i \<le> j \<Longrightarrow> j < sz \<Longrightarrow> rd j = Some (f j)) \<Longrightarrow>
    write_console_from s rd i sz = Some (foldl printc s (map f [i..sz - 1]))"
proof (induction s rd i sz rule: write_console_from.induct)
  case (1 s rd i sz)
  show ?case
  proof (cases "i < sz")
    case True
    then have "rd i = Some (f i)" using 1(2) by simp
    moreover have "[i..sz - 1] = i # [i + 1..sz - 1]" using True by (simp add: upto_rec1)
    ultimately show ?thesis using 1 True by (subst write_console_from.simps) simp
  next
    case False
    then show ?thesis by (subst write_console_from.simps) simp
  qed
qed

lemma sys_write_console_foldl:
  "(\<And>j. 0 \<le> j \<Longrightarrow> j < sz \<Longrightarrow> rd j = Some (f j)) \<Longrightarrow>
    sys_write_console s rd sz = Some (sz, foldl printc s (map f [0..sz - 1]))"
  using write_console_from_foldl [of 0 sz rd f s] by (simp add: sys_write_console_def)

lemma printk_foldl:
  "0 \<notin> set cs \<Longrightarrow> printk s (cs @ 0 # rest) = Some (foldl printc s cs)"
  by (induction cs arbitrary: s) auto

section \<open>Properties\<close>

text \<open>
  Printing a string without newlines fills consecutive cells of the 80x25 screen in row-
  major order from the cursor on, wrapping at the end, and sends the characters to the debug
  port.
\<close>

theorem printk_prints_row_major:
  assumes "screen_ok s" "0 \<notin> set cs" "10 \<notin> set cs" "length cs \<le> 2000"
  shows "\<exists>s'. printk s (cs @ [0]) = Some s' \<and> screen_ok s' \<and> port_e9 s' = port_e9 s @ cs \<and>
    screen_pos s' = (screen_pos s + int (length cs)) mod 2000 \<and>
    (\<forall>i<length cs. cell s' ((screen_pos s + int i) mod 2000) = ucast (cs ! i) OR 0x0200)"
  using foldl_printc_row_major [OF assms(1,3,4)] printk_foldl [OF assms(2), of s "[]"] con.foldl_out [of s cs]
  by auto

theorem printk_prints_row_major_witness:
  "\<exists>s'. printk console_init [0x48, 0x69, 0] = Some s' \<and> cell s' 1521 = 0x0269"
proof -
  have "screen_ok console_init" by (simp add: screen_ok_def console_init_def)
  from printk_prints_row_major [OF this, of "[0x48, 0x69]"]
  obtain s' where s': "printk console_init ([0x48, 0x69] @ [0]) = Some s'"
    "\<forall>i<length [0x48, 0x69 :: u8]. cell s' ((screen_pos console_init + int i) mod 2000) = ucast ([0x48, 0x69] ! i :: u8) OR 0x0200"
    by auto
  have "cell s' 1521 = 0x0269" using s'(2) [rule_format, of 1] by (simp add: screen_pos_def console_init_def)
  then show ?thesis using s'(1) by auto
qed

end
