(* ===== verification/Paging.thy ===== *)
theory Paging
  imports MemCopy
begin

text \<open>
  The paging half of \<open>mm.c\<close>: the byte map of physical frames and its allocator, the page table
  entries with their bit fields (\<open>include/types.h\<close>), the page tables, their initialisation, and
  the translation the processor makes of them. The tables \<open>pagusr_table[NR_TASKS][TOTAL_PAGES]\<close>
  and \<open>dir_pages[NR_TASKS][TOTAL_PAGES]\<close> are flat arrays of entries, as in C: \<open>PT[i]\<close> past the
  end of one table is an entry of the next one.
\<close>

section \<open>Physical frames\<close>

type_synonym frames = "nat \<Rightarrow> Byte"

definition FREE_FRAME :: Byte where [simp]: "FREE_FRAME = 0"
definition USED_FRAME :: Byte where [simp]: "USED_FRAME = 1"

definition init_frames :: "frames \<Rightarrow> frames" where
  "init_frames pm =
     (let pm1 = foldl (\<lambda>pm i. pm(i := FREE_FRAME)) pm [0..<TOTAL_PAGES]
      in foldl (\<lambda>pm i. pm(i := USED_FRAME)) pm1 [0..<NUM_PAG_KERNEL])"

text \<open>The search visits every second frame ("There will be holes! This is intended").\<close>

function alloc_frame_from :: "nat \<Rightarrow> frames \<Rightarrow> int \<times> frames" where
  "alloc_frame_from i pm =
     (if i < TOTAL_PAGES then
        (if pm i = FREE_FRAME then (int i, pm(i := USED_FRAME)) else alloc_frame_from (i + 2) pm)
      else (- 1, pm))"
  by pat_completeness auto
termination by (relation "measure (\<lambda>(i, pm). TOTAL_PAGES - i)") auto

declare alloc_frame_from.simps [simp del]

definition alloc_frame :: "frames \<Rightarrow> int \<times> frames" where
  "alloc_frame pm = alloc_frame_from NUM_PAG_KERNEL pm"

definition free_frame :: "frames \<Rightarrow> u32 \<Rightarrow> frames" where
  "free_frame pm frame =
     (if unat frame > NUM_PAG_KERNEL \<and> unat frame < TOTAL_PAGES
      then pm(unat frame := FREE_FRAME) else pm)"

text \<open>The frames the allocator can hand out, and those that are free among them.\<close>

definition frame_pool :: "nat set" where
  "frame_pool = {f. 256 \<le> f \<and> f < 1024 \<and> even f}"

definition free_frames :: "frames \<Rightarrow> nat set" where
  "free_frames pm = {f \<in> frame_pool. pm f = FREE_FRAME}"

lemma foldl_upd: "foldl (\<lambda>pm i. pm(i := v)) pm xs x = (if x \<in> set xs then v else pm x)"
  by (induction xs arbitrary: pm) auto

lemma init_frames_apply:
  "init_frames pm f = (if f < 256 then USED_FRAME else if f < 1024 then FREE_FRAME else pm f)"
  by (simp add: init_frames_def foldl_upd Let_def del: upt_Suc)

definition every_second :: "nat \<Rightarrow> nat set" where
  "every_second i = {g. i \<le> g \<and> even (g - i)}"

lemma every_second_step: "every_second i = insert i (every_second (i + 2))"
  unfolding every_second_def by (auto; presburger)

lemma alloc_frame_from_hit:
  "i < 1024 \<Longrightarrow> pm i = FREE_FRAME \<Longrightarrow> alloc_frame_from i pm = (int i, pm(i := USED_FRAME))"
  by (subst alloc_frame_from.simps) simp

lemma alloc_frame_from_skip:
  "i < 1024 \<Longrightarrow> pm i \<noteq> FREE_FRAME \<Longrightarrow> alloc_frame_from i pm = alloc_frame_from (i + 2) pm"
  by (subst alloc_frame_from.simps) simp

lemma alloc_frame_from_end: "\<not> i < 1024 \<Longrightarrow> alloc_frame_from i pm = (- 1, pm)"
  by (subst alloc_frame_from.simps) simp

lemma alloc_frame_from_Some:
  "alloc_frame_from i pm = (f, pm') \<Longrightarrow> f \<ge> 0 \<Longrightarrow>
    nat f \<in> every_second i \<and> nat f < 1024 \<and> pm (nat f) = FREE_FRAME \<and>
    pm' = pm(nat f := USED_FRAME) \<and> (\<forall>g\<in>every_second i. g < nat f \<longrightarrow> pm g \<noteq> FREE_FRAME)"
proof (induction i pm arbitrary: f pm' rule: alloc_frame_from.induct)
  case (1 i pm)
  consider "i < 1024" "pm i = FREE_FRAME" | "i < 1024" "pm i \<noteq> FREE_FRAME" | "\<not> i < 1024" by blast
  then show ?case
  proof cases
    case 1
    then show ?thesis using "1.prems" by (auto simp: alloc_frame_from_hit every_second_def)
  next
    case 2
    then have "alloc_frame_from (i + 2) pm = (f, pm')"
      using "1.prems" by (simp add: alloc_frame_from_skip)
    then show ?thesis
      using "1.IH" [of f pm'] 2 "1.prems" every_second_step [of i] by auto
  next
    case 3
    then show ?thesis using "1.prems" by (simp add: alloc_frame_from_end)
  qed
qed

lemma alloc_frame_from_None:
  "alloc_frame_from i pm = (f, pm') \<Longrightarrow> f < 0 \<Longrightarrow>
    f = - 1 \<and> pm' = pm \<and> (\<forall>g\<in>every_second i. g < 1024 \<longrightarrow> pm g \<noteq> FREE_FRAME)"
proof (induction i pm arbitrary: f pm' rule: alloc_frame_from.induct)
  case (1 i pm)
  consider "i < 1024" "pm i = FREE_FRAME" | "i < 1024" "pm i \<noteq> FREE_FRAME" | "\<not> i < 1024" by blast
  then show ?case
  proof cases
    case 1
    then show ?thesis using "1.prems" by (auto simp: alloc_frame_from_hit)
  next
    case 2
    then have "alloc_frame_from (i + 2) pm = (f, pm')"
      using "1.prems" by (simp add: alloc_frame_from_skip)
    then show ?thesis
      using "1.IH" [of f pm'] 2 "1.prems" every_second_step [of i] by auto
  next
    case 3
    then show ?thesis using "1.prems" by (auto simp: alloc_frame_from_end every_second_def)
  qed
qed

lemma pool_every_second: "f \<in> frame_pool \<longleftrightarrow> f \<in> every_second 256 \<and> f < 1024"
  by (auto simp: frame_pool_def every_second_def)

lemma alloc_frame_Some:
  "alloc_frame pm = (f, pm') \<Longrightarrow> f \<ge> 0 \<Longrightarrow>
    nat f \<in> free_frames pm \<and> pm' = pm(nat f := USED_FRAME) \<and> (\<forall>g\<in>free_frames pm. nat f \<le> g)"
  using alloc_frame_from_Some [of 256 pm f pm']
  by (auto simp: alloc_frame_def free_frames_def pool_every_second not_le)

lemma alloc_frame_None: "alloc_frame pm = (f, pm') \<Longrightarrow> f < 0 \<Longrightarrow> f = - 1 \<and> pm' = pm \<and> free_frames pm = {}"
  using alloc_frame_from_None [of 256 pm f pm']
  by (auto simp: alloc_frame_def free_frames_def pool_every_second)

text \<open>\<open>free_frame\<close> tests \<open>frame > NUM_PAG_KERNEL\<close>, so the first frame of the pool is never freed.\<close>

lemma free_frame_apply:
  "free_frame pm f g = (if unat f = g \<and> 256 < g \<and> g < 1024 then FREE_FRAME else pm g)"
  by (simp add: free_frame_def)

lemma free_frames_free:
  "unat f \<in> frame_pool \<Longrightarrow> unat f \<noteq> 256 \<Longrightarrow> free_frames (free_frame pm f) = insert (unat f) (free_frames pm)"
  by (auto simp: free_frames_def free_frame_apply frame_pool_def)

section \<open>The allocator interface\<close>

text \<open>
  What \<open>fork\<close>, \<open>sbrk\<close> and the loader rely on: an allocation returns a free frame and takes it
  from the free set, or reports that the set is empty and changes nothing; releasing a
  releasable frame puts it back.
\<close>

locale frame_allocator =
  fixes alloc :: "'m \<Rightarrow> int \<times> 'm" and release :: "'m \<Rightarrow> nat \<Rightarrow> 'm"
    and avail :: "'m \<Rightarrow> nat set" and releasable :: "nat \<Rightarrow> bool"
  assumes alloc_ok: "alloc m = (f, m') \<Longrightarrow> f \<ge> 0 \<Longrightarrow>
      nat f \<in> avail m \<and> avail m' = avail m - {nat f}"
    and alloc_fail: "alloc m = (f, m') \<Longrightarrow> f < 0 \<Longrightarrow> avail m = {} \<and> m' = m"
    and release_avail: "releasable g \<Longrightarrow> avail (release m g) = insert g (avail m)"
begin

text \<open>Taking \<open>k\<close> frames, as the loops of the clients do; \<open>None\<close> when one is refused.\<close>

fun take_frames :: "nat \<Rightarrow> 'm \<Rightarrow> nat list option \<times> 'm" where
  "take_frames 0 m = (Some [], m)"
| "take_frames (Suc k) m =
     (case alloc m of (f, m1) \<Rightarrow>
        if f < 0 then (None, m1)
        else (case take_frames k m1 of
                (None, m2) \<Rightarrow> (None, release m2 (nat f))
              | (Some fs, m2) \<Rightarrow> (Some (nat f # fs), m2)))"

lemma take_frames_Some:
  "take_frames k m = (Some fs, m') \<Longrightarrow>
    length fs = k \<and> distinct fs \<and> set fs \<subseteq> avail m \<and> avail m' = avail m - set fs"
proof (induction k arbitrary: m fs m')
  case (Suc k)
  obtain f m1 where a: "alloc m = (f, m1)" by fastforce
  with Suc(2) have f: "f \<ge> 0" by (auto split: if_splits)
  with a Suc(2) obtain gs where g: "take_frames k m1 = (Some gs, m')" "fs = nat f # gs"
    by (auto split: if_splits prod.splits option.splits)
  show ?case using Suc(1) [OF g(1)] alloc_ok [OF a f] g(2) by auto
qed simp

lemma take_frames_None:
  "take_frames k m = (None, m') \<Longrightarrow> (\<And>f. f \<in> avail m \<Longrightarrow> releasable f) \<Longrightarrow> avail m' = avail m"
proof (induction k arbitrary: m m')
  case (Suc k)
  obtain f m1 where a: "alloc m = (f, m1)" by fastforce
  show ?case
  proof (cases "f < 0")
    case True
    then show ?thesis using Suc(2) a alloc_fail [OF a] by simp
  next
    case False
    then obtain m2 where m2: "take_frames k m1 = (None, m2)" "m' = release m2 (nat f)"
      using Suc(2) a by (auto split: prod.splits option.splits)
    have f: "nat f \<in> avail m" "avail m1 = avail m - {nat f}" using alloc_ok [OF a] False by auto
    have "avail m2 = avail m1" using Suc(1) [OF m2(1)] Suc(3) f(2) by blast
    then show ?thesis using m2(2) release_avail Suc(3) [OF f(1)] f by auto
  qed
qed simp

lemma take_frames_enough:
  "finite (avail m) \<Longrightarrow> k \<le> card (avail m) \<Longrightarrow> \<exists>fs m'. take_frames k m = (Some fs, m')"
proof (induction k arbitrary: m)
  case (Suc k)
  obtain f m1 where a: "alloc m = (f, m1)" by fastforce
  have f: "f \<ge> 0" using alloc_fail [OF a] Suc(3) by fastforce
  then have "nat f \<in> avail m" "avail m1 = avail m - {nat f}" using alloc_ok [OF a] by auto
  then have "finite (avail m1)" "k \<le> card (avail m1)" using Suc(2,3) by auto
  then show ?case using Suc(1) [of m1] a f by force
qed simp

end

interpretation fa: frame_allocator alloc_frame "\<lambda>pm f. free_frame pm (of_nat f)" free_frames
  "\<lambda>f. f \<in> frame_pool \<and> f \<noteq> 256"
proof unfold_locales
  fix m m' :: frames and f :: int
  assume a: "alloc_frame m = (f, m')"
  show "nat f \<in> free_frames m \<and> free_frames m' = free_frames m - {nat f}" if "f \<ge> 0"
    using alloc_frame_Some [OF a that] by (auto simp: free_frames_def)
  show "free_frames m = {} \<and> m' = m" if "f < 0"
    using alloc_frame_None [OF a that] by simp
next
  fix f and m :: frames
  assume f: "f \<in> frame_pool \<and> f \<noteq> 256"
  then have "unat (of_nat f :: u32) = f" by (simp add: frame_pool_def unat_of_nat)
  then show "free_frames (free_frame m (of_nat f)) = insert f (free_frames m)"
    using free_frames_free [of "of_nat f" m] f by simp
qed

lemma card_frame_pool: "card frame_pool = 384"
proof -
  have "frame_pool = (\<lambda>k. 256 + 2 * k) ` {..<384}"
  proof
    show "frame_pool \<subseteq> (\<lambda>k. 256 + 2 * k) ` {..<384}"
    proof
      fix f assume "f \<in> frame_pool"
      then have "f = 256 + 2 * ((f - 256) div 2)" "(f - 256) div 2 < 384"
        by (auto simp: frame_pool_def)
      then show "f \<in> (\<lambda>k. 256 + 2 * k) ` {..<384}" by blast
    qed
  qed (auto simp: frame_pool_def)
  then have "card frame_pool = card ((\<lambda>k :: nat. 256 + 2 * k) ` {..<384})" by (rule arg_cong)
  also have "\<dots> = card {..<384 :: nat}" by (rule card_image) (simp add: inj_on_def)
  finally show ?thesis by simp
qed

lemma finite_free_frames: "finite (free_frames pm)"
  by (simp add: free_frames_def frame_pool_def)

lemma free_frames_init: "free_frames (init_frames pm) = frame_pool"
  by (auto simp: free_frames_def init_frames_apply frame_pool_def)

section \<open>Page table entries\<close>

text \<open>The union \<open>page_table_entry\<close>: a double word and its bit fields.\<close>

type_synonym pte = u32

definition pte_present :: "pte \<Rightarrow> bool" where "pte_present e = bit e 0"
definition pte_rw :: "pte \<Rightarrow> bool" where "pte_rw e = bit e 1"
definition pte_user :: "pte \<Rightarrow> bool" where "pte_user e = bit e 2"
definition pte_pbase :: "pte \<Rightarrow> u32" where "pte_pbase e = drop_bit 12 e"

definition set_present :: "pte \<Rightarrow> pte" where "set_present e = set_bit 0 e"
definition set_rw :: "pte \<Rightarrow> pte" where "set_rw e = set_bit 1 e"
definition set_user :: "pte \<Rightarrow> pte" where "set_user e = set_bit 2 e"

text \<open>Assigning to \<open>bits.pbase_addr\<close> keeps the low 20 bits of the value.\<close>

definition set_pbase :: "pte \<Rightarrow> u32 \<Rightarrow> pte" where
  "set_pbase e f = (e AND 0xFFF) OR push_bit 12 f"

lemmas pte_defs = pte_present_def pte_rw_def pte_user_def pte_pbase_def
  set_present_def set_rw_def set_user_def set_pbase_def

lemma pte_flags [simp]:
  "pte_present (set_present e)" "pte_present (set_rw e) = pte_present e"
  "pte_present (set_user e) = pte_present e" "pte_present (set_pbase e f) = pte_present e"
  "pte_rw (set_rw e)" "pte_rw (set_present e) = pte_rw e"
  "pte_rw (set_user e) = pte_rw e" "pte_rw (set_pbase e f) = pte_rw e"
  "pte_user (set_user e)" "pte_user (set_present e) = pte_user e"
  "pte_user (set_rw e) = pte_user e" "pte_user (set_pbase e f) = pte_user e"
  by (auto simp: pte_defs bit_simps)

lemma pte_pbase_flags [simp]:
  "pte_pbase (set_present e) = pte_pbase e" "pte_pbase (set_rw e) = pte_pbase e"
  "pte_pbase (set_user e) = pte_pbase e"
  by (auto simp: pte_defs intro!: bit_word_eqI simp: bit_simps)

lemma pte_zero [simp]: "\<not> pte_present 0" "\<not> pte_rw 0" "\<not> pte_user 0" "pte_pbase 0 = 0"
  by (auto simp: pte_defs)

lemma unat_set_pbase: "unat (pte_pbase (set_pbase e f)) = unat f mod 2 ^ 20"
proof -
  have "pte_pbase (set_pbase e f) = take_bit 20 f"
    by (rule bit_word_eqI) (auto simp: pte_defs bit_simps dest: bit_imp_le_length)
  then show ?thesis by (simp only: unsigned_take_bit_eq) (simp add: take_bit_eq_mod)
qed

section \<open>Page tables\<close>

text \<open>
  \<open>PT\<close> is the index in the flat array of a table's first entry; \<open>PT[i]\<close> is the entry
  \<open>PT + i\<close>.
\<close>

type_synonym tables = "nat \<Rightarrow> pte"

definition mapped_entry :: "u32 \<Rightarrow> pte" where
  "mapped_entry frame = set_present (set_rw (set_user (set_pbase 0 frame)))"

definition set_ss_pag :: "tables \<Rightarrow> nat \<Rightarrow> nat \<Rightarrow> u32 \<Rightarrow> tables" where
  "set_ss_pag pt PT page frame =
     (let pt1 = pt(PT + page := 0);
          pt2 = pt1(PT + page := set_pbase (pt1 (PT + page)) frame);
          pt3 = pt2(PT + page := set_user (pt2 (PT + page)));
          pt4 = pt3(PT + page := set_rw (pt3 (PT + page)))
      in pt4(PT + page := set_present (pt4 (PT + page))))"

definition del_ss_pag :: "tables \<Rightarrow> nat \<Rightarrow> nat \<Rightarrow> tables" where
  "del_ss_pag pt PT page = pt(PT + page := 0)"

definition get_frame :: "tables \<Rightarrow> nat \<Rightarrow> nat \<Rightarrow> u32" where
  "get_frame pt PT page = pte_pbase (pt (PT + page))"

text \<open>\<open>init_table_pages\<close>: clear all entries, then map the kernel pages 1 to 255 to themselves.\<close>

definition init_kernel_entry :: "nat \<Rightarrow> tables \<Rightarrow> nat \<Rightarrow> tables" where
  "init_kernel_entry j pt i =
     (let k = j * TOTAL_PAGES + i;
          pt1 = pt(k := set_pbase (pt k) (of_nat i));
          pt2 = pt1(k := set_rw (pt1 k))
      in pt2(k := set_present (pt2 k)))"

definition init_table_pages :: "tables \<Rightarrow> tables" where
  "init_table_pages pt =
     foldl (\<lambda>pt j.
       let pt1 = foldl (\<lambda>pt i. pt(j * TOTAL_PAGES + i := 0)) pt [0..<TOTAL_PAGES]
       in foldl (init_kernel_entry j) pt1 [1..<NUM_PAG_KERNEL]) pt [0..<NR_TASKS]"

text \<open>
  \<open>init_dir_pages\<close>: entry 0 of directory \<open>i\<close> points to table \<open>i\<close>. \<open>pt_addr\<close> is the address the
  linker gives \<open>pagusr_table\<close>.
\<close>

definition pagusr_table_addr :: "u32 \<Rightarrow> nat \<Rightarrow> u32" where
  "pagusr_table_addr pt_addr i = pt_addr + of_nat (i * TOTAL_PAGES * 4)"

definition init_dir_entry :: "u32 \<Rightarrow> tables \<Rightarrow> nat \<Rightarrow> tables" where
  "init_dir_entry pt_addr dir i =
     (let k = i * TOTAL_PAGES;
          d1 = dir(k := 0);
          d2 = d1(k := set_pbase (d1 k) (drop_bit 12 (pagusr_table_addr pt_addr i)));
          d3 = d2(k := set_user (d2 k));
          d4 = d3(k := set_rw (d3 k))
      in d4(k := set_present (d4 k)))"

definition init_dir_pages :: "u32 \<Rightarrow> tables \<Rightarrow> tables" where
  "init_dir_pages pt_addr dir = foldl (init_dir_entry pt_addr) dir [0..<NR_TASKS]"

text \<open>
  \<open>set_user_pages\<close>: the code pages are mapped read-only, the data pages read-write; a failed
  allocation is not noticed (-1 goes into the entry).
\<close>

definition map_code_page :: "nat \<Rightarrow> tables \<times> frames \<Rightarrow> nat \<Rightarrow> tables \<times> frames" where
  "map_code_page PT = (\<lambda>(pt, pm) pag.
     let (new_ph_pag, pm') = alloc_frame pm; k = PT + (PAG_LOG_INIT_CODE + pag);
         pt1 = pt(k := 0);
         pt2 = pt1(k := set_pbase (pt1 k) (word_of_int new_ph_pag));
         pt3 = pt2(k := set_user (pt2 k))
     in (pt3(k := set_present (pt3 k)), pm'))"

definition map_data_page :: "nat \<Rightarrow> tables \<times> frames \<Rightarrow> nat \<Rightarrow> tables \<times> frames" where
  "map_data_page PT = (\<lambda>(pt, pm) pag.
     let (new_ph_pag, pm') = alloc_frame pm; k = PT + (PAG_LOG_INIT_DATA + pag);
         pt1 = pt(k := 0);
         pt2 = pt1(k := set_pbase (pt1 k) (word_of_int new_ph_pag));
         pt3 = pt2(k := set_user (pt2 k));
         pt4 = pt3(k := set_rw (pt3 k))
     in (pt4(k := set_present (pt4 k)), pm'))"

definition set_user_pages :: "nat \<Rightarrow> tables \<Rightarrow> frames \<Rightarrow> tables \<times> frames" where
  "set_user_pages PT pt pm =
     (let (pt1, pm1) = foldl (map_code_page PT) (pt, pm) [0..<NUM_PAG_CODE]
      in foldl (map_data_page PT) (pt1, pm1) [0..<NUM_PAG_DATA])"

definition free_user_pages :: "nat \<Rightarrow> tables \<Rightarrow> frames \<Rightarrow> tables \<times> frames" where
  "free_user_pages PT pt pm =
     foldl (\<lambda>(pt, pm) pag.
        (pt(PT + (PAG_LOG_INIT_DATA + pag) := 0),
         free_frame pm (pte_pbase (pt (PT + (PAG_LOG_INIT_DATA + pag))))))
       (pt, pm) [0..<NUM_PAG_DATA]"

text \<open>
  The translation of the processor (Intel manual): the directory entry of the address gives the
  table, the table entry the frame; an entry that is not present is a page fault. Only tables
  inside \<open>pagusr_table\<close> are known to the model.
\<close>

definition pt_index :: "u32 \<Rightarrow> u32 \<Rightarrow> nat" where
  "pt_index pt_addr a = unat (a - pt_addr) div 4"

definition mmu_walk :: "u32 \<Rightarrow> tables \<Rightarrow> tables \<Rightarrow> nat \<Rightarrow> mmu" where
  "mmu_walk pt_addr dir pt d va =
     (let pde = dir (d * TOTAL_PAGES + unat (drop_bit 22 va));
          i = pt_index pt_addr (push_bit 12 (pte_pbase pde)) + unat (drop_bit 12 va) mod 1024;
          e = pt i
      in if \<not> pte_present pde \<or> \<not> i < NR_TASKS * TOTAL_PAGES \<or> \<not> pte_present e then None
         else Some (push_bit 12 (pte_pbase e) OR (va AND 0xFFF)))"

section \<open>Page table lemmas\<close>

lemma set_ss_pag_eq: "set_ss_pag pt PT page frame = pt(PT + page := mapped_entry frame)"
  by (simp add: set_ss_pag_def mapped_entry_def Let_def)

lemma mapped_entry_bits [simp]:
  "pte_present (mapped_entry f)" "pte_rw (mapped_entry f)" "pte_user (mapped_entry f)"
  "unat (pte_pbase (mapped_entry f)) = unat f mod 2 ^ 20"
  by (simp_all add: mapped_entry_def unat_set_pbase)

lemma get_frame_set_ss_pag:
  "unat f < 2 ^ 20 \<Longrightarrow>
    get_frame (set_ss_pag pt PT page f) PT p = (if p = page then f else get_frame pt PT p)"
  by (auto simp: get_frame_def set_ss_pag_eq word_unat_eq_iff)

lemma foldl_init_kernel:
  "distinct xs \<Longrightarrow> \<forall>i\<in>set xs. pt (j * TOTAL_PAGES + i) = 0 \<Longrightarrow>
    foldl (init_kernel_entry j) pt xs k =
     (if \<exists>i\<in>set xs. k = j * TOTAL_PAGES + i
      then set_present (set_rw (set_pbase 0 (of_nat (k - j * TOTAL_PAGES)))) else pt k)"
proof (induction xs arbitrary: pt)
  case (Cons x xs)
  have "\<forall>i\<in>set xs. init_kernel_entry j pt x (j * TOTAL_PAGES + i) = 0"
    using Cons(2,3) by (auto simp: init_kernel_entry_def Let_def)
  then show ?case using Cons by (auto simp: init_kernel_entry_def Let_def)
qed simp

lemma foldl_blocks:
  assumes "\<And>pt j k. F pt j k = (if blk k = j then g k else pt k)"
  shows "foldl F pt js k = (if blk k \<in> set js then g k else pt k)"
proof (induction js arbitrary: pt)
  case (Cons j js)
  then show ?case by (simp add: assms)
qed simp

definition kernel_entry :: "nat \<Rightarrow> pte" where
  "kernel_entry i =
     (if 1 \<le> i \<and> i < 256 then set_present (set_rw (set_pbase 0 (of_nat i))) else 0)"

lemma foldl_clear:
  "foldl (\<lambda>pt i. pt(c + i := 0)) pt xs k = (if \<exists>i\<in>set xs. k = c + i then 0 else (pt k :: pte))"
  by (induction xs arbitrary: pt) auto

lemma block_iff: "(\<exists>i\<in>{0..<1024}. k = j * 1024 + i) \<longleftrightarrow> k div 1024 = (j :: nat)"
proof
  assume "k div 1024 = j"
  then have "k = j * 1024 + k mod 1024" "k mod 1024 < 1024" by auto
  then show "\<exists>i\<in>{0..<1024}. k = j * 1024 + i" by (metis atLeastLessThan_iff le0)
qed auto

lemma init_table_step:
  "foldl (init_kernel_entry j)
     (foldl (\<lambda>pt i. pt(j * TOTAL_PAGES + i := 0)) pt [0..<TOTAL_PAGES]) [1..<NUM_PAG_KERNEL] k =
   (if k div 1024 = j then kernel_entry (k mod 1024) else pt k)"
proof -
  let ?pt1 = "foldl (\<lambda>pt i. pt(j * TOTAL_PAGES + i := 0)) pt [0..<TOTAL_PAGES]"
  have pt1: "?pt1 k = (if k div 1024 = j then 0 else pt k)" for k
    using block_iff [of k j] by (simp add: foldl_clear del: upt_Suc)
  have "(\<exists>i\<in>{1..<256}. k = j * 1024 + i) \<longleftrightarrow> k div 1024 = j \<and> 1 \<le> k mod 1024 \<and> k mod 1024 < 256"
    (is "?L = ?R")
  proof
    assume ?R
    then have "k = j * 1024 + k mod 1024" by auto
    then show ?L using \<open>?R\<close> by (metis atLeastLessThan_iff)
  qed auto
  moreover have "k - j * 1024 = k mod 1024" if "k div 1024 = j"
    using that by (auto simp: minus_div_mult_eq_mod)
  ultimately show ?thesis
    using foldl_init_kernel [of "[1..<NUM_PAG_KERNEL]" ?pt1 j k] pt1
    by (auto simp: kernel_entry_def simp del: upt_Suc)
qed

lemma init_table_pages_apply:
  "init_table_pages pt k = (if k div 1024 < 15 then kernel_entry (k mod 1024) else pt k)"
  using foldl_blocks [of "\<lambda>pt j. foldl (init_kernel_entry j)
      (foldl (\<lambda>pt i. pt(j * TOTAL_PAGES + i := 0)) pt [0..<TOTAL_PAGES]) [1..<NUM_PAG_KERNEL]"
      "\<lambda>k. k div 1024" "\<lambda>k. kernel_entry (k mod 1024)" pt "[0..<15]" k, OF init_table_step]
  by (simp add: init_table_pages_def del: upt_Suc)

definition dir_entry :: "u32 \<Rightarrow> nat \<Rightarrow> pte" where
  "dir_entry pt_addr i =
     set_present (set_rw (set_user (set_pbase 0 (drop_bit 12 (pagusr_table_addr pt_addr i)))))"

lemma init_dir_pages_apply:
  "init_dir_pages pt_addr dir k =
     (if k mod 1024 = 0 \<and> k div 1024 < 15 then dir_entry pt_addr (k div 1024) else dir k)"
proof -
  have "init_dir_entry pt_addr dir i = dir(i * 1024 := dir_entry pt_addr i)" for dir i
    by (simp add: init_dir_entry_def dir_entry_def Let_def)
  then have "foldl (init_dir_entry pt_addr) dir xs k =
      (if k mod 1024 = 0 \<and> k div 1024 \<in> set xs then dir_entry pt_addr (k div 1024) else dir k)" for xs
    by (induction xs arbitrary: dir) auto
  then show ?thesis by (simp add: init_dir_pages_def del: upt_Suc)
qed

text \<open>The linker puts \<open>pagusr_table\<close> on a page boundary and all of it below 4 GB.\<close>

definition table_addr_ok :: "u32 \<Rightarrow> bool" where
  "table_addr_ok pt_addr \<longleftrightarrow> unat pt_addr mod 4096 = 0 \<and> unat pt_addr + 15 * 4096 < 2 ^ 32"

lemma unat_table_addr:
  "table_addr_ok a \<Longrightarrow> i < 15 \<Longrightarrow> unat (pagusr_table_addr a i) = unat a + i * 4096"
  by (simp add: table_addr_ok_def pagusr_table_addr_def unat_word_ariths unat_of_nat)

lemma push_drop_12: "unat (a :: u32) mod 4096 = 0 \<Longrightarrow> push_bit 12 (drop_bit 12 a) = a"
proof -
  assume a: "unat a mod 4096 = 0"
  have "take_bit 12 a = 0"
    using a by (simp only: word_unat_eq_iff unsigned_take_bit_eq) (simp add: take_bit_eq_mod)
  then show ?thesis by (metis bits_ident add.right_neutral)
qed

lemma dir_entry_table:
  assumes "table_addr_ok a" "i < 15"
  shows "push_bit 12 (pte_pbase (dir_entry a i)) = pagusr_table_addr a i"
    "pt_index a (push_bit 12 (pte_pbase (dir_entry a i))) = i * 1024" "pte_present (dir_entry a i)"
proof -
  have u: "unat (pagusr_table_addr a i) = unat a + i * 4096" by (rule unat_table_addr [OF assms])
  have "unat (pte_pbase (dir_entry a i)) = unat (drop_bit 12 (pagusr_table_addr a i)) mod 2 ^ 20"
    by (simp add: dir_entry_def unat_set_pbase)
  also have "\<dots> = unat (drop_bit 12 (pagusr_table_addr a i))"
  proof -
    have "unat (pagusr_table_addr a i) < 2 ^ 32" using unat_lt2p [of "pagusr_table_addr a i"] by simp
    then have "unat (pagusr_table_addr a i) div 4096 < 2 ^ 20" by (simp add: div_less_iff_less_mult)
    then show ?thesis by (simp only: unat_drop_bit_12 mod_less)
  qed
  finally have "pte_pbase (dir_entry a i) = drop_bit 12 (pagusr_table_addr a i)"
    by (simp only: word_unat_eq_iff)
  then show 1: "push_bit 12 (pte_pbase (dir_entry a i)) = pagusr_table_addr a i"
    using assms u by (simp only:) (rule push_drop_12, simp add: table_addr_ok_def)
  have "pagusr_table_addr a i - a = of_nat (i * 4096)" by (simp add: pagusr_table_addr_def)
  then have "unat (pagusr_table_addr a i - a) = i * 4096"
    using assms(2) by (simp only: unat_of_nat) (simp add: take_bit_eq_mod)
  then show "pt_index a (push_bit 12 (pte_pbase (dir_entry a i))) = i * 1024"
    unfolding 1 by (simp add: pt_index_def)
  show "pte_present (dir_entry a i)" by (simp add: dir_entry_def)
qed


text \<open>Translation through a directory entry that points to table \<open>d\<close>.\<close>

lemma mmu_walk_low:
  assumes a: "table_addr_ok a" and d: "d < 15" and va: "unat va < 1024 * 4096"
    and dir: "dir (d * 1024) = dir_entry a d"
  shows "mmu_walk a dir pt d va =
    (let e = pt (d * 1024 + unat va div 4096) in
     if pte_present e then Some (push_bit 12 (pte_pbase e) OR (va AND 0xFFF)) else None)"
proof -
  have "unat (drop_bit 22 va) = unat va div 2 ^ 22"
    by (subst unat_drop_bit_eq) (simp add: drop_bit_eq_div)
  then have top: "unat (drop_bit 22 va) = 0" using va by simp
  have pg: "unat (drop_bit 12 va) mod 1024 = unat va div 4096"
    unfolding unat_drop_bit_12 using va by (intro mod_less) simp
  have "unat va div 4096 < 1024" using va by simp
  then have "d * 1024 + unat va div 4096 < 15 * 1024" using d by linarith
  then show ?thesis
    using dir_entry_table [OF a d] dir unfolding mmu_walk_def Let_def top pg by simp
qed

lemma mmu_walk_high:
  assumes "dir (d * 1024 + unat va div 2 ^ 22) = 0"
  shows "mmu_walk a dir pt d va = None"
proof -
  have "unat (drop_bit 22 va) = unat va div 2 ^ 22"
    by (subst unat_drop_bit_eq) (simp add: drop_bit_eq_div)
  then show ?thesis using assms by (simp add: mmu_walk_def Let_def)
qed

lemma join_page: "push_bit 12 (drop_bit 12 va) OR (va AND 0xFFF) = (va :: u32)"
proof -
  have "va AND 0xFFF = take_bit 12 va" unfolding take_bit_eq_mask by (simp add: mask_eq_exp_minus_1)
  then show ?thesis
    by (simp only:) (rule bit_word_eqI, auto simp: bit_simps)
qed

lemma kernel_entry_frame: "i < 256 \<Longrightarrow> 1 \<le> i \<Longrightarrow> pte_pbase (kernel_entry i) = of_nat i"
  by (simp add: kernel_entry_def word_unat_eq_iff unat_set_pbase unat_of_nat)

text \<open>
  The address space every process starts from: the kernel pages 1 to 255 map to themselves, page
  0 is left out (so NULL traps), and no user page is mapped.
\<close>

lemma init_address_space:
  assumes a: "table_addr_ok a" and d: "d < 15" and va: "unat va < 1024 * 4096"
  shows "mmu_walk a (init_dir_pages a dir) (init_table_pages pt) d va =
    (if 4096 \<le> unat va \<and> unat va < 256 * 4096 then Some va else None)"
proof -
  let ?i = "unat va div 4096"
  have i: "?i < 1024" using va by simp
  have dirv: "init_dir_pages a dir (d * 1024) = dir_entry a d"
    using d by (simp add: init_dir_pages_apply)
  have e: "init_table_pages pt (d * 1024 + ?i) = kernel_entry ?i"
    using d i by (simp add: init_table_pages_apply)
  have range: "4096 \<le> unat va \<and> unat va < 256 * 4096 \<longleftrightarrow> 1 \<le> ?i \<and> ?i < 256" by auto
  have "of_nat ?i = (drop_bit 12 va :: u32)"
    using i by (simp only: word_unat_eq_iff unat_drop_bit_12) (simp add: unat_of_nat)
  then show ?thesis
    unfolding mmu_walk_low [OF a d va, of "init_dir_pages a dir", OF dirv] e Let_def range
    using kernel_entry_frame [of ?i] join_page [of va] by (auto simp: kernel_entry_def)
qed

section \<open>Frames as blocks of memory\<close>

definition faddr :: "nat \<Rightarrow> nat \<Rightarrow> u32" where
  "faddr f k = of_nat (f * 4096 + k)"

lemma unat_page_addr: "p < 1024 \<Longrightarrow> k < 4096 \<Longrightarrow> unat (of_nat (p * 4096 + k) :: u32) = p * 4096 + k"
  by (rule unat_of_nat_u32) simp

lemma unat_faddr: "f < 1024 \<Longrightarrow> k < 4096 \<Longrightarrow> unat (faddr f k) = f * 4096 + k"
  unfolding faddr_def by (rule unat_page_addr)

lemma faddr_inj:
  assumes "f < 1024" "g < 1024" "k < 4096" "l < 4096" "faddr f k = faddr g l"
  shows "f = g \<and> k = l"
proof -
  have "f * 4096 + k = g * 4096 + l"
    using assms(5) unat_faddr [OF assms(1,3)] unat_faddr [OF assms(2,4)] by simp
  then have "(f * 4096 + k) div 4096 = (g * 4096 + l) div 4096"
    "(f * 4096 + k) mod 4096 = (g * 4096 + l) mod 4096" by simp_all
  then show ?thesis using assms(3,4) by simp
qed

lemma faddr_join:
  assumes "f < 1024" "p < 1024" "k < 4096"
  shows "push_bit 12 (of_nat f) OR (of_nat (p * 4096 + k) AND 0xFFF) = faddr f k"
proof -
  have "of_nat (p * 4096 + k) AND (0xFFF :: u32) = take_bit 12 (of_nat (p * 4096 + k))"
    unfolding take_bit_eq_mask by (simp add: mask_eq_exp_minus_1)
  also have "\<dots> = of_nat k"
    unfolding word_unat_eq_iff unsigned_take_bit_eq unat_page_addr [OF assms(2,3)]
    using assms(3) by (simp add: unat_of_nat take_bit_eq_mod)
  finally have m: "of_nat (p * 4096 + k) AND (0xFFF :: u32) = of_nat k" .
  have "of_nat k = (take_bit 12 (of_nat k) :: u32)"
    by (simp only: word_unat_eq_iff unsigned_take_bit_eq) (use assms in \<open>simp add: unat_of_nat take_bit_eq_mod\<close>)
  moreover have "push_bit 12 (of_nat f) AND take_bit 12 (of_nat k) = (0 :: u32)"
    by (rule bit_word_eqI) (auto simp: bit_simps)
  ultimately have "push_bit 12 (of_nat f) OR (of_nat k :: u32) = push_bit 12 (of_nat f) + of_nat k"
    using disjunctive_add_eq_or [of "push_bit 12 (of_nat f)" "of_nat k :: u32"] by simp
  then show ?thesis unfolding m by (simp add: faddr_def push_bit_eq_mult)
qed


text \<open>A present entry translates byte \<open>k\<close> of page \<open>p\<close> to byte \<open>k\<close> of its frame.\<close>

lemma mmu_walk_page:
  assumes a: "table_addr_ok a" and d: "d < 15" and dir: "dir (d * 1024) = dir_entry a d"
    and p: "p < 1024" and k: "k < 4096"
    and e: "pte_present (pt (d * 1024 + p))" "unat (pte_pbase (pt (d * 1024 + p))) = f" "f < 1024"
  shows "mmu_walk a dir pt d (of_nat (p * 4096 + k)) = Some (faddr f k)"
proof -
  have va: "unat (of_nat (p * 4096 + k) :: u32) = p * 4096 + k" by (rule unat_page_addr [OF p k])
  then have "unat (of_nat (p * 4096 + k) :: u32) div 4096 = p" using k by simp
  moreover have "unat (of_nat (p * 4096 + k) :: u32) < 1024 * 4096"
    unfolding va using p k by linarith
  moreover have "pte_pbase (pt (d * 1024 + p)) = of_nat f" unfolding e(2) [symmetric] by simp
  ultimately show ?thesis
    using mmu_walk_low [of a d "of_nat (p * 4096 + k)" dir pt] a d dir e(1) faddr_join [OF e(3) p k]
    by (simp add: Let_def)
qed

lemma pte_pbase_mapped: "f < 2 ^ 20 \<Longrightarrow> pte_pbase (mapped_entry (of_nat f)) = of_nat f"
  by (simp add: word_unat_eq_iff unat_of_nat)

text \<open>\<open>free_user_pages\<close> clears the data entries and frees their frames.\<close>

lemma free_user_pages_fold:
  "foldl (\<lambda>(t, pm) p. (t(PT + (264 + p) := 0), free_frame pm (pte_pbase (t (PT + (264 + p)))))) (pt, pm) [0..<n] =
    (\<lambda>k. if PT + 264 \<le> k \<and> k < PT + (264 + n) then 0 else pt k,
     \<lambda>g. if (\<exists>i<n. unat (pte_pbase (pt (PT + (264 + i)))) = g) \<and> 256 < g \<and> g < 1024
        then FREE_FRAME else pm g)"
proof (induction n)
  case (Suc n)
  let ?g = "\<lambda>(t, pm) p. (t(PT + (264 + p) := 0), free_frame pm (pte_pbase (t (PT + (264 + p)))))"
  have 1: "foldl ?g (pt, pm) [0..<Suc n] = ?g (foldl ?g (pt, pm) [0..<n]) n" by simp
  show ?case unfolding 1 Suc.IH by (auto simp: fun_eq_iff free_frame_apply less_Suc_eq)
qed (auto simp: fun_eq_iff)

lemma free_user_pages_apply:
  "free_user_pages PT pt pm =
    (\<lambda>k. if PT + 264 \<le> k \<and> k < PT + 284 then 0 else pt k,
     \<lambda>g. if (\<exists>i<20. unat (pte_pbase (pt (PT + (264 + i)))) = g) \<and> 256 < g \<and> g < 1024
        then FREE_FRAME else pm g)"
  using free_user_pages_fold [of PT pt pm 20]
  by (simp add: free_user_pages_def)

section \<open>Mapping fresh frames\<close>

text \<open>The common form of the loops of \<open>set_user_pages\<close>: \<open>e\<close> makes the entry from the frame.\<close>

definition map_fresh :: "(u32 \<Rightarrow> pte) \<Rightarrow> nat \<Rightarrow> tables \<times> frames \<Rightarrow> nat \<Rightarrow> tables \<times> frames" where
  "map_fresh e base = (\<lambda>(pt, pm) i. let (f, pm') = alloc_frame pm in (pt(base + i := e (word_of_int f)), pm'))"

lemma map_fresh_fold:
  "n \<le> card (free_frames pm) \<Longrightarrow>
    \<exists>pt' pm' fl. foldl (map_fresh e base) (pt, pm) [0..<n] = (pt', pm') \<and> length fl = n \<and> distinct fl \<and>
      set fl \<subseteq> free_frames pm \<and> free_frames pm' = free_frames pm - set fl \<and>
      (\<forall>i<n. pt' (base + i) = e (of_nat (fl ! i))) \<and> (\<forall>k. k < base \<or> base + n \<le> k \<longrightarrow> pt' k = pt k)"
proof (induction n)
  case 0
  then show ?case by (intro exI [of _ pt] exI [of _ pm] exI [of _ "[]"]) simp
next
  case (Suc n)
  then obtain pt1 pm1 fl where IH: "foldl (map_fresh e base) (pt, pm) [0..<n] = (pt1, pm1)"
    "length fl = n" "distinct fl" "set fl \<subseteq> free_frames pm" "free_frames pm1 = free_frames pm - set fl"
    "\<forall>i<n. pt1 (base + i) = e (of_nat (fl ! i))" "\<forall>k. k < base \<or> base + n \<le> k \<longrightarrow> pt1 k = pt k"
    by auto
  have "card (set fl) = n" using IH(2,3) by (simp add: distinct_card)
  then have "free_frames pm1 \<noteq> {}"
    using Suc.prems IH(4,5) finite_free_frames [of pm] by (metis card_Diff_subset card_eq_0_iff diff_is_0_eq
        finite_Diff finite_set not_less_eq_eq order_refl rev_finite_subset)
  obtain f pm2 where al: "alloc_frame pm1 = (f, pm2)" by fastforce
  then have f: "f \<ge> 0" using \<open>free_frames pm1 \<noteq> {}\<close> fa.alloc_fail [OF al] by fastforce
  note ok = fa.alloc_ok [OF al f]
  have w: "word_of_int f = (of_nat (nat f) :: u32)" using f by simp
  have s1: "foldl (map_fresh e base) (pt, pm) [0..<Suc n] = (pt1(base + n := e (of_nat (nat f))), pm2)"
    using IH(1) al w by (simp add: map_fresh_def)
  have fl: "length (fl @ [nat f]) = Suc n" "distinct (fl @ [nat f])" "set (fl @ [nat f]) \<subseteq> free_frames pm"
    "free_frames pm2 = free_frames pm - set (fl @ [nat f])"
    using IH(2-5) ok by auto
  have e1: "(pt1(base + n := e (of_nat (nat f)))) (base + i) = e (of_nat ((fl @ [nat f]) ! i))" if "i < Suc n" for i
  proof (cases "i = n")
    case True
    have "(fl @ [nat f]) ! n = nat f" using IH(2) by (metis nth_append_length)
    then show ?thesis using True by (simp only: fun_upd_same)
  next
    case False
    then show ?thesis using IH(2,6) that by (simp add: nth_append)
  qed
  have "(pt1(base + n := e (of_nat (nat f)))) k = pt k" if "k < base \<or> base + Suc n \<le> k" for k
    using IH(7) that by auto
  then show ?case using s1 fl e1
    by (intro exI [of _ "pt1(base + n := e (of_nat (nat f)))"] exI [of _ pm2] exI [of _ "fl @ [nat f]"]) blast
qed

definition code_entry :: "u32 \<Rightarrow> pte" where
  "code_entry f = set_present (set_user (set_pbase 0 f))"

lemma set_user_pages_fresh:
  "set_user_pages PT pt pm =
    foldl (map_fresh mapped_entry (PT + 264)) (foldl (map_fresh code_entry (PT + 256)) (pt, pm) [0..<8]) [0..<20]"
proof -
  have "map_code_page PT = map_fresh code_entry (PT + 256)"
    by (auto simp: fun_eq_iff map_code_page_def map_fresh_def code_entry_def Let_def add.assoc split: prod.splits)
  moreover have "map_data_page PT = map_fresh mapped_entry (PT + 264)"
    by (auto simp: fun_eq_iff map_data_page_def map_fresh_def mapped_entry_def Let_def add.assoc split: prod.splits)
  ultimately show ?thesis by (simp add: set_user_pages_def case_prod_beta del: upt_rec_numeral foldl.simps)
qed

text \<open>
  With 28 free frames the code and data pages get different frames, taken out of the pool; the
  code pages are read-only.
\<close>

lemma set_user_pages_maps:
  assumes "28 \<le> card (free_frames pm)"
  shows "\<exists>pt' pm' cl dl. set_user_pages PT pt pm = (pt', pm') \<and> length cl = 8 \<and> length dl = 20 \<and>
    distinct (cl @ dl) \<and> set (cl @ dl) \<subseteq> free_frames pm \<and>
    free_frames pm' = free_frames pm - set (cl @ dl) \<and>
    (\<forall>i<8. pt' (PT + (256 + i)) = code_entry (of_nat (cl ! i))) \<and>
    (\<forall>i<20. pt' (PT + (264 + i)) = mapped_entry (of_nat (dl ! i))) \<and>
    (\<forall>k. k < PT + 256 \<or> PT + 284 \<le> k \<longrightarrow> pt' k = pt k)"
proof -
  obtain pt1 pm1 cl where c: "foldl (map_fresh code_entry (PT + 256)) (pt, pm) [0..<8] = (pt1, pm1)"
    "length cl = 8" "distinct cl" "set cl \<subseteq> free_frames pm" "free_frames pm1 = free_frames pm - set cl"
    "\<forall>i<8. pt1 (PT + 256 + i) = code_entry (of_nat (cl ! i))"
    "\<forall>k. k < PT + 256 \<or> PT + 256 + 8 \<le> k \<longrightarrow> pt1 k = pt k"
    using map_fresh_fold [of 8 pm code_entry "PT + 256" pt] assms by auto
  have "card (free_frames pm1) = card (free_frames pm) - 8"
    using c(2-5) by (simp add: card_Diff_subset distinct_card)
  then have c20: "20 \<le> card (free_frames pm1)" using assms by linarith
  obtain pt2 pm2 dl where d: "foldl (map_fresh mapped_entry (PT + 264)) (pt1, pm1) [0..<20] = (pt2, pm2)"
    "length dl = 20" "distinct dl" "set dl \<subseteq> free_frames pm1" "free_frames pm2 = free_frames pm1 - set dl"
    "\<forall>i<20. pt2 (PT + 264 + i) = mapped_entry (of_nat (dl ! i))"
    "\<forall>k. k < PT + 264 \<or> PT + 264 + 20 \<le> k \<longrightarrow> pt2 k = pt1 k"
    using map_fresh_fold [OF c20, of mapped_entry "PT + 264" pt1] by blast
  have "set_user_pages PT pt pm = (pt2, pm2)" unfolding set_user_pages_fresh c(1) d(1) ..
  moreover have "distinct (cl @ dl)" "set (cl @ dl) \<subseteq> free_frames pm"
    "free_frames pm2 = free_frames pm - set (cl @ dl)"
    using c(3-5) d(3-5) by auto
  moreover have "\<forall>i<8. pt2 (PT + (256 + i)) = code_entry (of_nat (cl ! i))"
    using c(6) d(7) by (simp add: add.assoc)
  ultimately show ?thesis using c(2,7) d(2,6,7)
    by (intro exI [of _ pt2] exI [of _ pm2] exI [of _ cl] exI [of _ dl]) (simp add: add.assoc)
qed

section \<open>Properties\<close>

text \<open>
  alloc_frame returns the smallest free frame of its pool and marks it used, or -1 without
  a change when there is none.
\<close>

theorem alloc_frame_first_free:
  "alloc_frame pm = (if free_frames pm = {} then (- 1, pm)
     else (int (Min (free_frames pm)), pm(Min (free_frames pm) := USED_FRAME)))"
proof (cases "alloc_frame pm")
  case (Pair f pm')
  show ?thesis
  proof (cases "f < 0")
    case True
    then show ?thesis using alloc_frame_None [OF Pair] Pair by simp
  next
    case False
    then have a: "nat f \<in> free_frames pm" "pm' = pm(nat f := USED_FRAME)" "\<forall>g\<in>free_frames pm. nat f \<le> g"
      using alloc_frame_Some [OF Pair] by auto
    then have "Min (free_frames pm) = nat f" using finite_free_frames by (intro Min_eqI) auto
    then show ?thesis using a False Pair by auto
  qed
qed

text \<open>
  free_frame makes a used frame of the pool available again and no other, except frame 256,
  which is never freed.
\<close>

theorem free_frame_returns_frame:
  assumes "unat f \<in> frame_pool" "pm (unat f) \<noteq> FREE_FRAME"
  shows "free_frames (free_frame pm f) = (if unat f = 256 then free_frames pm else insert (unat f) (free_frames pm))"
  using free_frames_free [OF assms(1)] by (auto simp: free_frames_def free_frame_apply)

theorem free_frame_returns_frame_witness:
  "free_frames (free_frame (\<lambda>_. USED_FRAME) 256) = {} \<and> free_frames (free_frame (\<lambda>_. USED_FRAME) 258) = {258}"
  using free_frame_returns_frame [of 256 "\<lambda>_. USED_FRAME"] free_frame_returns_frame [of 258 "\<lambda>_. USED_FRAME"]
  by (simp add: frame_pool_def free_frames_def)

text \<open>
  The address space every process starts from maps the kernel pages 1 to 255 to themselves
  and nothing else, so that page 0 faults.
\<close>

theorem kernel_pages_identity:
  assumes "table_addr_ok a" "d < 15" "unat va < 1024 * 4096"
  shows "mmu_walk a (init_dir_pages a dir) (init_table_pages pt) d va =
    (if 4096 \<le> unat va \<and> unat va < 256 * 4096 then Some va else None)"
  by (rule init_address_space [OF assms])

theorem kernel_pages_identity_witness:
  "mmu_walk 0x20000 (init_dir_pages 0x20000 (\<lambda>_. 0)) (init_table_pages (\<lambda>_. 0)) 3 0x1234 = Some 0x1234 \<and>
   mmu_walk 0x20000 (init_dir_pages 0x20000 (\<lambda>_. 0)) (init_table_pages (\<lambda>_. 0)) 3 0 = None"
  using kernel_pages_identity [of "0x20000" 3 "0x1234"] kernel_pages_identity [of "0x20000" 3 0]
  by (simp add: table_addr_ok_def)

text \<open>
  C40. After set_ss_pag the processor translates every byte of the page to the same byte of the
  frame and get_frame gives the frame back; after del_ss_pag the page faults.
\<close>

theorem page_mapping_roundtrip:
  assumes "table_addr_ok a" "d < 15" "dir (d * 1024) = dir_entry a d" "p < 1024" "k < 4096" "f < 1024"
  shows "mmu_walk a dir (set_ss_pag pt (d * 1024) p (of_nat f)) d (of_nat (p * 4096 + k)) = Some (of_nat (f * 4096 + k)) \<and>
    get_frame (set_ss_pag pt (d * 1024) p (of_nat f)) (d * 1024) p = of_nat f \<and>
    mmu_walk a dir (del_ss_pag (set_ss_pag pt (d * 1024) p (of_nat f)) (d * 1024) p) d (of_nat (p * 4096 + k)) = None"
proof -
  have va: "unat (of_nat (p * 4096 + k) :: u32) = p * 4096 + k" using assms by (intro unat_page_addr)
  have "mmu_walk a dir (set_ss_pag pt (d * 1024) p (of_nat f)) d (of_nat (p * 4096 + k)) = Some (faddr f k)"
    using assms by (intro mmu_walk_page) (simp_all add: set_ss_pag_eq unat_of_nat_u32)
  moreover have "(p * 4096 + k) div 4096 = p" "p * 4096 + k < 1024 * 4096" using assms(4,5) by simp_all
  then have "mmu_walk a dir (del_ss_pag (set_ss_pag pt (d * 1024) p (of_nat f)) (d * 1024) p) d (of_nat (p * 4096 + k)) = None"
    using va by (subst mmu_walk_low [OF assms(1,2)]) (simp_all add: del_ss_pag_def assms(3))
  ultimately show ?thesis using assms(6)
    by (simp add: get_frame_set_ss_pag unat_of_nat_u32 faddr_def)
qed

theorem page_mapping_roundtrip_witness:
  "mmu_walk 0x20000 (init_dir_pages 0x20000 (\<lambda>_. 0)) (set_ss_pag (\<lambda>_. 0) (2 * 1024) 300 (of_nat 258)) 2
     (of_nat (300 * 4096 + 7)) = Some (of_nat (258 * 4096 + 7))"
  using page_mapping_roundtrip [of "0x20000" 2 "init_dir_pages 0x20000 (\<lambda>_. 0)" 300 7 258 "\<lambda>_. 0"]
  by (simp add: table_addr_ok_def init_dir_pages_apply)

text \<open>
  With 28 free frames set_user_pages gives the 8 code and 20 data pages different frames
  taken from the free ones, the code pages read-only, and writes no other entry.
\<close>

theorem set_user_pages_gives_frames:
  assumes "28 \<le> card (free_frames pm)"
  shows "\<exists>pt' pm' cl dl. set_user_pages PT pt pm = (pt', pm') \<and> length cl = 8 \<and> length dl = 20 \<and>
    distinct (cl @ dl) \<and> set (cl @ dl) \<subseteq> free_frames pm \<and>
    free_frames pm' = free_frames pm - set (cl @ dl) \<and>
    (\<forall>i<8. pt' (PT + (256 + i)) = code_entry (of_nat (cl ! i))) \<and>
    (\<forall>i<20. pt' (PT + (264 + i)) = mapped_entry (of_nat (dl ! i))) \<and>
    (\<forall>k. k < PT + 256 \<or> PT + 284 \<le> k \<longrightarrow> pt' k = pt k)"
  by (rule set_user_pages_maps [OF assms])

theorem set_user_pages_gives_frames_witness:
  "\<exists>pt' pm' dl. set_user_pages 1024 (\<lambda>_. 0) (init_frames (\<lambda>_. 0)) = (pt', pm') \<and> length dl = 20 \<and> distinct dl \<and>
    (\<forall>i<20. pt' (1024 + (264 + i)) = mapped_entry (of_nat (dl ! i)))"
proof -
  have "28 \<le> card (free_frames (init_frames (\<lambda>_. 0)))" by (simp add: free_frames_init card_frame_pool)
  from set_user_pages_gives_frames [OF this, of 1024 "\<lambda>_. 0"] show ?thesis by auto
qed

end
