(* ===== verification/KState.thy ===== *)
theory KState
  imports ListHead CirBuffer Console Paging
begin

text \<open>
  The kernel state shared by the scheduler, the system calls and the drivers: the task vector of
  \<open>include/sched.h\<close>, the semaphores of \<open>include/semaphores.h\<close>, the statistics of
  \<open>include/stats.h\<close>, the list heads, the paging structures and the device state, with the
  accessors of \<open>sched.c\<close> on them.

  Pointers are symbolic. \<open>ptr\<close> is the address of a \<open>struct list_head\<close>: the field \<open>list\<close> of task
  \<open>i\<close>, one of the global heads, or the \<open>blockedQueue\<close> of semaphore \<open>i\<close>. A pointer to a task is
  its index in \<open>task[NR_TASKS]\<close>, a pointer to a page directory its index in \<open>dir_pages\<close>. Where
  a suspended task's \<open>kernel_esp\<close> points is either a frame built by hand in its kernel stack, at
  a word index (\<open>StackIx\<close>), or the frame \<open>inner_task_switch\<close> left when it gave up the processor;
  what that frame returns to is a \<open>kcont\<close>.
\<close>

section \<open>Data\<close>

datatype ptr = TaskL nat | FreeQ | ReadyQ | KeyQ | SemQ nat

datatype state_t = ST_RUN | ST_READY | ST_BLOCKED

record stats =
  user_ticks :: u32
  system_ticks :: u32
  blocked_ticks :: u32
  ready_ticks :: u32
  elapsed_total_ticks :: u32
  total_trans :: u32
  remaining_ticks :: u32

text \<open>
  The callers of \<open>sched_next_rr\<close>: \<open>schedule\<close>, \<open>sys_sem_wait\<close>, \<open>sys_exit\<close>, and the two calls of
  \<open>sys_read_keyboard\<close>, which go on with the user address the next key goes to.
\<close>

datatype kcont = K_schedule | K_sem_wait | K_exit | K_read u32

datatype kesp = StackIx nat | SwitchFrame kcont

datatype code_label = Ret_from_fork | Cpu_idle

datatype stackword = Data u32 | Code code_label

record task_struct =
  PID :: int
  dir_pages_baseAddr :: "nat option"
  kernel_esp :: kesp
  estado :: state_t
  estadisticas :: stats
  n_directorio :: nat
  sem_ret :: int
  quantum :: int
  readKeys :: int
  requiredKeys :: int
  processBreak :: u32

datatype state_sem = FREE_SEM | USED_SEM

text \<open>The field \<open>blockedQueue\<close> of semaphore \<open>i\<close> is the list head at \<open>SemQ i\<close>.\<close>

record semaphore =
  sem_state :: state_sem
  n_sem :: int
  owner :: int
  counter :: int

record kstate =
  cur :: nat
  tasks :: "nat \<Rightarrow> task_struct"
  kstack :: "nat \<Rightarrow> nat \<Rightarrow> stackword"
  links :: "ptr links"
  semaphores :: "nat \<Rightarrow> semaphore"
  refs_DIR :: "nat \<Rightarrow> int"
  dir_pages :: tables
  pagusr_table :: tables
  pagusr_addr :: u32
  phys_mem :: frames
  memory :: mem
  cr3 :: "nat option"
  tss_esp0 :: nat
  msr_esp :: nat
  qLeft :: int
  idle_task :: "nat option"
  incrementalPID :: int
  zeos_ticks :: int
  keyboardBuff :: cirBuffer
  con :: console
  tsc :: "nat \<Rightarrow> u64"
  tsc_reads :: nat

text \<open>
  \<open>cur\<close> is the task whose kernel stack \<open>esp\<close> points into, which \<open>current()\<close> computes by masking
  \<open>esp\<close>; \<open>tss_esp0\<close> and \<open>msr_esp\<close> name the task whose stack top (\<open>KERNEL_ESP\<close>) is loaded;
  \<open>tsc n\<close> is what the \<open>n\<close>-th execution of \<open>rdtsc\<close> reads.
\<close>

section \<open>Accessors\<close>

definition upd_task :: "nat \<Rightarrow> (task_struct \<Rightarrow> task_struct) \<Rightarrow> kstate \<Rightarrow> kstate" where
  "upd_task t f s = s\<lparr>tasks := (tasks s)(t := f (tasks s t))\<rparr>"

definition upd_stats :: "nat \<Rightarrow> (stats \<Rightarrow> stats) \<Rightarrow> kstate \<Rightarrow> kstate" where
  "upd_stats t f = upd_task t (estadisticas_update f)"

definition upd_sem :: "nat \<Rightarrow> (semaphore \<Rightarrow> semaphore) \<Rightarrow> kstate \<Rightarrow> kstate" where
  "upd_sem i f s = s\<lparr>semaphores := (semaphores s)(i := f (semaphores s i))\<rparr>"

text \<open>\<open>list_entry\<close> on the field \<open>list\<close>; on a list head it would not give a task.\<close>

fun list_head_to_task_struct :: "ptr \<Rightarrow> nat option" where
  "list_head_to_task_struct (TaskL i) = Some i"
| "list_head_to_task_struct _ = None"

definition read_ticks :: "kstate \<Rightarrow> (u32 \<times> kstate) option" where
  "read_ticks s =
     do { t \<leftarrow> get_ticks (tsc s (tsc_reads s)); Some (t, s\<lparr>tsc_reads := Suc (tsc_reads s)\<rparr>) }"

definition get_DIR :: "kstate \<Rightarrow> nat \<Rightarrow> nat option" where
  "get_DIR s t = dir_pages_baseAddr (tasks s t)"

text \<open>\<open>get_PT\<close>: the page table address is read from entry 0 of the directory. \<open>PT_of\<close> is the
  same pointer as an index in \<open>pagusr_table\<close>.\<close>

definition get_PT :: "kstate \<Rightarrow> nat \<Rightarrow> u32 option" where
  "get_PT s t =
     do { d \<leftarrow> dir_pages_baseAddr (tasks s t);
          Some (push_bit 12 (pte_pbase (dir_pages s (d * TOTAL_PAGES)))) }"

definition PT_of :: "kstate \<Rightarrow> nat \<Rightarrow> nat option" where
  "PT_of s t = map_option (pt_index (pagusr_addr s)) (get_PT s t)"

definition get_DIR_position :: "kstate \<Rightarrow> nat \<Rightarrow> nat" where
  "get_DIR_position s t = n_directorio (tasks s t)"

text \<open>The translation in force: the directory in \<open>cr3\<close>.\<close>

definition kmmu :: "kstate \<Rightarrow> mmu" where
  "kmmu s va = do { d \<leftarrow> cr3 s; mmu_walk (pagusr_addr s) (dir_pages s) (pagusr_table s) d va }"

definition get_quantum :: "kstate \<Rightarrow> nat \<Rightarrow> int" where
  "get_quantum s t = quantum (tasks s (cur s))"

definition set_quantum :: "kstate \<Rightarrow> nat \<Rightarrow> int \<Rightarrow> kstate" where
  "set_quantum s t q = upd_task (cur s) (quantum_update (\<lambda>_. q)) s"

definition init_stats :: "stats \<Rightarrow> stats" where
  "init_stats st = st\<lparr>user_ticks := 0, system_ticks := 0, blocked_ticks := 0, ready_ticks := 0,
     elapsed_total_ticks := 0, total_trans := 0, remaining_ticks := 0\<rparr>"

text \<open>
  \<open>st->f += get_ticks() - st->elapsed_total_ticks; st->elapsed_total_ticks = get_ticks();\<close>
  for a field \<open>f\<close> of the statistics of task \<open>t\<close>: the idiom of all the accounting code.
\<close>

definition charge :: "((u32 \<Rightarrow> u32) \<Rightarrow> stats \<Rightarrow> stats) \<Rightarrow> nat \<Rightarrow> kstate \<Rightarrow> kstate option" where
  "charge f t s =
     do {
       (now, s1) \<leftarrow> read_ticks s;
       let s2 = upd_stats t (f (\<lambda>v. v + (now - elapsed_total_ticks (estadisticas (tasks s1 t))))) s1;
       (now', s3) \<leftarrow> read_ticks s2;
       Some (upd_stats t (elapsed_total_ticks_update (\<lambda>_. now')) s3)
     }"

definition statsEntrySys :: "kstate \<Rightarrow> kstate option" where
  "statsEntrySys s = charge user_ticks_update (cur s) s"

definition statsLeaveSys :: "kstate \<Rightarrow> kstate option" where
  "statsLeaveSys s = charge system_ticks_update (cur s) s"

section \<open>What the accounting leaves alone\<close>

lemma read_ticks_Some: "\<exists>t. read_ticks s = Some (t, s\<lparr>tsc_reads := Suc (tsc_reads s)\<rparr>)"
  using get_ticks_correct [of "tsc s (tsc_reads s)"] by (auto simp: read_ticks_def)

text \<open>
  \<open>same_but_stats s s'\<close>: the states differ in the statistics of tasks and the clock reads only.
\<close>

definition stats_only :: "kstate \<Rightarrow> kstate \<Rightarrow> bool" where
  "stats_only s s' \<longleftrightarrow>
     (\<exists>st n. s' = s\<lparr>tasks := (\<lambda>t. (tasks s t)\<lparr>estadisticas := st t\<rparr>), tsc_reads := n\<rparr>)"

lemma stats_only_refl: "stats_only s s"
  unfolding stats_only_def
  by (rule exI [of _ "\<lambda>t. estadisticas (tasks s t)"], rule exI [of _ "tsc_reads s"]) simp

lemma stats_only_trans:
  assumes "stats_only s s'" "stats_only s' s''"
  shows "stats_only s s''"
proof -
  obtain st n where 1: "s' = s\<lparr>tasks := (\<lambda>t. (tasks s t)\<lparr>estadisticas := st t\<rparr>), tsc_reads := n\<rparr>"
    using assms(1) unfolding stats_only_def by blast
  obtain st' n' where 2: "s'' = s'\<lparr>tasks := (\<lambda>t. (tasks s' t)\<lparr>estadisticas := st' t\<rparr>), tsc_reads := n'\<rparr>"
    using assms(2) unfolding stats_only_def by blast
  have "s'' = s\<lparr>tasks := (\<lambda>t. (tasks s t)\<lparr>estadisticas := st' t\<rparr>), tsc_reads := n'\<rparr>"
    unfolding 2 unfolding 1 by simp
  then show ?thesis unfolding stats_only_def by (rule exI [of _ st', OF exI [of _ n']])
qed

lemma stats_only_read: "stats_only s (s\<lparr>tsc_reads := n\<rparr>)"
  unfolding stats_only_def by (rule exI [of _ "\<lambda>t. estadisticas (tasks s t)"], rule exI [of _ n]) simp

lemma stats_only_upd: "stats_only s (upd_stats t f s)"
  unfolding stats_only_def upd_stats_def upd_task_def
  by (rule exI [of _ "\<lambda>u. (if u = t then f (estadisticas (tasks s t)) else estadisticas (tasks s u))"],
      rule exI [of _ "tsc_reads s"]) (auto simp: fun_eq_iff)

lemma charge_Some: "\<exists>s'. charge f t s = Some s' \<and> stats_only s s'"
proof -
  obtain a where a: "read_ticks s = Some (a, s\<lparr>tsc_reads := Suc (tsc_reads s)\<rparr>)"
    using read_ticks_Some by blast
  let ?s1 = "s\<lparr>tsc_reads := Suc (tsc_reads s)\<rparr>"
  let ?s2 = "upd_stats t (f (\<lambda>v. v + (a - elapsed_total_ticks (estadisticas (tasks ?s1 t))))) ?s1"
  obtain b where b: "read_ticks ?s2 = Some (b, ?s2\<lparr>tsc_reads := Suc (tsc_reads ?s2)\<rparr>)"
    using read_ticks_Some by blast
  let ?s3 = "upd_stats t (elapsed_total_ticks_update (\<lambda>_. b)) (?s2\<lparr>tsc_reads := Suc (tsc_reads ?s2)\<rparr>)"
  have "charge f t s = Some ?s3" using a b by (simp add: charge_def Let_def)
  moreover have "stats_only s ?s3"
    by (rule stats_only_trans [OF stats_only_trans [OF stats_only_trans [OF
          stats_only_read stats_only_upd] stats_only_read] stats_only_upd])
  ultimately show ?thesis by blast
qed

lemma stats_only_fields:
  assumes "stats_only s s'"
  shows "cur s' = cur s" "kstack s' = kstack s" "links s' = links s" "semaphores s' = semaphores s"
    "refs_DIR s' = refs_DIR s" "dir_pages s' = dir_pages s" "pagusr_table s' = pagusr_table s"
    "pagusr_addr s' = pagusr_addr s" "phys_mem s' = phys_mem s" "memory s' = memory s"
    "cr3 s' = cr3 s" "qLeft s' = qLeft s" "idle_task s' = idle_task s"
    "incrementalPID s' = incrementalPID s" "keyboardBuff s' = keyboardBuff s" "con s' = con s"
    "PID (tasks s' t) = PID (tasks s t)" "estado (tasks s' t) = estado (tasks s t)"
    "dir_pages_baseAddr (tasks s' t) = dir_pages_baseAddr (tasks s t)"
    "kernel_esp (tasks s' t) = kernel_esp (tasks s t)"
    "n_directorio (tasks s' t) = n_directorio (tasks s t)"
    "sem_ret (tasks s' t) = sem_ret (tasks s t)" "quantum (tasks s' t) = quantum (tasks s t)"
    "readKeys (tasks s' t) = readKeys (tasks s t)"
    "requiredKeys (tasks s' t) = requiredKeys (tasks s t)"
    "processBreak (tasks s' t) = processBreak (tasks s t)" "zeos_ticks s' = zeos_ticks s"
  using assms by (auto simp: stats_only_def)

end
