(* ===== verification/Sched.thy ===== *)
theory Sched
  imports KState
begin

text \<open>
  The round-robin scheduler of \<open>sched.c\<close>: the directory allocator, the state changes of a
  process, the context switch and the policy. The abstract state of the scheduler is the function
  \<open>Q\<close> from list heads to lists of tasks, together with the running task; \<open>kinv s Q\<close> says that the
  pointers of \<open>s\<close> represent \<open>Q\<close> and that the \<open>estado\<close> of every task agrees with the queue it is
  in. Each operation is shown to do on \<open>Q\<close> what the policy says, without a crash.
\<close>

section \<open>The code\<close>

function allocate_DIR_from :: "nat \<Rightarrow> kstate \<Rightarrow> nat \<Rightarrow> int \<times> kstate" where
  "allocate_DIR_from i s p =
     (if i < NR_TASKS then
        (if refs_DIR s i = 0 then
           (let s1 = upd_task p (dir_pages_baseAddr_update (\<lambda>_. Some i)) s;
                s2 = upd_task p (n_directorio_update (\<lambda>_. i)) s1
            in (1, s2\<lparr>refs_DIR := (refs_DIR s2)(i := i32 (refs_DIR s2 i + 1))\<rparr>))
         else allocate_DIR_from (Suc i) s p)
      else (- 1, s))"
  by pat_completeness auto
termination by (relation "measure (\<lambda>(i, s, p). NR_TASKS - i)") auto

declare allocate_DIR_from.simps [simp del]

definition allocate_DIR :: "kstate \<Rightarrow> nat \<Rightarrow> int \<times> kstate" where
  "allocate_DIR s p = allocate_DIR_from 0 s p"

definition update_sched_data_rr :: "kstate \<Rightarrow> kstate" where
  "update_sched_data_rr s = s\<lparr>qLeft := i32 (qLeft s - 1)\<rparr>"

definition needs_sched_rr :: "kstate \<Rightarrow> int \<times> kstate" where
  "needs_sched_rr s =
     (let pWaiting = \<not> list_empty (links s) ReadyQ in
      if pWaiting \<and> qLeft s = 0 then (1, s)
      else if \<not> pWaiting \<and> qLeft s = 0 then
        (let s1 = upd_stats (cur s) (total_trans_update (\<lambda>v. v + 1)) s
         in (0, s1\<lparr>qLeft := get_quantum s1 (cur s1)\<rparr>))
      else (0, s))"

text \<open>\<open>dst = None\<close> is the NULL queue: the process gets the processor.\<close>

definition update_process_state_rr :: "nat \<Rightarrow> ptr option \<Rightarrow> kstate \<Rightarrow> kstate option" where
  "update_process_state_rr t dst s =
     do {
       h1 \<leftarrow> (if estado (tasks s t) \<noteq> ST_RUN then list_del (links s) (TaskL t) else Some (links s));
       let s1 = s\<lparr>links := h1\<rparr>;
       (case dst of
          None \<Rightarrow> Some (upd_task t (estado_update (\<lambda>_. ST_RUN)) s1)
        | Some q \<Rightarrow>
            do {
              h2 \<leftarrow> list_add_tail (links s1) (TaskL t) q;
              let s2 = s1\<lparr>links := h2\<rparr>;
              Some (if q = ReadyQ then upd_task t (estado_update (\<lambda>_. ST_READY)) s2
                    else upd_task t (estado_update (\<lambda>_. ST_BLOCKED)) s2)
            })
     }"

text \<open>
  \<open>task_switch\<close> (entry.S) saves the registers and calls \<open>inner_task_switch\<close>; \<open>k\<close> is the caller
  the saved frame returns to. The address space and the kernel stack become those of \<open>t\<close>.
\<close>

definition inner_task_switch :: "kcont \<Rightarrow> nat \<Rightarrow> kstate \<Rightarrow> kstate" where
  "inner_task_switch k t s =
     (let s1 = s\<lparr>tss_esp0 := t\<rparr>;
          s2 = s1\<lparr>msr_esp := t\<rparr>;
          s3 = s2\<lparr>cr3 := get_DIR s2 t\<rparr>;
          s4 = upd_task (cur s3) (kernel_esp_update (\<lambda>_. SwitchFrame k)) s3
      in s4\<lparr>cur := t\<rparr>)"

definition task_switch :: "kcont \<Rightarrow> nat \<Rightarrow> kstate \<Rightarrow> kstate" where
  "task_switch k t s = inner_task_switch k t s"

definition sched_next_rr :: "kcont \<Rightarrow> kstate \<Rightarrow> kstate option" where
  "sched_next_rr k s =
     (if \<not> list_empty (links s) ReadyQ then
        do {
          next \<leftarrow> list_first (links s) ReadyQ;
          nextt \<leftarrow> list_head_to_task_struct next;
          let s1 = s\<lparr>qLeft := get_quantum s nextt\<rparr>;
          s2 \<leftarrow> charge system_ticks_update nextt s1;
          s3 \<leftarrow> charge ready_ticks_update nextt s2;
          let s4 = upd_stats nextt (total_trans_update (\<lambda>v. v + 1)) s3;
          s5 \<leftarrow> update_process_state_rr nextt None s4;
          Some (task_switch k nextt s5)
        }
      else do { i \<leftarrow> idle_task s; Some (task_switch k i s) })"

definition exitRunCurrent :: "ptr \<Rightarrow> kstate \<Rightarrow> kstate option" where
  "exitRunCurrent nextListCurrent s =
     do {
       s1 \<leftarrow> charge system_ticks_update (cur s) s;
       update_process_state_rr (cur s1) (Some nextListCurrent) s1
     }"

definition schedule :: "kstate \<Rightarrow> kstate option" where
  "schedule s =
     (let s1 = update_sched_data_rr s; (r, s2) = needs_sched_rr s1 in
      if r \<noteq> 0 then do { s3 \<leftarrow> exitRunCurrent ReadyQ s2; sched_next_rr K_schedule s3 }
      else Some s2)"

section \<open>The directory allocator\<close>

text \<open>Giving directory \<open>j\<close>, so far unused, to task \<open>p\<close>.\<close>

definition give_DIR :: "nat \<Rightarrow> nat \<Rightarrow> kstate \<Rightarrow> kstate" where
  "give_DIR p j s =
     (upd_task p (\<lambda>t. t\<lparr>dir_pages_baseAddr := Some j, n_directorio := j\<rparr>) s)
        \<lparr>refs_DIR := (refs_DIR s)(j := 1)\<rparr>"

lemma allocate_DIR_from_hit:
  "i < 15 \<Longrightarrow> refs_DIR s i = 0 \<Longrightarrow> allocate_DIR_from i s p = (1, give_DIR p i s)"
  by (subst allocate_DIR_from.simps)
    (simp add: give_DIR_def upd_task_def i32_id int_range_def Let_def)

lemma allocate_DIR_from_skip:
  "i < 15 \<Longrightarrow> refs_DIR s i \<noteq> 0 \<Longrightarrow> allocate_DIR_from i s p = allocate_DIR_from (Suc i) s p"
  by (subst allocate_DIR_from.simps) simp

lemma allocate_DIR_from_Some:
  "i \<le> j \<Longrightarrow> j < 15 \<Longrightarrow> refs_DIR s j = 0 \<Longrightarrow> \<forall>k. i \<le> k \<and> k < j \<longrightarrow> refs_DIR s k \<noteq> 0 \<Longrightarrow>
    allocate_DIR_from i s p = (1, give_DIR p j s)"
proof (induction "j - i" arbitrary: i)
  case 0
  then show ?case by (simp add: allocate_DIR_from_hit)
next
  case (Suc n)
  then have "i < j" by simp
  then have "allocate_DIR_from i s p = allocate_DIR_from (Suc i) s p"
    using Suc by (intro allocate_DIR_from_skip) auto
  then show ?case using Suc \<open>i < j\<close> by simp
qed

lemma allocate_DIR_from_None:
  "\<forall>j. i \<le> j \<and> j < 15 \<longrightarrow> refs_DIR s j \<noteq> 0 \<Longrightarrow> allocate_DIR_from i s p = (- 1, s)"
proof (induction i s p rule: allocate_DIR_from.induct)
  case (1 i s p)
  then show ?case by (subst allocate_DIR_from.simps) simp
qed


text \<open>The first unused directory is given to the task; with none left nothing changes.\<close>

lemma allocate_DIR_cases:
  "(\<exists>j<15. refs_DIR s j = 0 \<and> (\<forall>k<j. refs_DIR s k \<noteq> 0) \<and> allocate_DIR s p = (1, give_DIR p j s)) \<or>
   (\<forall>j<15. refs_DIR s j \<noteq> 0) \<and> allocate_DIR s p = (- 1, s)"
proof (cases "\<exists>j<15. refs_DIR s j = 0")
  case True
  define j where "j = (LEAST j. j < 15 \<and> refs_DIR s j = 0)"
  have j: "j < 15" "refs_DIR s j = 0"
    using LeastI_ex [of "\<lambda>j. j < 15 \<and> refs_DIR s j = 0"] True by (auto simp: j_def)
  have least: "\<forall>k<j. refs_DIR s k \<noteq> 0"
  proof (intro allI impI notI)
    fix k assume "k < j" "refs_DIR s k = 0"
    then show False using not_less_Least [of k "\<lambda>j. j < 15 \<and> refs_DIR s j = 0"] j(1) unfolding j_def by simp
  qed
  then have "allocate_DIR s p = (1, give_DIR p j s)"
    unfolding allocate_DIR_def using j by (intro allocate_DIR_from_Some) auto
  then show ?thesis using j least by blast
next
  case False
  then show ?thesis using allocate_DIR_from_None [of 0 s p] by (auto simp: allocate_DIR_def)
qed

section \<open>The abstract scheduler state\<close>

definition heads :: "kstate \<Rightarrow> ptr set" where
  "heads s = {FreeQ, ReadyQ, KeyQ} \<union> SemQ ` {i. i < 20 \<and> sem_state (semaphores s i) = USED_SEM}"

definition tlists :: "(ptr \<Rightarrow> nat list) \<Rightarrow> ptr \<Rightarrow> ptr list" where
  "tlists Q = (\<lambda>q. map TaskL (Q q))"

definition qstate :: "ptr \<Rightarrow> state_t" where
  "qstate q = (if q = ReadyQ then ST_READY else ST_BLOCKED)"

text \<open>The queues are represented, and a task in a queue other than the free one has its state.\<close>

definition qinv :: "kstate \<Rightarrow> (ptr \<Rightarrow> nat list) \<Rightarrow> bool" where
  "qinv s Q \<longleftrightarrow> lq.family (links s) (tlists Q) (heads s) \<and>
     (\<forall>q\<in>heads s. \<forall>t\<in>set (Q q). t < 15 \<and> (q \<noteq> FreeQ \<longrightarrow> estado (tasks s t) = qstate q))"

definition in_queue :: "kstate \<Rightarrow> (ptr \<Rightarrow> nat list) \<Rightarrow> nat \<Rightarrow> bool" where
  "in_queue s Q t \<longleftrightarrow> (\<exists>q\<in>heads s. t \<in> set (Q q))"

text \<open>The running task is in no queue.\<close>

definition run_inv :: "kstate \<Rightarrow> (ptr \<Rightarrow> nat list) \<Rightarrow> bool" where
  "run_inv s Q \<longleftrightarrow> cur s < 15 \<and> estado (tasks s (cur s)) = ST_RUN \<and> \<not> in_queue s Q (cur s)"

text \<open>The idle task is never free or blocked; out of the ready queue it is in state run.\<close>

definition idle_inv :: "kstate \<Rightarrow> (ptr \<Rightarrow> nat list) \<Rightarrow> bool" where
  "idle_inv s Q \<longleftrightarrow> (\<exists>i. idle_task s = Some i \<and> i < 15 \<and>
     (\<forall>q\<in>heads s. q \<noteq> ReadyQ \<longrightarrow> i \<notin> set (Q q)) \<and>
     (i \<notin> set (Q ReadyQ) \<longrightarrow> estado (tasks s i) = ST_RUN))"

definition kinv :: "kstate \<Rightarrow> (ptr \<Rightarrow> nat list) \<Rightarrow> bool" where
  "kinv s Q \<longleftrightarrow> qinv s Q \<and> run_inv s Q \<and> idle_inv s Q"

lemma heads_basic [simp]: "FreeQ \<in> heads s" "ReadyQ \<in> heads s" "KeyQ \<in> heads s"
  by (auto simp: heads_def)

lemma TaskL_heads [simp]: "TaskL t \<notin> heads s"
  by (auto simp: heads_def)

lemma heads_cong: "semaphores s' = semaphores s \<Longrightarrow> heads s' = heads s"
  by (simp add: heads_def)

lemma tlists_upd: "tlists (Q(q := xs)) = (tlists Q)(q := map TaskL xs)"
  by (auto simp: tlists_def)

lemma map_TaskL_remove1: "map TaskL (remove1 t xs) = remove1 (TaskL t) (map TaskL xs)"
  by (induction xs) auto

lemma TaskL_in_tlists [simp]: "TaskL t \<in> set (tlists Q q) \<longleftrightarrow> t \<in> set (Q q)"
  by (auto simp: tlists_def)

lemma qinv_repr: "qinv s Q \<Longrightarrow> q \<in> heads s \<Longrightarrow> queue_repr (links s) q (map TaskL (Q q))"
  using lq.family_repr [of "links s" "tlists Q" "heads s" q] by (simp add: qinv_def tlists_def)

lemma qinv_distinct: "qinv s Q \<Longrightarrow> q \<in> heads s \<Longrightarrow> distinct (Q q)"
  using qinv_repr [of s Q q] by (auto dest!: queue_repr_distinct simp: distinct_map)

lemma qinv_disjoint:
  assumes "qinv s Q" "q \<in> heads s" "r \<in> heads s" "q \<noteq> r" "t \<in> set (Q q)"
  shows "t \<notin> set (Q r)"
proof
  assume "t \<in> set (Q r)"
  then have "TaskL t \<in> set (tlists Q q) \<inter> set (tlists Q r)" using assms(5) by simp
  then show False using assms(1-4) unfolding qinv_def lq.family_def by blast
qed

lemma qinv_empty: "qinv s Q \<Longrightarrow> q \<in> heads s \<Longrightarrow> list_empty (links s) q \<longleftrightarrow> Q q = []"
  using list_empty_repr [OF qinv_repr, of s Q q] by simp

lemma qinv_first: "qinv s Q \<Longrightarrow> q \<in> heads s \<Longrightarrow> Q q = t # ts \<Longrightarrow> list_first (links s) q = Some (TaskL t)"
  using list_first_repr [of "links s" q "TaskL t" "map TaskL ts"] qinv_repr [of s Q q] by simp


section \<open>update_process_state_rr\<close>

text \<open>The state after a change of queue: new links, and the new \<open>estado\<close> of the task.\<close>

definition requeued :: "nat \<Rightarrow> ptr links \<Rightarrow> state_t \<Rightarrow> kstate \<Rightarrow> kstate" where
  "requeued t h e s = upd_task t (estado_update (\<lambda>_. e)) (s\<lparr>links := h\<rparr>)"

lemma requeued_simps [simp]:
  "cur (requeued t h e s) = cur s" "links (requeued t h e s) = h"
  "semaphores (requeued t h e s) = semaphores s" "idle_task (requeued t h e s) = idle_task s"
  "qLeft (requeued t h e s) = qLeft s" "heads (requeued t h e s) = heads s"
  "estado (tasks (requeued t h e s) u) = (if u = t then e else estado (tasks s u))"
  "PID (tasks (requeued t h e s) u) = PID (tasks s u)"
  "quantum (tasks (requeued t h e s) u) = quantum (tasks s u)"
  "sem_ret (tasks (requeued t h e s) u) = sem_ret (tasks s u)"
  "kernel_esp (tasks (requeued t h e s) u) = kernel_esp (tasks s u)"
  "dir_pages_baseAddr (tasks (requeued t h e s) u) = dir_pages_baseAddr (tasks s u)"
  by (auto simp: requeued_def upd_task_def heads_def)

lemma qinv_requeued:
  assumes q: "qinv s Q" and fam: "lq.family h (tlists Q') (heads s)"
    and sub: "\<And>r u. r \<in> heads s \<Longrightarrow> u \<in> set (Q' r) \<Longrightarrow> u \<noteq> t \<Longrightarrow> u \<in> set (Q r)"
    and t: "\<And>r. r \<in> heads s \<Longrightarrow> t \<in> set (Q' r) \<Longrightarrow> t < 15 \<and> (r \<noteq> FreeQ \<longrightarrow> e = qstate r)"
  shows "qinv (requeued t h e s) Q'"
  unfolding qinv_def
proof (intro conjI ballI)
  show "lq.family (links (requeued t h e s)) (tlists Q') (heads (requeued t h e s))"
    using fam by simp
  fix r u assume "r \<in> heads (requeued t h e s)" and u: "u \<in> set (Q' r)"
  then have r: "r \<in> heads s" by simp
  have "u < 15 \<and> (r \<noteq> FreeQ \<longrightarrow> estado (tasks s u) = qstate r)" if "u \<noteq> t"
    using sub [OF r u that] q r unfolding qinv_def by blast
  then show "u < 15" "r \<noteq> FreeQ \<longrightarrow> estado (tasks (requeued t h e s) u) = qstate r"
    using t [OF r] u by (cases "u = t"; simp)+
qed

lemma enqueue_running:
  assumes q: "qinv s Q" and d: "dst \<in> heads s" and t: "t < 15" "\<not> in_queue s Q t"
    and run: "estado (tasks s t) = ST_RUN"
  shows "\<exists>h. update_process_state_rr t (Some dst) s = Some (requeued t h (qstate dst) s) \<and>
    qinv (requeued t h (qstate dst) s) (Q(dst := Q dst @ [t]))"
proof -
  have nq: "\<And>r. r \<in> heads s \<Longrightarrow> TaskL t \<notin> set (tlists Q r)" using t by (auto simp: in_queue_def)
  then obtain h where h: "list_add_tail (links s) (TaskL t) dst = Some h"
    "lq.family h ((tlists Q)(dst := tlists Q dst @ [TaskL t])) (heads s)"
    using lq.family_push_back [of "links s" "tlists Q" "heads s" dst "TaskL t"] q d
    unfolding qinv_def by auto
  have "update_process_state_rr t (Some dst) s = Some (requeued t h (qstate dst) s)"
    using h(1) run by (auto simp: update_process_state_rr_def requeued_def qstate_def)
  moreover have "tlists (Q(dst := Q dst @ [t])) = (tlists Q)(dst := tlists Q dst @ [TaskL t])"
    by (auto simp: tlists_def)
  then have "qinv (requeued t h (qstate dst) s) (Q(dst := Q dst @ [t]))"
    using h(2) t by (intro qinv_requeued [OF q]) (auto simp: in_queue_def split: if_splits)
  ultimately show ?thesis by blast
qed

lemma dispatch_queued:
  assumes q: "qinv s Q" and r: "r \<in> heads s" "r \<noteq> FreeQ" and t: "t \<in> set (Q r)"
  shows "\<exists>h. update_process_state_rr t None s = Some (requeued t h ST_RUN s) \<and>
    qinv (requeued t h ST_RUN s) (Q(r := remove1 t (Q r)))"
proof -
  have e: "estado (tasks s t) \<noteq> ST_RUN" using q r t by (auto simp: qinv_def qstate_def)
  obtain h where h: "list_del (links s) (TaskL t) = Some h"
    "lq.family h ((tlists Q)(r := remove1 (TaskL t) (tlists Q r))) (heads s)"
    using lq.family_unlink [of "links s" "tlists Q" "heads s" r "TaskL t"] q r t
    unfolding qinv_def by auto
  have "tlists (Q(r := remove1 t (Q r))) = (tlists Q)(r := remove1 (TaskL t) (tlists Q r))"
    by (auto simp: tlists_def map_TaskL_remove1)
  moreover have "t \<notin> set (remove1 t (Q r))" using qinv_distinct [OF q r(1)] by simp
  ultimately have "qinv (requeued t h ST_RUN s) (Q(r := remove1 t (Q r)))"
    using h(2) qinv_disjoint [OF q r(1) _ _ t]
    by (intro qinv_requeued [OF q]) (auto split: if_splits dest: notin_set_remove1 set_remove1_subset [THEN subsetD])
  then show ?thesis using h(1) e by (auto simp: update_process_state_rr_def requeued_def)
qed

lemma move_queued:
  assumes q: "qinv s Q" and r: "r \<in> heads s" "r \<noteq> FreeQ" and t: "t \<in> set (Q r)"
    and d: "dst \<in> heads s"
  shows "\<exists>h. update_process_state_rr t (Some dst) s = Some (requeued t h (qstate dst) s) \<and>
    qinv (requeued t h (qstate dst) s)
      ((Q(r := remove1 t (Q r)))(dst := (Q(r := remove1 t (Q r))) dst @ [t]))"
proof -
  let ?Q1 = "Q(r := remove1 t (Q r))" and ?T1 = "(tlists Q)(r := remove1 (TaskL t) (tlists Q r))"
  have e: "estado (tasks s t) \<noteq> ST_RUN" using q r t by (auto simp: qinv_def qstate_def)
  obtain h1 h2 where h: "list_del (links s) (TaskL t) = Some h1"
    "list_add_tail h1 (TaskL t) dst = Some h2"
    "lq.family h2 (?T1(dst := ?T1 dst @ [TaskL t])) (heads s)"
    using lq.family_move [of "links s" "tlists Q" "heads s" r dst "TaskL t"] q r t d
    unfolding qinv_def by auto
  have "tlists (?Q1(dst := ?Q1 dst @ [t])) = ?T1(dst := ?T1 dst @ [TaskL t])"
    by (auto simp: tlists_def map_TaskL_remove1)
  moreover have "t \<notin> set (remove1 t (Q r))" using qinv_distinct [OF q r(1)] by simp
  moreover have "t < 15" using q r t by (auto simp: qinv_def)
  ultimately have "qinv (requeued t h2 (qstate dst) s) (?Q1(dst := ?Q1 dst @ [t]))"
    using h(3) qinv_disjoint [OF q r(1) _ _ t]
    by (intro qinv_requeued [OF q]) (auto split: if_splits dest: notin_set_remove1 set_remove1_subset [THEN subsetD])
  then show ?thesis using h(1,2) e by (auto simp: update_process_state_rr_def requeued_def qstate_def)
qed


section \<open>The policy\<close>

lemma qinv_cong:
  assumes "links s' = links s" "semaphores s' = semaphores s"
    "\<And>t. estado (tasks s' t) = estado (tasks s t)"
  shows "qinv s' Q = qinv s Q"
  using assms heads_cong [OF assms(2)] by (simp add: qinv_def)

text \<open>What a rescheduling leaves alone: everything but the processor, the queues and the accounts.\<close>

definition sched_frame :: "kstate \<Rightarrow> kstate \<Rightarrow> bool" where
  "sched_frame s s' \<longleftrightarrow>
     kstack s' = kstack s \<and> semaphores s' = semaphores s \<and> refs_DIR s' = refs_DIR s \<and>
     dir_pages s' = dir_pages s \<and> pagusr_table s' = pagusr_table s \<and>
     pagusr_addr s' = pagusr_addr s \<and> phys_mem s' = phys_mem s \<and> memory s' = memory s \<and>
     idle_task s' = idle_task s \<and> incrementalPID s' = incrementalPID s \<and>
     zeos_ticks s' = zeos_ticks s \<and> keyboardBuff s' = keyboardBuff s \<and> con s' = con s \<and>
     (\<forall>t. PID (tasks s' t) = PID (tasks s t) \<and>
        dir_pages_baseAddr (tasks s' t) = dir_pages_baseAddr (tasks s t) \<and>
        n_directorio (tasks s' t) = n_directorio (tasks s t) \<and>
        sem_ret (tasks s' t) = sem_ret (tasks s t) \<and> quantum (tasks s' t) = quantum (tasks s t) \<and>
        readKeys (tasks s' t) = readKeys (tasks s t) \<and>
        requiredKeys (tasks s' t) = requiredKeys (tasks s t) \<and>
        processBreak (tasks s' t) = processBreak (tasks s t))"

lemma sched_frame_refl: "sched_frame s s"
  by (simp add: sched_frame_def)

lemma sched_frame_trans: "sched_frame s s' \<Longrightarrow> sched_frame s' s'' \<Longrightarrow> sched_frame s s''"
  by (simp add: sched_frame_def)

lemma sched_frame_stats: "stats_only s s' \<Longrightarrow> sched_frame s s'"
  by (simp add: sched_frame_def stats_only_fields)

lemma sched_frame_requeued: "sched_frame s (requeued t h e s)"
  by (auto simp: sched_frame_def requeued_def upd_task_def)

lemma sched_frame_qLeft: "sched_frame s (s\<lparr>qLeft := q\<rparr>)"
  by (simp add: sched_frame_def)

lemma sched_frame_switch: "sched_frame s (task_switch k t s)"
  by (auto simp: sched_frame_def task_switch_def inner_task_switch_def upd_task_def Let_def)

lemma task_switch_simps [simp]:
  "cur (task_switch k t s) = t" "links (task_switch k t s) = links s"
  "semaphores (task_switch k t s) = semaphores s" "qLeft (task_switch k t s) = qLeft s"
  "idle_task (task_switch k t s) = idle_task s" "cr3 (task_switch k t s) = get_DIR s t"
  "tss_esp0 (task_switch k t s) = t" "msr_esp (task_switch k t s) = t"
  "estado (tasks (task_switch k t s) u) = estado (tasks s u)"
  "kernel_esp (tasks (task_switch k t s) u) =
     (if u = cur s then SwitchFrame k else kernel_esp (tasks s u))"
  by (auto simp: task_switch_def inner_task_switch_def upd_task_def get_DIR_def Let_def)

text \<open>The head of the ready queue gets the processor.\<close>

lemma sched_next_ready:
  assumes q: "qinv s Q" and ready: "Q ReadyQ = t # ts"
  shows "\<exists>s'. sched_next_rr k s = Some s' \<and> qinv s' (Q(ReadyQ := ts)) \<and> sched_frame s s' \<and>
    cur s' = t \<and> (\<forall>u. estado (tasks s' u) = (if u = t then ST_RUN else estado (tasks s u))) \<and>
    qLeft s' = quantum (tasks s (cur s)) \<and> cr3 s' = dir_pages_baseAddr (tasks s t) \<and>
    (\<forall>u. kernel_esp (tasks s' u) = (if u = cur s then SwitchFrame k else kernel_esp (tasks s u)))"
proof -
  let ?s1 = "s\<lparr>qLeft := get_quantum s t\<rparr>"
  obtain s2 where s2: "charge system_ticks_update t ?s1 = Some s2" "stats_only ?s1 s2"
    using charge_Some by blast
  obtain s3 where s3: "charge ready_ticks_update t s2 = Some s3" "stats_only s2 s3"
    using charge_Some by blast
  let ?s4 = "upd_stats t (total_trans_update (\<lambda>v. v + 1)) s3"
  have so: "stats_only ?s1 ?s4"
    by (rule stats_only_trans [OF stats_only_trans [OF s2(2) s3(2)] stats_only_upd])
  note f = stats_only_fields [OF so]
  have q4: "qinv ?s4 Q" using q by (subst qinv_cong [of _ s]) (simp_all add: f)
  have "t \<in> set (Q ReadyQ)" using ready by simp
  then obtain h where h: "update_process_state_rr t None ?s4 = Some (requeued t h ST_RUN ?s4)"
    "qinv (requeued t h ST_RUN ?s4) (Q(ReadyQ := remove1 t (Q ReadyQ)))"
    using dispatch_queued [OF q4, of ReadyQ t] by auto
  let ?s' = "task_switch k t (requeued t h ST_RUN ?s4)"
  have "sched_next_rr k s = Some ?s'"
    using qinv_empty [OF q, of ReadyQ] qinv_first [OF q _ ready] ready s2(1) s3(1) h(1)
    by (simp add: sched_next_rr_def Let_def)
  moreover have "qinv ?s' (Q(ReadyQ := ts))"
    using h(2) ready by (subst qinv_cong [of _ "requeued t h ST_RUN ?s4"]) simp_all
  moreover have "sched_frame s ?s'"
    by (rule sched_frame_trans [OF sched_frame_trans [OF sched_frame_trans [OF
          sched_frame_qLeft sched_frame_stats [OF so]] sched_frame_requeued] sched_frame_switch])
  ultimately show ?thesis by (auto simp: f get_quantum_def get_DIR_def)
qed

text \<open>With nothing ready, the idle task gets it; the rest of the quantum stays.\<close>

lemma sched_next_idle:
  assumes q: "qinv s Q" and ready: "Q ReadyQ = []" and i: "idle_task s = Some i"
  shows "sched_next_rr k s = Some (task_switch k i s) \<and> qinv (task_switch k i s) Q"
  using qinv_empty [OF q, of ReadyQ] ready i q qinv_cong [of "task_switch k i s" s Q]
  by (simp add: sched_next_rr_def)

text \<open>The running task goes to the end of a queue.\<close>

lemma exitRunCurrent_enqueues:
  assumes q: "qinv s Q" and r: "run_inv s Q" and d: "dst \<in> heads s"
  shows "\<exists>s'. exitRunCurrent dst s = Some s' \<and> qinv s' (Q(dst := Q dst @ [cur s])) \<and>
    sched_frame s s' \<and> cur s' = cur s \<and> qLeft s' = qLeft s \<and>
    (\<forall>u. estado (tasks s' u) = (if u = cur s then qstate dst else estado (tasks s u))) \<and>
    (\<forall>u. kernel_esp (tasks s' u) = kernel_esp (tasks s u))"
proof -
  obtain s1 where s1: "charge system_ticks_update (cur s) s = Some s1" "stats_only s s1"
    using charge_Some by blast
  note f = stats_only_fields [OF s1(2)]
  have q1: "qinv s1 Q" using q by (subst qinv_cong [of _ s]) (simp_all add: f)
  have hd: "heads s1 = heads s" by (rule heads_cong) (simp add: f)
  obtain h where h: "update_process_state_rr (cur s) (Some dst) s1 = Some (requeued (cur s) h (qstate dst) s1)"
    "qinv (requeued (cur s) h (qstate dst) s1) (Q(dst := Q dst @ [cur s]))"
    using enqueue_running [OF q1, of dst "cur s"] r d by (auto simp: f hd run_inv_def in_queue_def)
  have "sched_frame s (requeued (cur s) h (qstate dst) s1)"
    by (rule sched_frame_trans [OF sched_frame_stats [OF s1(2)] sched_frame_requeued])
  then show ?thesis using s1(1) h by (auto simp: exitRunCurrent_def f)
qed


text \<open>The abstract step of giving up the processor into queue \<open>dst\<close>.\<close>

definition leave_to :: "ptr \<Rightarrow> nat \<Rightarrow> (ptr \<Rightarrow> nat list) \<Rightarrow> (ptr \<Rightarrow> nat list)" where
  "leave_to dst t Q = Q(dst := Q dst @ [t])"

definition pop_ready :: "(ptr \<Rightarrow> nat list) \<Rightarrow> (ptr \<Rightarrow> nat list)" where
  "pop_ready Q = Q(ReadyQ := tl (Q ReadyQ))"

definition next_task :: "kstate \<Rightarrow> (ptr \<Rightarrow> nat list) \<Rightarrow> nat" where
  "next_task s Q = (if Q ReadyQ = [] then the (idle_task s) else hd (Q ReadyQ))"

lemma idle_invD:
  "idle_inv s Q \<Longrightarrow> idle_task s = Some i \<Longrightarrow>
    i < 15 \<and> (\<forall>q\<in>heads s. q \<noteq> ReadyQ \<longrightarrow> i \<notin> set (Q q)) \<and>
     (i \<notin> set (Q ReadyQ) \<longrightarrow> estado (tasks s i) = ST_RUN)"
  by (auto simp: idle_inv_def)

text \<open>Choosing the next process, whatever the old one did: the invariant is restored.\<close>

lemma sched_next_kinv:
  assumes q: "qinv s Q" and idle: "idle_inv s Q"
  shows "\<exists>s'. sched_next_rr k s = Some s' \<and> kinv s' (pop_ready Q) \<and> sched_frame s s' \<and>
    cur s' = next_task s Q \<and>
    qLeft s' = (if Q ReadyQ = [] then qLeft s else quantum (tasks s (cur s))) \<and>
    cr3 s' = dir_pages_baseAddr (tasks s (next_task s Q)) \<and>
    (\<forall>u. estado (tasks s' u) = (if u = next_task s Q then ST_RUN else estado (tasks s u))) \<and>
    (\<forall>u. kernel_esp (tasks s' u) = (if u = cur s then SwitchFrame k else kernel_esp (tasks s u)))"
proof -
  obtain i where i: "idle_task s = Some i" using idle by (auto simp: idle_inv_def)
  note idl = idle_invD [OF idle i]
  show ?thesis
  proof (cases "Q ReadyQ")
    case Nil
    let ?s' = "task_switch k i s"
    have hd: "heads ?s' = heads s" by (rule heads_cong) simp
    have "\<not> in_queue s Q i" using idl Nil by (auto simp: in_queue_def)
    then have "kinv ?s' Q"
      using sched_next_idle [OF q Nil i, of k] idl Nil i hd
      by (auto simp: kinv_def run_inv_def idle_inv_def in_queue_def)
    moreover have "pop_ready Q = Q" using Nil by (auto simp: pop_ready_def)
    moreover have "estado (tasks ?s' u) = (if u = i then ST_RUN else estado (tasks s u))" for u
      using idl Nil by simp
    ultimately show ?thesis
      using sched_next_idle [OF q Nil i, of k] Nil i sched_frame_switch [of s k i]
      by (simp add: next_task_def get_DIR_def)
  next
    case (Cons t ts)
    obtain s' where s': "sched_next_rr k s = Some s'" "qinv s' (Q(ReadyQ := ts))" "sched_frame s s'"
      "cur s' = t" "\<forall>u. estado (tasks s' u) = (if u = t then ST_RUN else estado (tasks s u))"
      "qLeft s' = quantum (tasks s (cur s))" "cr3 s' = dir_pages_baseAddr (tasks s t)"
      "\<forall>u. kernel_esp (tasks s' u) = (if u = cur s then SwitchFrame k else kernel_esp (tasks s u))"
      using sched_next_ready [OF q Cons, of k] by blast
    have hd: "heads s' = heads s" using s'(3) by (intro heads_cong) (simp add: sched_frame_def)
    have tr: "t \<in> set (Q ReadyQ)" using Cons by simp
    have "t < 15" using q tr heads_basic(2) unfolding qinv_def by blast
    then have t: "t < 15" "t \<notin> set ts"
      "\<And>r. r \<in> heads s \<Longrightarrow> r \<noteq> ReadyQ \<Longrightarrow> t \<notin> set (Q r)"
      using qinv_distinct [OF q, of ReadyQ] qinv_disjoint [OF q, of ReadyQ _ t] Cons by auto
    have "run_inv s' (Q(ReadyQ := ts))" using s'(4,5) t hd by (auto simp: run_inv_def in_queue_def)
    moreover have "idle_task s' = idle_task s" using s'(3) by (simp add: sched_frame_def)
    then have "idle_inv s' (Q(ReadyQ := ts))" using i idl s'(5) hd Cons by (auto simp: idle_inv_def)
    ultimately show ?thesis using s' Cons
      by (intro exI [of _ s']) (simp add: pop_ready_def next_task_def kinv_def)
  qed
qed

lemma leave_and_next:
  assumes k: "kinv s Q" and d: "dst \<in> heads s"
    and ni: "dst \<noteq> ReadyQ \<Longrightarrow> idle_task s \<noteq> Some (cur s)"
  shows "\<exists>s1 s'. exitRunCurrent dst s = Some s1 \<and> sched_next_rr c s1 = Some s' \<and>
    kinv s' (pop_ready (leave_to dst (cur s) Q)) \<and> sched_frame s s' \<and>
    cur s' = next_task s (leave_to dst (cur s) Q) \<and>
    qLeft s' = (if leave_to dst (cur s) Q ReadyQ = [] then qLeft s else quantum (tasks s (cur s))) \<and>
    (\<forall>u. kernel_esp (tasks s' u) = (if u = cur s then SwitchFrame c else kernel_esp (tasks s u)))"
proof -
  let ?Q = "leave_to dst (cur s) Q"
  obtain s1 where s1: "exitRunCurrent dst s = Some s1" "qinv s1 ?Q" "sched_frame s s1"
    "cur s1 = cur s" "qLeft s1 = qLeft s"
    "\<forall>u. estado (tasks s1 u) = (if u = cur s then qstate dst else estado (tasks s u))"
    "\<forall>u. kernel_esp (tasks s1 u) = kernel_esp (tasks s u)"
    using exitRunCurrent_enqueues [OF _ _ d] k unfolding kinv_def leave_to_def by blast
  have hd: "heads s1 = heads s" using s1(3) by (intro heads_cong) (simp add: sched_frame_def)
  have it: "idle_task s1 = idle_task s" using s1(3) by (simp add: sched_frame_def)
  have "idle_inv s1 ?Q"
    using k ni s1(6) hd it by (auto simp: kinv_def idle_inv_def leave_to_def)
  from sched_next_kinv [OF s1(2) this, of c] obtain s' where s': "sched_next_rr c s1 = Some s'"
    "kinv s' (pop_ready ?Q)" "sched_frame s1 s'" "cur s' = next_task s1 ?Q"
    "qLeft s' = (if ?Q ReadyQ = [] then qLeft s1 else quantum (tasks s1 (cur s1)))"
    "\<forall>u. kernel_esp (tasks s' u) = (if u = cur s then SwitchFrame c else kernel_esp (tasks s1 u))"
    using s1(4) by auto
  have "quantum (tasks s1 u) = quantum (tasks s u)" for u using s1(3) by (simp add: sched_frame_def)
  then show ?thesis
    using s1 s' it sched_frame_trans [OF s1(3) s'(3)] by (auto simp: next_task_def)
qed

section \<open>The clock tick\<close>

lemma kinv_qLeft [simp]: "kinv (s\<lparr>qLeft := l\<rparr>) Q = kinv s Q"
  by (simp add: kinv_def qinv_def run_inv_def idle_inv_def in_queue_def heads_def)

lemma kinv_stats:
  assumes "stats_only s s'" "kinv s Q"
  shows "kinv s' Q"
  using assms(2) qinv_cong [of s' s Q] heads_cong [of s' s]
  by (simp add: kinv_def run_inv_def idle_inv_def in_queue_def stats_only_fields [OF assms(1)])

text \<open>Before the last tick of the quantum, only the counter moves.\<close>

lemma schedule_runs_on:
  assumes "1 < qLeft s" "qLeft s < 2 ^ 31"
  shows "schedule s = Some (s\<lparr>qLeft := qLeft s - 1\<rparr>)"
  using assms by (simp add: schedule_def update_sched_data_rr_def needs_sched_rr_def i32_id
      int_range_def Let_def)

text \<open>At the last one with nothing ready, the process starts a new quantum.\<close>

lemma schedule_renews:
  assumes k: "kinv s Q" and l: "qLeft s = 1" and r: "Q ReadyQ = []"
  shows "\<exists>s'. schedule s = Some s' \<and> kinv s' Q \<and> cur s' = cur s \<and> sched_frame s s' \<and>
    qLeft s' = quantum (tasks s (cur s)) \<and>
    (\<forall>u. kernel_esp (tasks s' u) = kernel_esp (tasks s u)) \<and>
    total_trans (estadisticas (tasks s' (cur s))) = total_trans (estadisticas (tasks s (cur s))) + 1"
proof -
  let ?s0 = "s\<lparr>qLeft := 0\<rparr>"
  let ?s1 = "upd_stats (cur s) (total_trans_update (\<lambda>v. v + 1)) ?s0"
  let ?s' = "?s1\<lparr>qLeft := get_quantum ?s1 (cur s)\<rparr>"
  have so: "stats_only ?s0 ?s1" by (rule stats_only_upd)
  note f = stats_only_fields [OF so]
  have e: "list_empty (links s) ReadyQ" using k qinv_empty [of s Q ReadyQ] r by (simp add: kinv_def)
  have "schedule s = Some ?s'"
    using l e f(1) by (simp add: schedule_def update_sched_data_rr_def needs_sched_rr_def i32_id
        int_range_def Let_def)
  moreover have "kinv ?s' Q" using kinv_stats [OF so] k by simp
  moreover have "sched_frame s ?s'"
    by (rule sched_frame_trans [OF sched_frame_trans [OF sched_frame_qLeft
          sched_frame_stats [OF so]] sched_frame_qLeft])
  moreover have "total_trans (estadisticas (tasks ?s' (cur s))) =
      total_trans (estadisticas (tasks s (cur s))) + 1"
    by (simp add: upd_stats_def upd_task_def)
  ultimately show ?thesis by (intro exI [of _ ?s']) (simp add: f get_quantum_def)
qed

text \<open>
  At the last one with processes ready, the running process goes to the end of the queue and the
  first ready one runs, for the quantum of the one that leaves.
\<close>

lemma schedule_rotates:
  assumes k: "kinv s Q" and l: "qLeft s = 1" and r: "Q ReadyQ = t # ts"
  shows "\<exists>s'. schedule s = Some s' \<and> kinv s' (Q(ReadyQ := ts @ [cur s])) \<and> cur s' = t \<and>
    sched_frame s s' \<and> qLeft s' = quantum (tasks s (cur s)) \<and>
    (\<forall>u. kernel_esp (tasks s' u) = (if u = cur s then SwitchFrame K_schedule else kernel_esp (tasks s u)))"
proof -
  let ?s0 = "s\<lparr>qLeft := 0\<rparr>"
  have e: "\<not> list_empty (links s) ReadyQ"
    using k qinv_empty [of s Q ReadyQ] r by (simp add: kinv_def)
  have Q': "pop_ready (leave_to ReadyQ (cur s) Q) = Q(ReadyQ := ts @ [cur s])"
    using r by (simp add: pop_ready_def leave_to_def)
  obtain s1 s' where s': "exitRunCurrent ReadyQ ?s0 = Some s1"
    "sched_next_rr K_schedule s1 = Some s'" "kinv s' (Q(ReadyQ := ts @ [cur s]))"
    "sched_frame ?s0 s'" "cur s' = t" "qLeft s' = quantum (tasks s (cur s))"
    "\<forall>u. kernel_esp (tasks s' u) = (if u = cur s then SwitchFrame K_schedule else kernel_esp (tasks s u))"
    using leave_and_next [of ?s0 Q ReadyQ K_schedule] k r Q'
    by (auto simp: next_task_def leave_to_def)
  have "schedule s = Some s'"
    using l e s'(1,2) by (simp add: schedule_def update_sched_data_rr_def needs_sched_rr_def
        i32_id int_range_def Let_def)
  then show ?thesis using s' sched_frame_trans [OF sched_frame_qLeft s'(4)] by blast
qed

section \<open>Turns\<close>

text \<open>\<open>n\<close> clock ticks.\<close>

primrec sched_ticks :: "nat \<Rightarrow> kstate \<Rightarrow> kstate option" where
  "sched_ticks 0 s = Some s"
| "sched_ticks (Suc n) s = do { s' \<leftarrow> sched_ticks n s; schedule s' }"

lemma sched_ticks_add:
  "sched_ticks (m + n) s = do { s' \<leftarrow> sched_ticks m s; sched_ticks n s' }"
  by (induction n) (auto split: bind_splits)

lemma sched_ticks_run_on:
  "int n < qLeft s \<Longrightarrow> qLeft s < 2 ^ 31 \<Longrightarrow> sched_ticks n s = Some (s\<lparr>qLeft := qLeft s - int n\<rparr>)"
proof (induction n)
  case (Suc n)
  then show ?case
    using schedule_runs_on [of "s\<lparr>qLeft := qLeft s - int n\<rparr>"] by (simp add: algebra_simps)
qed simp

lemma sched_ticks_turn:
  assumes k: "kinv s Q" and l: "1 \<le> qLeft s" "qLeft s < 2 ^ 31" and r: "Q ReadyQ = t # ts"
  shows "\<exists>s'. sched_ticks (nat (qLeft s)) s = Some s' \<and> kinv s' (Q(ReadyQ := ts @ [cur s])) \<and>
    cur s' = t \<and> sched_frame s s' \<and> qLeft s' = quantum (tasks s (cur s))"
proof -
  let ?n = "nat (qLeft s - 1)" and ?s1 = "s\<lparr>qLeft := 1\<rparr>"
  have n: "nat (qLeft s) = Suc ?n" using l by simp
  have "sched_ticks ?n s = Some ?s1" using sched_ticks_run_on [of ?n s] l by simp
  moreover obtain s' where "schedule ?s1 = Some s'" "kinv s' (Q(ReadyQ := ts @ [cur s]))"
    "cur s' = t" "sched_frame ?s1 s'" "qLeft s' = quantum (tasks s (cur s))"
    using schedule_rotates [of ?s1 Q t ts] k r by auto
  note s' = this
  ultimately show ?thesis using s' sched_frame_trans [OF sched_frame_qLeft s'(4)] n by auto
qed

text \<open>
  Nobody starves: the process at position \<open>j\<close> of the ready queue runs after what is left of the
  running quantum and the quanta of the \<open>j\<close> processes before it, counted from the running one.
\<close>

definition turn_start :: "kstate \<Rightarrow> nat list \<Rightarrow> nat \<Rightarrow> nat" where
  "turn_start s R j =
     nat (qLeft s) + sum_list (map (\<lambda>t. nat (quantum (tasks s t))) (take j (cur s # R)))"

lemma turn_start_default:
  assumes q: "\<forall>t\<in>set (cur s # R). quantum (tasks s t) = q" and j: "j \<le> length R"
  shows "turn_start s R j = nat (qLeft s) + nat q * j"
proof -
  have "map (\<lambda>t. nat (quantum (tasks s t))) (take j (cur s # R)) = map (\<lambda>_. nat q) (take j (cur s # R))"
    by (rule map_cong) (use q in_set_takeD in \<open>fastforce+\<close>)
  then have "sum_list (map (\<lambda>t. nat (quantum (tasks s t))) (take j (cur s # R))) = j * nat q"
    using j by (simp only: sum_list_triv) simp
  then show ?thesis by (simp add: turn_start_def)
qed

lemma ready_turn:
  assumes k: "kinv s Q" and l: "1 \<le> qLeft s" "qLeft s < 2 ^ 31"
    and qs: "\<forall>t\<in>set (cur s # Q ReadyQ). 1 \<le> quantum (tasks s t) \<and> quantum (tasks s t) < 2 ^ 31"
    and j: "j < length (Q ReadyQ)"
  shows "\<exists>s'. sched_ticks (turn_start s (Q ReadyQ) j) s = Some s' \<and> cur s' = Q ReadyQ ! j \<and>
    kinv s' (Q(ReadyQ := drop (Suc j) (Q ReadyQ) @ take (Suc j) (cur s # Q ReadyQ))) \<and>
    sched_frame s s' \<and> qLeft s' = quantum (tasks s ((cur s # Q ReadyQ) ! j))"
  using j
proof (induction j)
  case 0
  then obtain t ts where r: "Q ReadyQ = t # ts" by (cases "Q ReadyQ") auto
  then show ?case using sched_ticks_turn [OF k l r] by (auto simp: turn_start_def simp del: fun_upd_apply)
next
  case (Suc j)
  let ?R = "Q ReadyQ" and ?C = "cur s # Q ReadyQ"
  let ?Q = "Q(ReadyQ := drop (Suc j) ?R @ take (Suc j) ?C)"
  obtain s1 where s1: "sched_ticks (turn_start s ?R j) s = Some s1" "cur s1 = ?R ! j"
    "kinv s1 ?Q" "sched_frame s s1" "qLeft s1 = quantum (tasks s (?C ! j))"
    using Suc.IH Suc_lessD [OF Suc.prems] by blast
  have qt: "quantum (tasks s1 u) = quantum (tasks s u)" for u using s1(4) by (simp add: sched_frame_def)
  have "?C ! j \<in> set ?C" using Suc.prems by (intro nth_mem) simp
  then have l1: "1 \<le> qLeft s1" "qLeft s1 < 2 ^ 31" using qs s1(5) by auto
  have r1: "?Q ReadyQ = ?R ! Suc j # (drop (Suc (Suc j)) ?R @ take (Suc j) ?C)"
    using Cons_nth_drop_Suc [OF Suc.prems] by simp
  obtain s2 where s2: "sched_ticks (nat (qLeft s1)) s1 = Some s2"
    "kinv s2 (?Q(ReadyQ := (drop (Suc (Suc j)) ?R @ take (Suc j) ?C) @ [cur s1]))"
    "cur s2 = ?R ! Suc j" "sched_frame s1 s2" "qLeft s2 = quantum (tasks s1 (cur s1))"
    using sched_ticks_turn [OF s1(3) l1 r1] by blast
  have tk: "take (Suc (Suc j)) ?C = take (Suc j) ?C @ [cur s1]"
    using Suc.prems s1(2) take_Suc_conv_app_nth [of "Suc j" ?C] by simp
  have "turn_start s ?R (Suc j) = turn_start s ?R j + nat (qLeft s1)"
    using Suc.prems s1(5) take_Suc_conv_app_nth [of j ?C] by (simp add: turn_start_def)
  then have "sched_ticks (turn_start s ?R (Suc j)) s = Some s2"
    using s1(1) s2(1) by (simp only: sched_ticks_add) simp
  then show ?case
    using s2 s1(2) qt tk sched_frame_trans [OF s1(4) s2(4)]
    by (intro exI [of _ s2]) (simp del: fun_upd_apply)
qed

section \<open>Waking the first process of a queue\<close>

definition wake :: "ptr \<Rightarrow> (ptr \<Rightarrow> nat list) \<Rightarrow> (ptr \<Rightarrow> nat list)" where
  "wake q Q = Q(q := tl (Q q), ReadyQ := Q ReadyQ @ [hd (Q q)])"

lemma kinv_running_not_queued: "kinv s Q \<Longrightarrow> q \<in> heads s \<Longrightarrow> cur s \<notin> set (Q q)"
  by (auto simp: kinv_def run_inv_def in_queue_def)

lemma wake_first:
  assumes k: "kinv s Q" and q: "q \<in> heads s" "q \<noteq> FreeQ" "q \<noteq> ReadyQ" and ne: "Q q = t # ts"
  shows "list_first (links s) q = Some (TaskL t) \<and>
    (\<exists>h. update_process_state_rr t (Some ReadyQ) s = Some (requeued t h ST_READY s) \<and>
       kinv (requeued t h ST_READY s) (wake q Q))"
proof -
  have qi: "qinv s Q" using k by (simp add: kinv_def)
  have t: "t \<in> set (Q q)" using ne by simp
  obtain h where h: "update_process_state_rr t (Some ReadyQ) s = Some (requeued t h ST_READY s)"
    "qinv (requeued t h ST_READY s) (wake q Q)"
    using move_queued [OF qi q(1,2) t, of ReadyQ] ne q(3)
    by (auto simp: wake_def qstate_def)
  let ?s = "requeued t h ST_READY s"
  have tc: "t \<noteq> cur s" using kinv_running_not_queued [OF k q(1)] t by blast
  have sub: "set (wake q Q r) \<subseteq> insert t (set (Q r))" for r
    using ne by (auto simp: wake_def)
  have "run_inv ?s (wake q Q)"
    using k tc sub by (auto simp: kinv_def run_inv_def in_queue_def)
  moreover obtain i where i: "idle_task s = Some i" "i < 15"
    "\<forall>r\<in>heads s. r \<noteq> ReadyQ \<longrightarrow> i \<notin> set (Q r)" "i \<notin> set (Q ReadyQ) \<longrightarrow> estado (tasks s i) = ST_RUN"
    using k by (auto simp: kinv_def idle_inv_def)
  have it: "i \<noteq> t" using i(3) q t by blast
  have "\<forall>r\<in>heads s. r \<noteq> ReadyQ \<longrightarrow> i \<notin> set (wake q Q r)"
    using i(3) it sub by blast
  moreover have "set (Q ReadyQ) \<subseteq> set (wake q Q ReadyQ)" by (auto simp: wake_def)
  ultimately have "kinv ?s (wake q Q)"
    using h(2) i it by (auto simp: kinv_def idle_inv_def)
  then show ?thesis using h(1) qinv_first [OF qi q(1) ne] by blast
qed

text \<open>Fields the invariant does not read.\<close>

lemma kinv_cong:
  assumes "links s' = links s" "semaphores s' = semaphores s" "cur s' = cur s"
    "idle_task s' = idle_task s" "\<And>t. estado (tasks s' t) = estado (tasks s t)"
  shows "kinv s' Q = kinv s Q"
  using assms heads_cong [OF assms(2)]
  by (simp add: kinv_def qinv_def run_inv_def idle_inv_def in_queue_def)

section \<open>System calls that may give up the processor\<close>

text \<open>
  What a kernel entry leaves: the value it returns to its caller, or another process running; the
  entry then goes on from the \<open>kcont\<close> saved in \<open>kernel_esp\<close> when the process runs again.
\<close>

datatype outcome = Ret int | Switched

end
