(* ===== verification/Semaphores.thy ===== *)
theory Semaphores
  imports Sched
begin

text \<open>
  The semaphore system calls of \<open>sys.c\<close> (\<open>cerca_sem\<close> to \<open>sys_sem_wait\<close>). The abstract state is a
  table from semaphore identifiers to owner, counter and queue of waiting tasks; the calls are
  shown to do on the table what counting semaphores do, while the queues stay well formed.
\<close>

section \<open>The code\<close>

definition cerca_sem_lliure :: "kstate \<Rightarrow> int" where
  "cerca_sem_lliure s =
     (case find (\<lambda>i. sem_state (semaphores s i) = FREE_SEM) [0..<20] of
        Some i \<Rightarrow> int i | None \<Rightarrow> - 1)"

definition cerca_sem :: "kstate \<Rightarrow> int \<Rightarrow> int" where
  "cerca_sem s n =
     (case find (\<lambda>i. n_sem (semaphores s i) = n \<and> sem_state (semaphores s i) = USED_SEM) [0..<20] of
        Some i \<Rightarrow> int i | None \<Rightarrow> - 1)"

text \<open>With no free semaphore the code writes to \<open>semaphores[-1]\<close>: the result is \<^term>\<open>None\<close>.\<close>

definition sys_sem_init :: "int \<Rightarrow> u32 \<Rightarrow> kstate \<Rightarrow> (int \<times> kstate) option" where
  "sys_sem_init n value s =
     (if cerca_sem s n \<noteq> - 1 then Some (- EBUSY, s)
      else
        (let i = cerca_sem_lliure s in
         if i < 0 then None
         else
           (let j = nat i;
                s1 = upd_sem j (n_sem_update (\<lambda>_. n)) s;
                s2 = upd_sem j (sem_state_update (\<lambda>_. USED_SEM)) s1;
                s3 = upd_sem j (counter_update (\<lambda>_. i32 (uint value))) s2;
                s4 = upd_sem j (owner_update (\<lambda>_. PID (tasks s3 (cur s3)))) s3
            in Some (0, s4\<lparr>links := INIT_LIST_HEAD (links s4) (SemQ j)\<rparr>))))"

text \<open>The loop of \<open>sys_sem_destroy\<close>; it may not end when the queue is malformed.\<close>

partial_function (option) unblock_all :: "nat \<Rightarrow> kstate \<Rightarrow> kstate option" where
  "unblock_all i s =
     (if \<not> list_empty (links s) (SemQ i) then
        do {
          l \<leftarrow> list_first (links s) (SemQ i);
          t \<leftarrow> list_head_to_task_struct l;
          let s1 = upd_task t (sem_ret_update (\<lambda>_. - 1)) s;
          s2 \<leftarrow> update_process_state_rr t (Some ReadyQ) s1;
          unblock_all i s2
        }
      else Some s)"

definition sys_sem_destroy :: "int \<Rightarrow> kstate \<Rightarrow> (int \<times> kstate) option" where
  "sys_sem_destroy n s =
     (let i = cerca_sem s n in
      if i = - 1 then Some (- EINVAL, s)
      else
        (let j = nat i in
         if sem_state (semaphores s j) = FREE_SEM then Some (- EINVAL, s)
         else if owner (semaphores s j) \<noteq> PID (tasks s (cur s)) then Some (- EPERM, s)
         else
           do {
             s1 \<leftarrow> unblock_all j s;
             let s2 = upd_sem j (sem_state_update (\<lambda>_. FREE_SEM)) s1;
             let s3 = upd_sem j (n_sem_update (\<lambda>_. - 1)) s2;
             Some (0, upd_sem j (owner_update (\<lambda>_. 0)) s3)
           }))"

definition sys_sem_signal :: "int \<Rightarrow> kstate \<Rightarrow> (int \<times> kstate) option" where
  "sys_sem_signal n s =
     (let i = cerca_sem s n in
      if i = - 1 then Some (- EINVAL, s)
      else
        (let j = nat i in
         if sem_state (semaphores s j) = FREE_SEM then Some (- EINVAL, s)
         else if list_empty (links s) (SemQ j) then
           Some (0, upd_sem j (counter_update (\<lambda>c. i32 (c + 1))) s)
         else
           do {
             l \<leftarrow> list_first (links s) (SemQ j);
             t \<leftarrow> list_head_to_task_struct l;
             s1 \<leftarrow> update_process_state_rr t (Some ReadyQ) s;
             Some (0, s1)
           }))"

definition sys_sem_wait :: "int \<Rightarrow> kstate \<Rightarrow> (outcome \<times> kstate) option" where
  "sys_sem_wait n s =
     (let i = cerca_sem s n in
      if i = - 1 then Some (Ret (- EINVAL), s)
      else
        (let j = nat i in
         if sem_state (semaphores s j) = FREE_SEM then Some (Ret (- EINVAL), s)
         else
           (let s1 = upd_task (cur s) (sem_ret_update (\<lambda>_. 0)) s in
            if counter (semaphores s1 j) \<le> 0 then
              do {
                s2 \<leftarrow> exitRunCurrent (SemQ j) s1;
                s3 \<leftarrow> sched_next_rr K_sem_wait s2;
                Some (Switched, s3)
              }
            else Some (Ret 0, upd_sem j (counter_update (\<lambda>c. i32 (c - 1))) s1))))"

text \<open>The end of \<open>sys_sem_wait\<close>, when the blocked process runs again.\<close>

definition sys_sem_wait_resume :: "kstate \<Rightarrow> int" where
  "sys_sem_wait_resume s = sem_ret (tasks s (cur s))"

section \<open>The table of semaphores\<close>

definition find_sem :: "kstate \<Rightarrow> int \<Rightarrow> nat option" where
  "find_sem s n =
     find (\<lambda>i. n_sem (semaphores s i) = n \<and> sem_state (semaphores s i) = USED_SEM) [0..<20]"

definition find_free :: "kstate \<Rightarrow> nat option" where
  "find_free s = find (\<lambda>i. sem_state (semaphores s i) = FREE_SEM) [0..<20]"

definition sem_unique :: "kstate \<Rightarrow> bool" where
  "sem_unique s \<longleftrightarrow>
     (\<forall>i<20. \<forall>j<20. sem_state (semaphores s i) = USED_SEM \<longrightarrow> sem_state (semaphores s j) = USED_SEM \<longrightarrow>
        n_sem (semaphores s i) = n_sem (semaphores s j) \<longrightarrow> i = j)"

text \<open>
  No process waits on a positive counter, and a process that waits is going to return 0 from
  \<open>sys_sem_wait\<close> unless the semaphore is destroyed.
\<close>

definition sem_waiting :: "kstate \<Rightarrow> (ptr \<Rightarrow> nat list) \<Rightarrow> nat \<Rightarrow> bool" where
  "sem_waiting s Q i \<longleftrightarrow>
     (Q (SemQ i) \<noteq> [] \<longrightarrow> counter (semaphores s i) \<le> 0) \<and>
     (\<forall>t\<in>set (Q (SemQ i)). sem_ret (tasks s t) = 0 \<and> kernel_esp (tasks s t) = SwitchFrame K_sem_wait)"

definition sem_inv :: "kstate \<Rightarrow> (ptr \<Rightarrow> nat list) \<Rightarrow> bool" where
  "sem_inv s Q \<longleftrightarrow> sem_unique s \<and>
     (\<forall>i<20. int_range (counter (semaphores s i)) \<and>
        (sem_state (semaphores s i) = USED_SEM \<longrightarrow> sem_waiting s Q i))"

type_synonym sem_table = "int \<Rightarrow> (int \<times> int \<times> nat list) option"

definition sem_table :: "kstate \<Rightarrow> (ptr \<Rightarrow> nat list) \<Rightarrow> sem_table" where
  "sem_table s Q n =
     map_option (\<lambda>i. (owner (semaphores s i), counter (semaphores s i), Q (SemQ i))) (find_sem s n)"

lemma cerca_sem_find:
  "cerca_sem s n = (case find_sem s n of Some i \<Rightarrow> int i | None \<Rightarrow> - 1)"
  by (simp add: cerca_sem_def find_sem_def)

lemma cerca_sem_lliure_find:
  "cerca_sem_lliure s = (case find_free s of Some i \<Rightarrow> int i | None \<Rightarrow> - 1)"
  by (simp add: cerca_sem_lliure_def find_free_def)

lemma find_sem_Some:
  "find_sem s n = Some i \<Longrightarrow>
    i < 20 \<and> n_sem (semaphores s i) = n \<and> sem_state (semaphores s i) = USED_SEM"
  by (auto simp: find_sem_def find_Some_iff)

lemma find_sem_None:
  "find_sem s n = None \<longleftrightarrow>
    (\<forall>i<20. \<not> (n_sem (semaphores s i) = n \<and> sem_state (semaphores s i) = USED_SEM))"
  by (auto simp: find_sem_def find_None_iff)

lemma find_sem_unique:
  assumes "sem_unique s" "i < 20" "n_sem (semaphores s i) = n" "sem_state (semaphores s i) = USED_SEM"
  shows "find_sem s n = Some i"
proof (cases "find_sem s n")
  case None
  then show ?thesis using assms by (auto simp: find_sem_None)
next
  case (Some j)
  then have "j = i" using find_sem_Some [OF Some] assms unfolding sem_unique_def by blast
  then show ?thesis using Some by simp
qed

lemma find_free_Some:
  "find_free s = Some i \<Longrightarrow> i < 20 \<and> sem_state (semaphores s i) = FREE_SEM"
  by (auto simp: find_free_def find_Some_iff)

lemma find_free_None: "find_free s = None \<longleftrightarrow> (\<forall>i<20. sem_state (semaphores s i) = USED_SEM)"
  by (auto simp: find_free_def find_None_iff) (metis state_sem.exhaust)

lemma SemQ_heads: "SemQ i \<in> heads s \<longleftrightarrow> i < 20 \<and> sem_state (semaphores s i) = USED_SEM"
  by (auto simp: heads_def)

lemma find_sem_heads: "find_sem s n = Some i \<Longrightarrow> SemQ i \<in> heads s"
  by (auto simp: SemQ_heads dest: find_sem_Some)

text \<open>Whether a semaphore is found depends on the identifiers only.\<close>

lemma find_sem_cong:
  assumes "\<And>i. n_sem (semaphores s' i) = n_sem (semaphores s i)"
    and "\<And>i. sem_state (semaphores s' i) = sem_state (semaphores s i)"
  shows "find_sem s' n = find_sem s n"
  by (simp add: find_sem_def assms)

lemma sem_unique_cong:
  assumes "\<And>i. n_sem (semaphores s' i) = n_sem (semaphores s i)"
    and "\<And>i. sem_state (semaphores s' i) = sem_state (semaphores s i)"
  shows "sem_unique s' = sem_unique s"
  by (simp add: sem_unique_def assms)

section \<open>Signal\<close>

lemma upd_sem_simps [simp]:
  "semaphores (upd_sem i f s) j = (if j = i then f (semaphores s i) else semaphores s j)"
  "tasks (upd_sem i f s) = tasks s" "cur (upd_sem i f s) = cur s" "links (upd_sem i f s) = links s"
  "idle_task (upd_sem i f s) = idle_task s" "qLeft (upd_sem i f s) = qLeft s"
  by (auto simp: upd_sem_def)

lemma upd_task_simps [simp]:
  "tasks (upd_task t f s) u = (if u = t then f (tasks s t) else tasks s u)"
  "semaphores (upd_task t f s) = semaphores s" "cur (upd_task t f s) = cur s"
  "links (upd_task t f s) = links s" "idle_task (upd_task t f s) = idle_task s"
  "heads (upd_task t f s) = heads s" "qLeft (upd_task t f s) = qLeft s"
  by (auto simp: upd_task_def heads_def)

lemma kinv_counter: "kinv (upd_sem i (counter_update f) s) Q = kinv s Q"
proof -
  have "heads (upd_sem i (counter_update f) s) = heads s" by (auto simp: heads_def)
  then show ?thesis by (simp add: kinv_def qinv_def run_inv_def idle_inv_def in_queue_def)
qed

lemma sem_table_upd:
  assumes u: "sem_unique s" and i: "find_sem s n = Some i"
    and fs: "\<And>m. find_sem s' m = find_sem s m"
    and oth: "\<And>j. j \<noteq> i \<Longrightarrow> owner (semaphores s' j) = owner (semaphores s j) \<and>
       counter (semaphores s' j) = counter (semaphores s j) \<and> Q' (SemQ j) = Q (SemQ j)"
  shows "sem_table s' Q' =
    (sem_table s Q)(n \<mapsto> (owner (semaphores s' i), counter (semaphores s' i), Q' (SemQ i)))"
proof
  fix m
  show "sem_table s' Q' m =
    ((sem_table s Q)(n \<mapsto> (owner (semaphores s' i), counter (semaphores s' i), Q' (SemQ i)))) m"
  proof (cases "m = n")
    case True
    then show ?thesis using i fs by (simp add: sem_table_def)
  next
    case False
    have "j \<noteq> i" if "find_sem s m = Some j" for j
      using find_sem_Some [OF that] find_sem_Some [OF i] False by blast
    then show ?thesis using False fs oth by (cases "find_sem s m") (auto simp: sem_table_def)
  qed
qed

lemma sys_sem_signal_unknown:
  "find_sem s n = None \<Longrightarrow> sys_sem_signal n s = Some (- EINVAL, s)"
  by (simp add: sys_sem_signal_def cerca_sem_find)

text \<open>With nobody waiting the counter grows.\<close>

lemma sys_sem_signal_counts:
  assumes k: "kinv s Q" and v: "sem_inv s Q" and i: "find_sem s n = Some i" and e: "Q (SemQ i) = []"
  shows "\<exists>s'. sys_sem_signal n s = Some (0, s') \<and> kinv s' Q \<and> sem_inv s' Q \<and>
    s' = upd_sem i (counter_update (\<lambda>c. i32 (c + 1))) s \<and>
    sem_table s' Q = (sem_table s Q)(n \<mapsto>
      (owner (semaphores s i), i32 (counter (semaphores s i) + 1), []))"
proof -
  let ?s' = "upd_sem i (counter_update (\<lambda>c. i32 (c + 1))) s"
  note fi = find_sem_Some [OF i]
  have le: "list_empty (links s) (SemQ i)"
    using qinv_empty [OF _ find_sem_heads [OF i], of Q] k e by (simp add: kinv_def)
  have "sys_sem_signal n s = Some (0, ?s')"
    using i fi le by (simp add: sys_sem_signal_def cerca_sem_find Let_def)
  moreover have fs: "find_sem ?s' m = find_sem s m" for m by (rule find_sem_cong) auto
  moreover have "sem_unique ?s' = sem_unique s" by (rule sem_unique_cong) auto
  then have "sem_inv ?s' Q" using v e by (auto simp: sem_inv_def sem_waiting_def i32_range)
  moreover have "sem_table ?s' Q = (sem_table s Q)(n \<mapsto>
      (owner (semaphores s i), i32 (counter (semaphores s i) + 1), []))"
    using sem_table_upd [of s n i ?s' Q Q, OF _ i fs] v e by (simp add: sem_inv_def)
  ultimately show ?thesis using k kinv_counter by blast
qed

text \<open>Otherwise the process that has waited longest becomes ready.\<close>

lemma wake_SemQ:
  "wake (SemQ i) Q (SemQ j) = (if j = i then tl (Q (SemQ i)) else Q (SemQ j))"
  by (simp add: wake_def)

lemma sys_sem_signal_wakes:
  assumes k: "kinv s Q" and v: "sem_inv s Q" and i: "find_sem s n = Some i" and w: "Q (SemQ i) = t # ts"
  shows "\<exists>h. sys_sem_signal n s = Some (0, requeued t h ST_READY s) \<and>
    kinv (requeued t h ST_READY s) (wake (SemQ i) Q) \<and>
    sem_inv (requeued t h ST_READY s) (wake (SemQ i) Q) \<and>
    sem_table (requeued t h ST_READY s) (wake (SemQ i) Q) = (sem_table s Q)(n \<mapsto>
      (owner (semaphores s i), counter (semaphores s i), ts))"
proof -
  note fi = find_sem_Some [OF i] and hi = find_sem_heads [OF i]
  have le: "\<not> list_empty (links s) (SemQ i)"
    using qinv_empty [OF _ hi, of Q] k w by (simp add: kinv_def)
  obtain h where h: "list_first (links s) (SemQ i) = Some (TaskL t)"
    "update_process_state_rr t (Some ReadyQ) s = Some (requeued t h ST_READY s)"
    "kinv (requeued t h ST_READY s) (wake (SemQ i) Q)"
    using wake_first [OF k hi _ _ w] by auto
  let ?s' = "requeued t h ST_READY s"
  have "sys_sem_signal n s = Some (0, ?s')"
    using i fi le h(1,2) by (simp add: sys_sem_signal_def cerca_sem_find Let_def)
  moreover have fs: "find_sem ?s' m = find_sem s m" for m by (rule find_sem_cong) auto
  moreover have "sem_unique ?s' = sem_unique s" by (rule sem_unique_cong) auto
  then have "sem_inv ?s' (wake (SemQ i) Q)"
    using v w fi by (auto simp: sem_inv_def sem_waiting_def wake_SemQ)
  moreover have "sem_table ?s' (wake (SemQ i) Q) = (sem_table s Q)(n \<mapsto>
      (owner (semaphores s i), counter (semaphores s i), ts))"
    using sem_table_upd [of s n i ?s' "wake (SemQ i) Q" Q, OF _ i fs] v w
    by (simp add: sem_inv_def wake_SemQ)
  ultimately show ?thesis using h(3) by blast
qed

section \<open>Wait\<close>

lemma sem_inv_cong:
  assumes v: "sem_inv s Q" and e: "semaphores s' = semaphores s"
    and q: "\<And>j. Q' (SemQ j) = Q (SemQ j)"
    and t: "\<And>j t. j < 20 \<Longrightarrow> sem_state (semaphores s j) = USED_SEM \<Longrightarrow> t \<in> set (Q (SemQ j)) \<Longrightarrow>
      sem_ret (tasks s' t) = sem_ret (tasks s t) \<and> kernel_esp (tasks s' t) = kernel_esp (tasks s t)"
  shows "sem_inv s' Q'"
  using v t unfolding sem_inv_def sem_unique_def sem_waiting_def e q by metis

lemma sys_sem_wait_unknown:
  "find_sem s n = None \<Longrightarrow> sys_sem_wait n s = Some (Ret (- EINVAL), s)"
  by (simp add: sys_sem_wait_def cerca_sem_find)

text \<open>The running process waits on no semaphore, so its return value may be reset.\<close>

lemma sem_inv_sem_ret:
  assumes k: "kinv s Q" and v: "sem_inv s Q"
  shows "sem_inv (upd_task (cur s) (sem_ret_update (\<lambda>_. x)) s) Q"
proof (rule sem_inv_cong [OF v])
  fix j t assume "j < 20" "sem_state (semaphores s j) = USED_SEM" "t \<in> set (Q (SemQ j))"
  then have "t \<noteq> cur s" using kinv_running_not_queued [OF k, of "SemQ j"] by (auto simp: SemQ_heads)
  then show "sem_ret (tasks (upd_task (cur s) (sem_ret_update (\<lambda>_. x)) s) t) = sem_ret (tasks s t) \<and>
    kernel_esp (tasks (upd_task (cur s) (sem_ret_update (\<lambda>_. x)) s) t) = kernel_esp (tasks s t)"
    by simp
qed auto

lemma kinv_sem_ret: "kinv (upd_task t (sem_ret_update f) s) Q = kinv s Q"
  by (rule kinv_cong) auto

text \<open>A positive counter is decremented and the call returns at once.\<close>

lemma sys_sem_wait_takes:
  assumes k: "kinv s Q" and v: "sem_inv s Q" and i: "find_sem s n = Some i"
    and c: "0 < counter (semaphores s i)"
  shows "\<exists>s'. sys_sem_wait n s = Some (Ret 0, s') \<and> kinv s' Q \<and> sem_inv s' Q \<and> cur s' = cur s \<and>
    sem_table s' Q = (sem_table s Q)(n \<mapsto>
      (owner (semaphores s i), counter (semaphores s i) - 1, []))"
proof -
  let ?s1 = "upd_task (cur s) (sem_ret_update (\<lambda>_. 0)) s"
  let ?s' = "upd_sem i (counter_update (\<lambda>c. i32 (c - 1))) ?s1"
  note fi = find_sem_Some [OF i]
  have r: "int_range (counter (semaphores s i))" and e: "Q (SemQ i) = []"
    using v fi c by (auto simp: sem_inv_def sem_waiting_def)
  then have i32: "i32 (counter (semaphores s i) - 1) = counter (semaphores s i) - 1"
    using c by (intro i32_id) (simp add: int_range_def)
  have "sys_sem_wait n s = Some (Ret 0, ?s')"
    using i fi c by (simp add: sys_sem_wait_def cerca_sem_find Let_def)
  moreover have v1: "sem_inv ?s1 Q" by (rule sem_inv_sem_ret [OF k v])
  moreover have fs: "find_sem ?s' m = find_sem s m" for m by (rule find_sem_cong) auto
  moreover have "sem_unique ?s' = sem_unique ?s1" by (rule sem_unique_cong) auto
  then have "sem_inv ?s' Q" using v1 e by (auto simp: sem_inv_def sem_waiting_def i32_range)
  moreover have "sem_table ?s' Q = (sem_table s Q)(n \<mapsto>
      (owner (semaphores s i), counter (semaphores s i) - 1, []))"
    using sem_table_upd [of s n i ?s' Q Q, OF _ i fs] v e i32 by (simp add: sem_inv_def)
  moreover have "kinv ?s' Q" using k by (simp add: kinv_counter kinv_sem_ret)
  ultimately show ?thesis by auto
qed

text \<open>Otherwise the process waits at the end of the queue and the next ready process runs.\<close>

lemma sys_sem_wait_blocks:
  assumes k: "kinv s Q" and v: "sem_inv s Q" and i: "find_sem s n = Some i"
    and c: "counter (semaphores s i) \<le> 0" and ni: "idle_task s \<noteq> Some (cur s)"
  shows "\<exists>s'. sys_sem_wait n s = Some (Switched, s') \<and>
    kinv s' (pop_ready (leave_to (SemQ i) (cur s) Q)) \<and>
    sem_inv s' (pop_ready (leave_to (SemQ i) (cur s) Q)) \<and>
    cur s' = next_task s Q \<and>
    sem_table s' (pop_ready (leave_to (SemQ i) (cur s) Q)) = (sem_table s Q)(n \<mapsto>
      (owner (semaphores s i), counter (semaphores s i), Q (SemQ i) @ [cur s]))"
proof -
  let ?s1 = "upd_task (cur s) (sem_ret_update (\<lambda>_. 0)) s"
  let ?Q = "pop_ready (leave_to (SemQ i) (cur s) Q)"
  note fi = find_sem_Some [OF i] and hi = find_sem_heads [OF i]
  have k1: "kinv ?s1 Q" using k by (simp add: kinv_sem_ret)
  obtain s2 s' where s': "exitRunCurrent (SemQ i) ?s1 = Some s2" "sched_next_rr K_sem_wait s2 = Some s'"
    "kinv s' ?Q" "sched_frame ?s1 s'" "cur s' = next_task s Q"
    "\<forall>u. kernel_esp (tasks s' u) = (if u = cur s then SwitchFrame K_sem_wait else kernel_esp (tasks s u))"
    using leave_and_next [OF k1, of "SemQ i" K_sem_wait] hi ni
    by (auto simp: next_task_def leave_to_def)
  have se: "semaphores s' = semaphores s" and sr: "\<And>t. sem_ret (tasks s' t) = sem_ret (tasks ?s1 t)"
    using s'(4) unfolding sched_frame_def by simp_all
  have SQ: "?Q (SemQ j) = (if j = i then Q (SemQ i) @ [cur s] else Q (SemQ j))" for j
    by (simp add: pop_ready_def leave_to_def)
  have "sys_sem_wait n s = Some (Switched, s')"
    using i fi c s'(1,2) by (simp add: sys_sem_wait_def cerca_sem_find Let_def)
  moreover have fs: "find_sem s' m = find_sem s m" for m by (simp add: find_sem_def se)
  moreover have nq: "t \<noteq> cur s"
    if "j < 20" "sem_state (semaphores s j) = USED_SEM" "t \<in> set (Q (SemQ j))" for j t
    using that kinv_running_not_queued [OF k, of "SemQ j"] by (auto simp: SemQ_heads)
  have "sem_unique s' = sem_unique s" by (rule sem_unique_cong) (simp_all add: se)
  then have "sem_inv s' ?Q"
    using v c nq by (auto simp: sem_inv_def sem_waiting_def SQ se sr s'(6))
  moreover have "sem_table s' ?Q = (sem_table s Q)(n \<mapsto>
      (owner (semaphores s i), counter (semaphores s i), Q (SemQ i) @ [cur s]))"
    using sem_table_upd [of s n i s' ?Q Q, OF _ i fs] v by (simp add: sem_inv_def SQ se)
  ultimately show ?thesis using s'(3,5) by blast
qed

section \<open>Init\<close>

lemma sys_sem_init_busy:
  "find_sem s n = Some i \<Longrightarrow> sys_sem_init n v s = Some (- EBUSY, s)"
  by (simp add: sys_sem_init_def cerca_sem_find)

lemma sys_sem_init_full:
  "find_sem s n = None \<Longrightarrow> find_free s = None \<Longrightarrow> sys_sem_init n v s = None"
  by (simp add: sys_sem_init_def cerca_sem_find cerca_sem_lliure_find Let_def)

definition new_sem :: "nat \<Rightarrow> int \<Rightarrow> u32 \<Rightarrow> kstate \<Rightarrow> kstate" where
  "new_sem i n v s =
     (upd_sem i (\<lambda>_. \<lparr>sem_state = USED_SEM, n_sem = n, owner = PID (tasks s (cur s)),
        counter = i32 (uint v)\<rparr>) s)\<lparr>links := INIT_LIST_HEAD (links s) (SemQ i)\<rparr>"

lemma upd_sem_upd_sem: "upd_sem i f (upd_sem i g s) = upd_sem i (\<lambda>x. f (g x)) s"
  by (simp add: upd_sem_def)

lemma new_sem_writes:
  "(upd_sem i (owner_update (\<lambda>_. PID (tasks s (cur s))))
     (upd_sem i (counter_update (\<lambda>_. i32 (uint v)))
       (upd_sem i (sem_state_update (\<lambda>_. USED_SEM))
         (upd_sem i (n_sem_update (\<lambda>_. n)) s))))\<lparr>links := INIT_LIST_HEAD (links s) (SemQ i)\<rparr> =
   new_sem i n v s"
  unfolding new_sem_def upd_sem_upd_sem
  by (rule arg_cong [where f = "\<lambda>f. (upd_sem i f s)\<lparr>links := INIT_LIST_HEAD (links s) (SemQ i)\<rparr>"])
    (auto intro!: semaphore.equality)

lemma new_sem_simps [simp]:
  "semaphores (new_sem i n v s) j = (if j = i then \<lparr>sem_state = USED_SEM, n_sem = n,
     owner = PID (tasks s (cur s)), counter = i32 (uint v)\<rparr> else semaphores s j)"
  "tasks (new_sem i n v s) = tasks s" "cur (new_sem i n v s) = cur s"
  "idle_task (new_sem i n v s) = idle_task s"
  "links (new_sem i n v s) = INIT_LIST_HEAD (links s) (SemQ i)"
  by (auto simp: new_sem_def upd_sem_def)

lemma heads_new_sem: "i < 20 \<Longrightarrow> heads (new_sem i n v s) = insert (SemQ i) (heads s)"
  by (auto simp: heads_def image_iff)

lemma find_sem_new:
  assumes "find_sem s n = None" "i < 20" "sem_state (semaphores s i) = FREE_SEM"
  shows "find_sem (new_sem i n v s) n = Some i"
    and "m \<noteq> n \<Longrightarrow> find_sem (new_sem i n v s) m = find_sem s m"
proof -
  have no: "j < 20 \<Longrightarrow> n_sem (semaphores s j) = n \<Longrightarrow> sem_state (semaphores s j) \<noteq> USED_SEM" for j
    using assms(1) by (auto simp: find_sem_None)
  show "find_sem (new_sem i n v s) n = Some i"
    unfolding find_sem_def find_Some_iff using assms(2) no
    by (intro exI [of _ i]) auto
  assume "m \<noteq> n"
  then show "find_sem (new_sem i n v s) m = find_sem s m"
    using assms(3) by (auto simp: find_sem_def intro!: find_cong)
qed

lemma kinv_new_sem:
  assumes k: "kinv s Q" and i: "i < 20" "sem_state (semaphores s i) = FREE_SEM"
  shows "kinv (new_sem i n v s) (Q(SemQ i := []))"
proof -
  let ?s' = "new_sem i n v s" and ?Q = "Q(SemQ i := [])"
  have hd: "heads ?s' = insert (SemQ i) (heads s)" by (rule heads_new_sem [OF i(1)])
  have nh: "SemQ i \<notin> heads s" using i by (simp add: SemQ_heads)
  have nq: "SemQ i \<notin> set (tlists Q r)" for r by (auto simp: tlists_def)
  have "lq.family (links ?s') (tlists ?Q) (heads ?s')"
    using lq.family_init [of "links s" "tlists Q" "heads s" "SemQ i"] k nh nq
    by (simp add: hd kinv_def qinv_def tlists_upd)
  then have "qinv ?s' ?Q" using k by (auto simp: qinv_def kinv_def hd)
  moreover have "run_inv ?s' ?Q" using k nh by (auto simp: kinv_def run_inv_def in_queue_def hd)
  moreover have "idle_inv ?s' ?Q" using k nh by (auto simp: kinv_def idle_inv_def hd)
  ultimately show ?thesis by (simp add: kinv_def)
qed

text \<open>A new identifier gets the first free place, the value given and an empty queue.\<close>

lemma sys_sem_init_new:
  assumes k: "kinv s Q" and inv: "sem_inv s Q" and n: "find_sem s n = None" and f: "find_free s = Some i"
  shows "sys_sem_init n v s = Some (0, new_sem i n v s) \<and>
    kinv (new_sem i n v s) (Q(SemQ i := [])) \<and> sem_inv (new_sem i n v s) (Q(SemQ i := [])) \<and>
    sem_table (new_sem i n v s) (Q(SemQ i := [])) =
      (sem_table s Q)(n \<mapsto> (PID (tasks s (cur s)), i32 (uint v), []))"
proof -
  let ?s' = "new_sem i n v s"
  note fi = find_free_Some [OF f]
  note fs = find_sem_new [OF n fi [THEN conjunct1] fi [THEN conjunct2]]
  have "sys_sem_init n v s = Some (0, ?s')"
    using n f by (simp add: sys_sem_init_def cerca_sem_find cerca_sem_lliure_find Let_def
        new_sem_writes)
  moreover have "sem_unique ?s'"
    using inv n fi by (auto simp: sem_inv_def sem_unique_def find_sem_None)
  then have "sem_inv ?s' (Q(SemQ i := []))"
    using inv fi by (auto simp: sem_inv_def sem_waiting_def i32_range)
  moreover have "sem_table ?s' (Q(SemQ i := [])) m =
      ((sem_table s Q)(n \<mapsto> (PID (tasks s (cur s)), i32 (uint v), []))) m" for m
  proof (cases "m = n")
    case True
    then show ?thesis using fs(1) by (simp add: sem_table_def)
  next
    case False
    have "j \<noteq> i" if "find_sem s m = Some j" for j using find_sem_Some [OF that] fi by auto
    then show ?thesis using fs(2) [OF False] False
      by (cases "find_sem s m") (auto simp: sem_table_def)
  qed
  ultimately show ?thesis using kinv_new_sem [OF k fi [THEN conjunct1] fi [THEN conjunct2]] by auto
qed

section \<open>Destroy\<close>

definition drain :: "nat \<Rightarrow> (ptr \<Rightarrow> nat list) \<Rightarrow> (ptr \<Rightarrow> nat list)" where
  "drain i Q = Q(SemQ i := [], ReadyQ := Q ReadyQ @ Q (SemQ i))"

text \<open>What the unblocking loop leaves alone.\<close>

definition unblock_frame :: "kstate \<Rightarrow> kstate \<Rightarrow> bool" where
  "unblock_frame s s' \<longleftrightarrow> semaphores s' = semaphores s \<and> cur s' = cur s \<and>
     idle_task s' = idle_task s \<and> qLeft s' = qLeft s \<and>
     (\<forall>t. kernel_esp (tasks s' t) = kernel_esp (tasks s t) \<and> PID (tasks s' t) = PID (tasks s t) \<and>
        quantum (tasks s' t) = quantum (tasks s t))"

text \<open>The loop ends, makes every waiting process ready, in order, with return value -1.\<close>

lemma unblock_all_drains:
  assumes "kinv s Q" "SemQ i \<in> heads s"
  shows "\<exists>s'. unblock_all i s = Some s' \<and> kinv s' (drain i Q) \<and> unblock_frame s s' \<and>
    (\<forall>t. sem_ret (tasks s' t) = (if t \<in> set (Q (SemQ i)) then - 1 else sem_ret (tasks s t)))"
  using assms
proof (induction "Q (SemQ i)" arbitrary: s Q)
  case Nil
  then have "list_empty (links s) (SemQ i)" using qinv_empty [of s Q "SemQ i"] by (simp add: kinv_def)
  then have "unblock_all i s = Some s" by (subst unblock_all.simps) simp
  moreover have "drain i Q = Q" using Nil(1) by (auto simp: drain_def)
  ultimately show ?case using Nil by (simp add: unblock_frame_def)
next
  case (Cons t ts)
  let ?s1 = "upd_task t (sem_ret_update (\<lambda>_. - 1)) s" and ?Q = "wake (SemQ i) Q"
  have k1: "kinv ?s1 Q" using Cons.prems by (simp add: kinv_sem_ret)
  have le: "\<not> list_empty (links s) (SemQ i)"
    using qinv_empty [of s Q "SemQ i"] Cons(2) Cons.prems by (simp add: kinv_def) (metis list.distinct(1))
  obtain h where h: "list_first (links s) (SemQ i) = Some (TaskL t)"
    "update_process_state_rr t (Some ReadyQ) ?s1 = Some (requeued t h ST_READY ?s1)"
    "kinv (requeued t h ST_READY ?s1) ?Q"
    using wake_first [OF k1, of "SemQ i" t ts] Cons(2) Cons.prems(2) by auto
  let ?s2 = "requeued t h ST_READY ?s1"
  have "unblock_all i s = unblock_all i ?s2"
    by (subst unblock_all.simps) (simp add: le h)
  moreover have "ts = ?Q (SemQ i)" using Cons(2) [symmetric] by (simp add: wake_SemQ)
  then obtain s' where s': "unblock_all i ?s2 = Some s'" "kinv s' (drain i ?Q)" "unblock_frame ?s2 s'"
    "\<forall>u. sem_ret (tasks s' u) = (if u \<in> set ts then - 1 else sem_ret (tasks ?s2 u))"
    using Cons(1) [OF _ h(3)] Cons.prems(2) by auto
  moreover have "drain i ?Q = drain i Q"
    using Cons(2) [symmetric] by (auto simp: drain_def wake_def)
  moreover have "unblock_frame s s'" using s'(3) by (auto simp: unblock_frame_def)
  ultimately show ?case using Cons(2) [symmetric] by auto
qed

lemma sys_sem_destroy_unknown:
  "find_sem s n = None \<Longrightarrow> sys_sem_destroy n s = Some (- EINVAL, s)"
  by (simp add: sys_sem_destroy_def cerca_sem_find)

lemma sys_sem_destroy_foreign:
  "find_sem s n = Some i \<Longrightarrow> owner (semaphores s i) \<noteq> PID (tasks s (cur s)) \<Longrightarrow>
    sys_sem_destroy n s = Some (- EPERM, s)"
  using find_sem_Some [of s n i] by (simp add: sys_sem_destroy_def cerca_sem_find Let_def)

definition release_sem :: "nat \<Rightarrow> kstate \<Rightarrow> kstate" where
  "release_sem i s = upd_sem i (\<lambda>x. x\<lparr>sem_state := FREE_SEM, n_sem := - 1, owner := 0\<rparr>) s"

lemma kinv_fewer_heads:
  assumes k: "kinv s Q" and h: "heads s' \<subseteq> heads s" and e: "links s' = links s" "cur s' = cur s"
    "idle_task s' = idle_task s" "tasks s' = tasks s"
  shows "kinv s' Q"
proof -
  have "qinv s' Q"
    using k h lq.family_restrict [OF _ h, of "links s" "tlists Q"]
    unfolding kinv_def qinv_def e by blast
  moreover have "run_inv s' Q" using k h unfolding kinv_def run_inv_def in_queue_def e by blast
  moreover have "idle_inv s' Q" using k h unfolding kinv_def idle_inv_def e by blast
  ultimately show ?thesis by (simp add: kinv_def)
qed

lemma find_sem_release:
  assumes u: "sem_unique s" and i: "find_sem s n = Some i"
  shows "find_sem (release_sem i s) m = (if m = n then None else find_sem s m)"
proof (cases "m = n")
  case True
  have "\<not> (n_sem (semaphores s j) = n \<and> sem_state (semaphores s j) = USED_SEM)"
    if "j < 20" "j \<noteq> i" for j
    using that u find_sem_Some [OF i] unfolding sem_unique_def by metis
  then have "find_sem (release_sem i s) n = None"
    unfolding find_sem_None by (auto simp: release_sem_def)
  then show ?thesis using True by simp
next
  case False
  then show ?thesis
    using find_sem_Some [OF i] by (auto simp: find_sem_def release_sem_def intro!: find_cong)
qed

text \<open>The owner destroys the semaphore: every waiting process is made ready with result -1.\<close>

lemma sys_sem_destroy_owner:
  assumes k: "kinv s Q" and v: "sem_inv s Q" and i: "find_sem s n = Some i"
    and o: "owner (semaphores s i) = PID (tasks s (cur s))"
  shows "\<exists>s'. sys_sem_destroy n s = Some (0, s') \<and> kinv s' (drain i Q) \<and> sem_inv s' (drain i Q) \<and>
    cur s' = cur s \<and> idle_task s' = idle_task s \<and> qLeft s' = qLeft s \<and> heads s' \<subseteq> heads s \<and>
    (\<forall>t. quantum (tasks s' t) = quantum (tasks s t)) \<and>
    sem_table s' (drain i Q) = (sem_table s Q)(n := None) \<and>
    (\<forall>t. sem_ret (tasks s' t) = (if t \<in> set (Q (SemQ i)) then - 1 else sem_ret (tasks s t)))"
proof -
  note fi = find_sem_Some [OF i] and hi = find_sem_heads [OF i]
  obtain s1 where s1: "unblock_all i s = Some s1" "kinv s1 (drain i Q)" "unblock_frame s s1"
    "\<forall>t. sem_ret (tasks s1 t) = (if t \<in> set (Q (SemQ i)) then - 1 else sem_ret (tasks s t))"
    using unblock_all_drains [OF k hi] by blast
  let ?s' = "release_sem i s1"
  have se: "semaphores s1 = semaphores s" and ke: "kernel_esp (tasks s1 t) = kernel_esp (tasks s t)" for t
    using s1(3) by (simp_all add: unblock_frame_def)
  have call: "sys_sem_destroy n s = Some (0, ?s')"
    using i fi o s1(1) by (simp add: sys_sem_destroy_def cerca_sem_find Let_def release_sem_def
        upd_sem_upd_sem)
  have hd: "heads ?s' \<subseteq> heads s1" by (auto simp: heads_def release_sem_def split: if_splits)
  then have kin: "kinv ?s' (drain i Q)"
    by (rule kinv_fewer_heads [OF s1(2)]) (simp_all add: release_sem_def)
  have fs: "find_sem ?s' m = (if m = n then None else find_sem s m)" for m
    using find_sem_release [of s1 n i m] v i by (simp add: sem_inv_def sem_unique_def find_sem_def se)
  have SQ: "drain i Q (SemQ j) = (if j = i then [] else Q (SemQ j))" for j by (simp add: drain_def)
  have dj: "t \<notin> set (Q (SemQ i))"
    if "j < 20" "sem_state (semaphores s j) = USED_SEM" "j \<noteq> i" "t \<in> set (Q (SemQ j))" for j t
    using qinv_disjoint [of s Q "SemQ j" "SemQ i" t] that hi k by (auto simp: SemQ_heads kinv_def)
  have sp: "semaphores ?s' j = (if j = i then (semaphores s i)\<lparr>sem_state := FREE_SEM, n_sem := - 1, owner := 0\<rparr>
      else semaphores s j)" for j
    by (simp add: release_sem_def se)
  have tk: "tasks ?s' = tasks s1" by (simp add: release_sem_def)
  have "sem_unique ?s'" using v by (auto simp: sem_inv_def sem_unique_def sp)
  moreover have "sem_waiting ?s' (drain i Q) j" if "j < 20" "sem_state (semaphores s j) = USED_SEM" "j \<noteq> i" for j
    using v that dj [OF that] s1(4) by (auto simp: sem_inv_def sem_waiting_def sp tk SQ ke)
  ultimately have "sem_inv ?s' (drain i Q)" using v by (auto simp: sem_inv_def sp)
  moreover have "sem_table ?s' (drain i Q) m = ((sem_table s Q)(n := None)) m" for m
  proof (cases "m = n")
    case False
    have "j \<noteq> i" if "find_sem s m = Some j" for j using find_sem_Some [OF that] fi False by auto
    then show ?thesis using False
      by (cases "find_sem s m") (auto simp: sem_table_def fs SQ sp)
  qed (simp add: sem_table_def fs)
  moreover have "heads ?s' \<subseteq> heads s" using hd heads_cong [OF se] by simp
  moreover have "cur ?s' = cur s" "idle_task ?s' = idle_task s" "qLeft ?s' = qLeft s"
    "quantum (tasks ?s' t) = quantum (tasks s t)" for t
    using s1(3) by (simp_all add: release_sem_def unblock_frame_def)
  ultimately show ?thesis using call kin s1(4) tk by (intro exI [of _ ?s']) auto
qed

section \<open>Reachable states\<close>

lemma sem_inv_reschedule:
  assumes k: "kinv s Q" and v: "sem_inv s Q" and f: "sched_frame s s'"
    and q: "\<And>j. Q' (SemQ j) = Q (SemQ j)"
    and e: "\<And>u. u \<noteq> cur s \<Longrightarrow> kernel_esp (tasks s' u) = kernel_esp (tasks s u)"
  shows "sem_inv s' Q'"
proof (rule sem_inv_cong [OF v])
  fix j t assume "j < 20" "sem_state (semaphores s j) = USED_SEM" "t \<in> set (Q (SemQ j))"
  then have "t \<noteq> cur s" using kinv_running_not_queued [OF k, of "SemQ j"] by (auto simp: SemQ_heads)
  then show "sem_ret (tasks s' t) = sem_ret (tasks s t) \<and> kernel_esp (tasks s' t) = kernel_esp (tasks s t)"
    using f e by (simp add: sched_frame_def)
qed (use f q in \<open>auto simp: sched_frame_def\<close>)

text \<open>The tasks that run, wait or are ready, and the idle one.\<close>

definition active :: "kstate \<Rightarrow> (ptr \<Rightarrow> nat list) \<Rightarrow> nat set" where
  "active s Q = {cur s} \<union> set_option (idle_task s) \<union> (\<Union>q\<in>heads s - {FreeQ}. set (Q q))"

definition quanta_ok :: "kstate \<Rightarrow> (ptr \<Rightarrow> nat list) \<Rightarrow> bool" where
  "quanta_ok s Q \<longleftrightarrow> 1 \<le> qLeft s \<and> qLeft s < 2 ^ 31 \<and>
     (\<forall>t\<in>active s Q. 1 \<le> quantum (tasks s t) \<and> quantum (tasks s t) < 2 ^ 31)"

lemma quanta_ok_step:
  assumes "quanta_ok s Q" "active s' Q' \<subseteq> active s Q" "\<And>t. quantum (tasks s' t) = quantum (tasks s t)"
    and "1 \<le> qLeft s'" "qLeft s' < 2 ^ 31"
  shows "quanta_ok s' Q'"
  using assms by (auto simp: quanta_ok_def)

text \<open>
  What the operations of a running system keep: the invariants hold again, for queues with the same
  free descriptors and with no process that was not active before.
\<close>

definition keeps :: "kstate \<Rightarrow> (ptr \<Rightarrow> nat list) \<Rightarrow> kstate \<Rightarrow> bool" where
  "keeps s Q s' \<longleftrightarrow> (\<exists>Q'. kinv s' Q' \<and> sem_inv s' Q' \<and> quanta_ok s' Q' \<and> Q' FreeQ = Q FreeQ \<and>
     active s' Q' \<subseteq> active s Q \<and> idle_task s' = idle_task s)"

lemma keepsI:
  "kinv s' Q' \<Longrightarrow> sem_inv s' Q' \<Longrightarrow> active s' Q' \<subseteq> active s Q \<Longrightarrow> Q' FreeQ = Q FreeQ \<Longrightarrow>
    idle_task s' = idle_task s \<Longrightarrow> quanta_ok s Q \<Longrightarrow> (\<And>t. quantum (tasks s' t) = quantum (tasks s t)) \<Longrightarrow>
    1 \<le> qLeft s' \<Longrightarrow> qLeft s' < 2 ^ 31 \<Longrightarrow> keeps s Q s'"
  unfolding keeps_def using quanta_ok_step by metis

lemma keeps_refl: "kinv s Q \<Longrightarrow> sem_inv s Q \<Longrightarrow> quanta_ok s Q \<Longrightarrow> keeps s Q s"
  by (auto simp: keeps_def)

text \<open>The queues the process movements give hold no task that was not active.\<close>

lemma active_leave_pop:
  assumes h: "heads s' = heads s" and i: "idle_task s' = idle_task s"
    and d: "dst \<in> heads s" "dst \<noteq> FreeQ" and c: "cur s' = next_task s (leave_to dst (cur s) Q)"
    and idl: "idle_task s \<noteq> None"
  shows "active s' (pop_ready (leave_to dst (cur s) Q)) \<subseteq> active s Q"
proof -
  let ?Q = "leave_to dst (cur s) Q"
  have sub: "set (?Q q) \<subseteq> active s Q" if "q \<in> heads s" "q \<noteq> FreeQ" for q
    using that d by (auto simp: leave_to_def active_def)
  have "set (pop_ready ?Q q) \<subseteq> set (?Q q)" for q
    by (auto simp: pop_ready_def dest: subsetD [OF set_tl_subset])
  moreover have "cur s' \<in> active s Q"
  proof (cases "?Q ReadyQ")
    case Nil
    then show ?thesis using c idl by (auto simp: next_task_def active_def)
  next
    case (Cons t ts)
    then show ?thesis using sub [of ReadyQ] c by (simp add: next_task_def)
  qed
  moreover have "set_option (idle_task s) \<subseteq> active s Q" by (auto simp: active_def)
  ultimately show ?thesis using sub unfolding active_def [of s'] h i by blast
qed

lemma active_wake:
  assumes h: "heads s' = heads s" "idle_task s' = idle_task s" "cur s' = cur s"
    and q: "q \<in> heads s" "q \<noteq> FreeQ" "Q q = t # ts"
  shows "active s' (wake q Q) \<subseteq> active s Q"
proof -
  have sub: "set (Q r) \<subseteq> active s Q" if "r \<in> heads s" "r \<noteq> FreeQ" for r
    using that by (auto simp: active_def)
  have "set (wake q Q r) \<subseteq> active s Q" if "r \<in> heads s" "r \<noteq> FreeQ" for r
    using sub [OF q(1,2)] sub [OF that] sub [of ReadyQ] q(3) by (auto simp: wake_def)
  moreover have "insert (cur s) (set_option (idle_task s)) \<subseteq> active s Q" by (auto simp: active_def)
  ultimately show ?thesis unfolding active_def [of s'] h by blast
qed

lemma pop_ready_SemQ: "pop_ready Q (SemQ j) = Q (SemQ j)"
  by (simp add: pop_ready_def)

lemma kinv_idle_Some: "kinv s Q \<Longrightarrow> idle_task s \<noteq> None"
  by (auto simp: kinv_def idle_inv_def)

lemma quanta_cur: "quanta_ok s Q \<Longrightarrow> 1 \<le> quantum (tasks s (cur s)) \<and> quantum (tasks s (cur s)) < 2 ^ 31"
  by (simp add: quanta_ok_def active_def)

lemma schedule_keeps:
  assumes k: "kinv s Q" and v: "sem_inv s Q" and q: "quanta_ok s Q"
  shows "\<exists>s'. schedule s = Some s' \<and> keeps s Q s'"
proof -
  have l: "1 \<le> qLeft s" "qLeft s < 2 ^ 31" using q by (simp_all add: quanta_ok_def)
  show ?thesis
  proof (cases "qLeft s = 1")
    case False
    let ?s' = "s\<lparr>qLeft := qLeft s - 1\<rparr>"
    have "schedule s = Some ?s'" using False l by (intro schedule_runs_on) auto
    have "sem_inv ?s' Q" by (rule sem_inv_reschedule [OF k v sched_frame_qLeft]) simp_all
    then have "keeps s Q ?s'"
      using k q False l by (intro keepsI [of _ Q]) (auto simp: active_def heads_def)
    then show ?thesis using \<open>schedule s = Some ?s'\<close> by blast
  next
    case True
    show ?thesis
    proof (cases "Q ReadyQ")
      case Nil
      obtain s' where s': "schedule s = Some s'" "kinv s' Q" "cur s' = cur s" "sched_frame s s'"
        "qLeft s' = quantum (tasks s (cur s))" "\<forall>u. kernel_esp (tasks s' u) = kernel_esp (tasks s u)"
        using schedule_renews [OF k True Nil] by blast
      have "sem_inv s' Q" by (rule sem_inv_reschedule [OF k v s'(4)]) (use s'(6) in simp_all)
      moreover have "heads s' = heads s" using s'(4) by (intro heads_cong) (simp add: sched_frame_def)
      ultimately have "keeps s Q s'" using s' q quanta_cur [OF q]
        by (intro keepsI [of _ Q]) (auto simp: active_def sched_frame_def)
      then show ?thesis using s'(1) by blast
    next
      case (Cons t ts)
      let ?Q = "Q(ReadyQ := ts @ [cur s])"
      obtain s' where s': "schedule s = Some s'" "kinv s' ?Q" "cur s' = t" "sched_frame s s'"
        "qLeft s' = quantum (tasks s (cur s))"
        "\<forall>u. kernel_esp (tasks s' u) = (if u = cur s then SwitchFrame K_schedule else kernel_esp (tasks s u))"
        using schedule_rotates [OF k True Cons] by blast
      have "sem_inv s' ?Q" by (rule sem_inv_reschedule [OF k v s'(4)]) (use s'(6) in simp_all)
      moreover have "heads s' = heads s" "idle_task s' = idle_task s"
        using s'(4) heads_cong [of s' s] by (simp_all add: sched_frame_def)
      moreover have "?Q = pop_ready (leave_to ReadyQ (cur s) Q)"
        using Cons by (simp add: pop_ready_def leave_to_def)
      ultimately have "active s' ?Q \<subseteq> active s Q"
        using s'(3) active_leave_pop [of s' s ReadyQ Q] kinv_idle_Some [OF k] Cons
        by (simp add: next_task_def leave_to_def)
      then have "keeps s Q s'"
        using s'(2,4,5) \<open>sem_inv s' ?Q\<close> q quanta_cur [OF q] by (intro keepsI [of _ ?Q]) (auto simp: sched_frame_def)
      then show ?thesis using s'(1) by blast
    qed
  qed
qed

text \<open>The semaphore calls never crash, the creation of a 21st semaphore apart, and keep the invariant.\<close>

lemma sys_sem_signal_keeps:
  assumes k: "kinv s Q" and v: "sem_inv s Q" and q: "quanta_ok s Q"
  shows "\<exists>r s'. sys_sem_signal n s = Some (r, s') \<and> keeps s Q s'"
proof (cases "find_sem s n")
  case None
  then show ?thesis using sys_sem_signal_unknown [OF None] keeps_refl [OF k v q] by auto
next
  case (Some i)
  show ?thesis
  proof (cases "Q (SemQ i)")
    case Nil
    obtain s' where s': "sys_sem_signal n s = Some (0, s')" "kinv s' Q" "sem_inv s' Q"
      "s' = upd_sem i (counter_update (\<lambda>c. i32 (c + 1))) s"
      using sys_sem_signal_counts [OF k v Some Nil] by blast
    have "keeps s Q s'" using s'(2,3) q unfolding s'(4)
      by (intro keepsI [of _ Q]) (auto simp: active_def heads_def quanta_ok_def)
    then show ?thesis using s'(1) by blast
  next
    case (Cons t ts)
    obtain h where h: "sys_sem_signal n s = Some (0, requeued t h ST_READY s)"
      "kinv (requeued t h ST_READY s) (wake (SemQ i) Q)"
      "sem_inv (requeued t h ST_READY s) (wake (SemQ i) Q)"
      using sys_sem_signal_wakes [OF k v Some Cons] by blast
    have "keeps s Q (requeued t h ST_READY s)"
      using h(2,3) q active_wake [of "requeued t h ST_READY s" s "SemQ i" Q t ts] find_sem_heads [OF Some] Cons
      by (intro keepsI [of _ "wake (SemQ i) Q"]) (auto simp: quanta_ok_def wake_def)
    then show ?thesis using h(1) by blast
  qed
qed

lemma sys_sem_wait_keeps:
  assumes k: "kinv s Q" and v: "sem_inv s Q" and q: "quanta_ok s Q" and ni: "idle_task s \<noteq> Some (cur s)"
  shows "\<exists>out s'. sys_sem_wait n s = Some (out, s') \<and> keeps s Q s'"
proof (cases "find_sem s n")
  case None
  then show ?thesis using sys_sem_wait_unknown [OF None] keeps_refl [OF k v q] by auto
next
  case (Some i)
  show ?thesis
  proof (cases "0 < counter (semaphores s i)")
    case True
    obtain s' where s': "sys_sem_wait n s = Some (Ret 0, s')" "kinv s' Q" "sem_inv s' Q"
      using sys_sem_wait_takes [OF k v Some True] by blast
    then have e: "s' = upd_sem i (counter_update (\<lambda>c. i32 (c - 1))) (upd_task (cur s) (sem_ret_update (\<lambda>_. 0)) s)"
      using Some True find_sem_Some [OF Some] by (simp add: sys_sem_wait_def cerca_sem_find Let_def)
    have "heads s' = heads s" unfolding e by (auto simp: heads_def)
    then have "keeps s Q s'"
      using s'(2,3) q unfolding e by (intro keepsI [of _ Q]) (auto simp: active_def quanta_ok_def)
    then show ?thesis using s'(1) by blast
  next
    case False
    let ?s1 = "upd_task (cur s) (sem_ret_update (\<lambda>_. 0)) s" and ?Q = "leave_to (SemQ i) (cur s) Q"
    note hi = find_sem_heads [OF Some]
    have k1: "kinv ?s1 Q" using k by (simp add: kinv_sem_ret)
    obtain s2 s' where s': "exitRunCurrent (SemQ i) ?s1 = Some s2" "sched_next_rr K_sem_wait s2 = Some s'"
      "kinv s' (pop_ready ?Q)" "sched_frame ?s1 s'" "cur s' = next_task ?s1 ?Q"
      "qLeft s' = (if ?Q ReadyQ = [] then qLeft s else quantum (tasks s (cur s)))"
      using leave_and_next [OF k1, of "SemQ i" K_sem_wait] hi ni by auto
    have call: "sys_sem_wait n s = Some (Switched, s')"
      using Some False find_sem_Some [OF Some] s'(1,2)
      by (simp add: sys_sem_wait_def cerca_sem_find Let_def)
    then have "sem_inv s' (pop_ready ?Q)"
      using sys_sem_wait_blocks [OF k v Some _ ni] False by auto
    moreover have h: "heads s' = heads s" "idle_task s' = idle_task s"
      using s'(4) heads_cong [of s' s] by (simp_all add: sched_frame_def)
    moreover have "active s' (pop_ready ?Q) \<subseteq> active s Q"
      using active_leave_pop [OF h hi] s'(5) kinv_idle_Some [OF k] by (simp add: next_task_def)
    moreover have "pop_ready ?Q FreeQ = Q FreeQ" by (simp add: pop_ready_def leave_to_def)
    ultimately have "keeps s Q s'"
      using q quanta_cur [OF q] s'(3,4,6) h(2)
      by (intro keepsI [of _ "pop_ready ?Q"]) (auto simp: sched_frame_def quanta_ok_def)
    then show ?thesis using call by blast
  qed
qed

lemma sys_sem_init_keeps:
  assumes k: "kinv s Q" and v: "sem_inv s Q" and q: "quanta_ok s Q"
  shows "sys_sem_init n x s = None \<and> find_sem s n = None \<and> find_free s = None \<or>
    (\<exists>r s'. sys_sem_init n x s = Some (r, s') \<and> keeps s Q s')"
proof (cases "find_sem s n")
  case None
  show ?thesis
  proof (cases "find_free s")
    case (Some i)
    let ?s' = "new_sem i n x s" and ?Q = "Q(SemQ i := [])"
    have "active ?s' ?Q \<subseteq> active s Q"
      using find_free_Some [OF Some] by (auto simp: active_def heads_new_sem split: if_splits)
    moreover have "qLeft ?s' = qLeft s" by (simp add: new_sem_def upd_sem_def)
    ultimately have "keeps s Q ?s'"
      using q sys_sem_init_new [OF k v None Some, of x] by (intro keepsI [of _ ?Q]) (auto simp: quanta_ok_def)
    then show ?thesis using sys_sem_init_new [OF k v None Some, of x] by blast
  qed (use None sys_sem_init_full in blast)
next
  case (Some i)
  then show ?thesis using sys_sem_init_busy [OF Some] keeps_refl [OF k v q] by auto
qed

lemma sys_sem_destroy_keeps:
  assumes k: "kinv s Q" and v: "sem_inv s Q" and q: "quanta_ok s Q"
  shows "\<exists>r s'. sys_sem_destroy n s = Some (r, s') \<and> keeps s Q s'"
proof (cases "find_sem s n")
  case None
  then show ?thesis using sys_sem_destroy_unknown [OF None] keeps_refl [OF k v q] by auto
next
  case (Some i)
  note hi = find_sem_heads [OF Some]
  show ?thesis
  proof (cases "owner (semaphores s i) = PID (tasks s (cur s))")
    case True
    obtain s' where s': "sys_sem_destroy n s = Some (0, s')" "kinv s' (drain i Q)"
      "sem_inv s' (drain i Q)" "cur s' = cur s" "idle_task s' = idle_task s" "qLeft s' = qLeft s"
      "heads s' \<subseteq> heads s" "\<forall>t. quantum (tasks s' t) = quantum (tasks s t)"
      using sys_sem_destroy_owner [OF k v Some True] by blast
    have sub: "set (Q r) \<subseteq> active s Q" if "r \<in> heads s" "r \<noteq> FreeQ" for r
      using that by (auto simp: active_def)
    have "set (drain i Q r) \<subseteq> active s Q" if "r \<in> heads s" "r \<noteq> FreeQ" for r
      using sub [OF hi] sub [OF that] sub [of ReadyQ] by (auto simp: drain_def)
    moreover have "insert (cur s) (set_option (idle_task s)) \<subseteq> active s Q" by (auto simp: active_def)
    ultimately have "active s' (drain i Q) \<subseteq> active s Q"
      using s'(7) unfolding active_def [of s'] s'(4,5) by blast
    then have "keeps s Q s'"
      using q s'(2,3,5,6,8) by (intro keepsI [of _ "drain i Q"]) (auto simp: quanta_ok_def drain_def)
    then show ?thesis using s'(1) by blast
  next
    case False
    then show ?thesis using sys_sem_destroy_foreign [OF Some False] keeps_refl [OF k v q] by auto
  qed
qed

section \<open>The abstract semaphores\<close>

text \<open>
  What the calls promise, on the table of semaphores: the value returned (\<^term>\<open>None\<close> when the
  caller blocks), the new table, and the processes made ready.
\<close>

definition abs_signal :: "int \<Rightarrow> sem_table \<Rightarrow> int \<times> sem_table \<times> nat list" where
  "abs_signal n T =
     (case T n of
        None \<Rightarrow> (- EINVAL, T, [])
      | Some (p, c, []) \<Rightarrow> (0, T(n \<mapsto> (p, i32 (c + 1), [])), [])
      | Some (p, c, t # ts) \<Rightarrow> (0, T(n \<mapsto> (p, c, ts)), [t]))"

definition abs_wait :: "nat \<Rightarrow> int \<Rightarrow> sem_table \<Rightarrow> int option \<times> sem_table" where
  "abs_wait me n T =
     (case T n of
        None \<Rightarrow> (Some (- EINVAL), T)
      | Some (p, c, ts) \<Rightarrow>
          if 0 < c then (Some 0, T(n \<mapsto> (p, c - 1, ts))) else (None, T(n \<mapsto> (p, c, ts @ [me]))))"

definition abs_init :: "int \<Rightarrow> int \<Rightarrow> u32 \<Rightarrow> sem_table \<Rightarrow> int \<times> sem_table" where
  "abs_init pid n v T =
     (if T n \<noteq> None then (- EBUSY, T) else (0, T(n \<mapsto> (pid, i32 (uint v), []))))"

definition abs_destroy :: "int \<Rightarrow> int \<Rightarrow> sem_table \<Rightarrow> int \<times> sem_table \<times> nat list" where
  "abs_destroy pid n T =
     (case T n of
        None \<Rightarrow> (- EINVAL, T, [])
      | Some (p, c, ts) \<Rightarrow> if p \<noteq> pid then (- EPERM, T, []) else (0, T(n := None), ts))"

lemma sem_table_None: "find_sem s n = None \<Longrightarrow> sem_table s Q n = None"
  by (simp add: sem_table_def)

lemma sem_table_Some:
  "find_sem s n = Some i \<Longrightarrow>
    sem_table s Q n = Some (owner (semaphores s i), counter (semaphores s i), Q (SemQ i))"
  by (simp add: sem_table_def)

lemma sem_table_queue:
  "sem_inv s Q \<Longrightarrow> find_sem s n = Some i \<Longrightarrow> 0 < counter (semaphores s i) \<Longrightarrow> Q (SemQ i) = []"
  using find_sem_Some [of s n i] by (fastforce simp: sem_inv_def sem_waiting_def)

lemma sys_sem_signal_refines:
  assumes k: "kinv s Q" and v: "sem_inv s Q" and a: "abs_signal n (sem_table s Q) = (r, T, ws)"
  shows "\<exists>s' Q'. sys_sem_signal n s = Some (r, s') \<and> kinv s' Q' \<and> sem_inv s' Q' \<and> sem_table s' Q' = T \<and>
    Q' ReadyQ = Q ReadyQ @ ws \<and> cur s' = cur s"
proof (cases "find_sem s n")
  case None
  then have "r = - EINVAL" "T = sem_table s Q" "ws = []"
    using a by (simp_all add: abs_signal_def sem_table_None)
  then show ?thesis using k v None sys_sem_signal_unknown [OF None] by auto
next
  case (Some i)
  show ?thesis
  proof (cases "Q (SemQ i)")
    case Nil
    then have "r = 0" "T = (sem_table s Q)(n \<mapsto> (owner (semaphores s i), i32 (counter (semaphores s i) + 1), []))"
        "ws = []"
      using a by (auto simp: abs_signal_def sem_table_Some [OF Some])
    then show ?thesis using sys_sem_signal_counts [OF k v Some Nil] by (auto intro!: exI [of _ Q])
  next
    case (Cons t ts)
    then have "r = 0" "T = (sem_table s Q)(n \<mapsto> (owner (semaphores s i), counter (semaphores s i), ts))" "ws = [t]"
      using a by (auto simp: abs_signal_def sem_table_Some [OF Some])
    moreover have "wake (SemQ i) Q ReadyQ = Q ReadyQ @ [t]" using Cons by (simp add: wake_def)
    ultimately show ?thesis using sys_sem_signal_wakes [OF k v Some Cons] requeued_simps(1) by metis
  qed
qed

lemma sys_sem_wait_refines:
  assumes k: "kinv s Q" and v: "sem_inv s Q" and ni: "idle_task s \<noteq> Some (cur s)"
    and a: "abs_wait (cur s) n (sem_table s Q) = (r, T)"
  shows "\<exists>s' Q'. sys_sem_wait n s = Some (case r of Some x \<Rightarrow> Ret x | None \<Rightarrow> Switched, s') \<and>
    kinv s' Q' \<and> sem_inv s' Q' \<and> sem_table s' Q' = T \<and>
    cur s' = (case r of Some x \<Rightarrow> cur s | None \<Rightarrow> next_task s Q)"
proof (cases "find_sem s n")
  case None
  then have "r = Some (- EINVAL)" "T = sem_table s Q"
    using a by (simp_all add: abs_wait_def sem_table_None)
  then show ?thesis using k v sys_sem_wait_unknown [OF None] by auto
next
  case (Some i)
  show ?thesis
  proof (cases "0 < counter (semaphores s i)")
    case True
    have "Q (SemQ i) = []" by (rule sem_table_queue [OF v Some True])
    then have "r = Some 0" "T = (sem_table s Q)(n \<mapsto> (owner (semaphores s i), counter (semaphores s i) - 1, []))"
      using a True by (auto simp: abs_wait_def sem_table_Some [OF Some])
    then show ?thesis using sys_sem_wait_takes [OF k v Some True] by auto
  next
    case False
    then have "r = None" "T = (sem_table s Q)(n \<mapsto>
        (owner (semaphores s i), counter (semaphores s i), Q (SemQ i) @ [cur s]))"
      using a by (auto simp: abs_wait_def sem_table_Some [OF Some])
    moreover have "counter (semaphores s i) \<le> 0" using False by simp
    ultimately show ?thesis using sys_sem_wait_blocks [OF k v Some _ ni] by auto
  qed
qed

lemma sys_sem_init_refines:
  assumes k: "kinv s Q" and v: "sem_inv s Q" and f: "find_free s \<noteq> None"
    and a: "abs_init (PID (tasks s (cur s))) n x (sem_table s Q) = (r, T)"
  shows "\<exists>s' Q'. sys_sem_init n x s = Some (r, s') \<and> kinv s' Q' \<and> sem_inv s' Q' \<and> sem_table s' Q' = T \<and>
    cur s' = cur s"
proof (cases "find_sem s n")
  case None
  obtain i where i: "find_free s = Some i" using f by auto
  have "r = 0" "T = (sem_table s Q)(n \<mapsto> (PID (tasks s (cur s)), i32 (uint x), []))"
    using a None by (simp_all add: abs_init_def sem_table_None)
  then show ?thesis using sys_sem_init_new [OF k v None i] by auto
next
  case (Some i)
  then have "r = - EBUSY" "T = sem_table s Q" using a by (simp_all add: abs_init_def sem_table_Some)
  then show ?thesis using k v sys_sem_init_busy [OF Some] by auto
qed

lemma sys_sem_destroy_refines:
  assumes k: "kinv s Q" and v: "sem_inv s Q"
    and a: "abs_destroy (PID (tasks s (cur s))) n (sem_table s Q) = (r, T, ws)"
  shows "\<exists>s' Q'. sys_sem_destroy n s = Some (r, s') \<and> kinv s' Q' \<and> sem_inv s' Q' \<and> sem_table s' Q' = T \<and>
    Q' ReadyQ = Q ReadyQ @ ws \<and> cur s' = cur s \<and>
    (\<forall>t. sem_ret (tasks s' t) = (if t \<in> set ws then - 1 else sem_ret (tasks s t)))"
proof (cases "find_sem s n")
  case None
  then have "r = - EINVAL" "T = sem_table s Q" "ws = []"
    using a by (simp_all add: abs_destroy_def sem_table_None)
  then show ?thesis using k v sys_sem_destroy_unknown [OF None] by auto
next
  case (Some i)
  show ?thesis
  proof (cases "owner (semaphores s i) = PID (tasks s (cur s))")
    case True
    then have "r = 0" "T = (sem_table s Q)(n := None)" "ws = Q (SemQ i)"
      using a by (auto simp: abs_destroy_def sem_table_Some [OF Some])
    moreover have "drain i Q ReadyQ = Q ReadyQ @ Q (SemQ i)" by (simp add: drain_def)
    ultimately show ?thesis using sys_sem_destroy_owner [OF k v Some True] by (auto intro!: exI [of _ "drain i Q"])
  next
    case False
    then have "r = - EPERM" "T = sem_table s Q" "ws = []"
      using a by (auto simp: abs_destroy_def sem_table_Some [OF Some])
    then show ?thesis using k v sys_sem_destroy_foreign [OF Some False] by auto
  qed
qed

end
