(* ===== verification/Process.thy ===== *)
theory Process
  imports Semaphores
begin

text \<open>
  The process system calls of \<open>sys.c\<close>: \<open>sys_fork\<close>, \<open>sys_clone\<close>, \<open>sys_exit\<close>, \<open>sys_get_stats\<close>
  and the small ones. \<open>copy_data\<close> on a \<open>union task_union\<close> copies the descriptor, the stack and
  the field \<open>list\<close>; \<open>ebp\<close> is the index in the kernel stack of the word \<open>getEbp\<close> points to. The
  translation is the one of the page tables at the time of the access (the TLB is not modelled).
\<close>

section \<open>The code\<close>

definition sys_ni_syscall :: int where
  "sys_ni_syscall = - ENOSYS"

definition sys_getpid :: "kstate \<Rightarrow> int" where
  "sys_getpid s = PID (tasks s (cur s))"

definition sys_gettime :: "kstate \<Rightarrow> int" where
  "sys_gettime s = zeos_ticks s"

definition ret_from_fork :: int where
  "ret_from_fork = 0"

definition copy_union :: "nat \<Rightarrow> nat \<Rightarrow> kstate \<Rightarrow> kstate" where
  "copy_union src dst s =
     s\<lparr>tasks := (tasks s)(dst := tasks s src), kstack := (kstack s)(dst := kstack s src),
       links := (links s)(TaskL dst := links s (TaskL src))\<rparr>"

text \<open>The page loops of \<open>sys_fork\<close>: the kernel and code pages are shared.\<close>

definition share_pages :: "nat \<Rightarrow> nat \<Rightarrow> nat \<Rightarrow> nat \<Rightarrow> tables \<Rightarrow> tables" where
  "share_pages new parent base n pt =
     foldl (\<lambda>pt i. pt(new + (base + i) := pt (parent + (base + i)))) pt [0..<n]"

text \<open>
  The data pages are copied through a temporary mapping in the parent's table; \<open>fs\<close> is
  \<open>framesNew[0..i-1]\<close>. The result is whether the loop got to its end.
\<close>

function fork_data_pages :: "nat \<Rightarrow> nat \<Rightarrow> int list \<Rightarrow> nat \<Rightarrow> kstate \<Rightarrow> (bool \<times> kstate) option" where
  "fork_data_pages new parent fs i s =
     (if i < NUM_PAG_DATA then
        (let (f, pm) = alloc_frame (phys_mem s) in
         if f < 0 then
           Some (False, s\<lparr>phys_mem := foldl (\<lambda>pm j. free_frame pm (word_of_int (fs ! j))) pm (rev [0..<i])\<rparr>)
         else
           (let s1 = s\<lparr>phys_mem := pm\<rparr>;
                s2 = s1\<lparr>pagusr_table := set_ss_pag (pagusr_table s1) new (PAG_LOG_INIT_DATA + i) (word_of_int f)\<rparr>;
                s3 = s2\<lparr>pagusr_table := set_ss_pag (pagusr_table s2) parent
                       (PAG_LOG_INIT_DATA + NUM_PAG_DATA + i) (word_of_int f)\<rparr>
            in do {
                 m \<leftarrow> copy_data (kmmu s3) (memory s3) (of_nat ((PAG_LOG_INIT_DATA + i) * 4096))
                       (of_nat ((PAG_LOG_INIT_DATA + NUM_PAG_DATA + i) * 4096)) (int PAGE_SIZE);
                 let s4 = s3\<lparr>memory := m\<rparr>;
                 fork_data_pages new parent (fs @ [f]) (Suc i)
                   (s4\<lparr>pagusr_table := del_ss_pag (pagusr_table s4) parent (PAG_LOG_INIT_DATA + NUM_PAG_DATA + i)\<rparr>)
               }))
      else Some (True, s))"
  by pat_completeness auto
termination by (relation "measure (\<lambda>(new, parent, fs, i, s). NUM_PAG_DATA - i)") auto

declare fork_data_pages.simps [simp del]

definition sys_fork :: "nat \<Rightarrow> kstate \<Rightarrow> (int \<times> kstate) option" where
  "sys_fork ebp s =
     (if list_empty (links s) FreeQ then Some (- ENOMEM, s)
      else
        do {
          list_aux \<leftarrow> list_first (links s) FreeQ;
          h1 \<leftarrow> list_del (links s) list_aux;
          new \<leftarrow> list_head_to_task_struct list_aux;
          let s1 = copy_union (cur s) new (s\<lparr>links := h1\<rparr>);
          let (r, s2) = allocate_DIR s1 new;
          if r < 0 then Some (- ENOMEM, s2)
          else
            do {
              pageNew \<leftarrow> PT_of s2 new;
              pageParent \<leftarrow> PT_of s2 (cur s2);
              let s3 = s2\<lparr>pagusr_table := share_pages pageNew pageParent 1 NUM_PAG_KERNEL (pagusr_table s2)\<rparr>;
              let s4 = s3\<lparr>pagusr_table :=
                share_pages pageNew pageParent PAG_LOG_INIT_CODE NUM_PAG_CODE (pagusr_table s3)\<rparr>;
              (ok, s5) \<leftarrow> fork_data_pages pageNew pageParent [] 0 s4;
              if \<not> ok then Some (- ENOMEM, s5)
              else
                do {
                  let s6 = s5\<lparr>cr3 := get_DIR s5 (cur s5)\<rparr>;
                  let s7 = upd_task new (PID_update (\<lambda>_. incrementalPID s6)) s6;
                  let s8 = s7\<lparr>incrementalPID := i32 (incrementalPID s7 + 1)\<rparr>;
                  let s9 = upd_task new (estado_update (\<lambda>_. ST_READY)) s8;
                  let s10 = upd_stats new init_stats s9;
                  let i = ebp;
                  let s11 = s10\<lparr>kstack := (kstack s10)(new :=
                    (kstack s10 new)(i := Code Ret_from_fork, i - 1 := Data 0))\<rparr>;
                  let s12 = upd_task new (kernel_esp_update (\<lambda>_. StackIx (i - 1))) s11;
                  h2 \<leftarrow> list_add_tail (links s12) list_aux ReadyQ;
                  let s13 = s12\<lparr>links := h2\<rparr>;
                  Some (PID (tasks s13 new), s13)
                }
            }
        })"

definition sys_clone :: "nat \<Rightarrow> u32 \<Rightarrow> u32 \<Rightarrow> kstate \<Rightarrow> (int \<times> kstate) option" where
  "sys_clone ebp function_addr stack s =
     (if access_ok VERIFY_WRITE stack 4 = 0 \<or> access_ok VERIFY_READ function_addr 4 = 0
      then Some (- EFAULT, s)
      else if list_empty (links s) FreeQ then Some (- ENOMEM, s)
      else
        do {
          freePCB \<leftarrow> list_first (links s) FreeQ;
          h1 \<leftarrow> list_del (links s) freePCB;
          new \<leftarrow> list_head_to_task_struct freePCB;
          let s1 = copy_union (cur s) new (s\<lparr>links := h1\<rparr>);
          let d = n_directorio (tasks s1 (cur s1));
          let s2 = s1\<lparr>refs_DIR := (refs_DIR s1)(d := i32 (refs_DIR s1 d + 1))\<rparr>;
          let s3 = upd_task new (kernel_esp_update (\<lambda>_. StackIx ebp)) s2;
          let s4 = s3\<lparr>kstack := (kstack s3)(new := (kstack s3 new)
            (KERNEL_STACK_SIZE - 2 := Data stack, KERNEL_STACK_SIZE - 5 := Data function_addr))\<rparr>;
          let s5 = upd_task new (PID_update (\<lambda>_. incrementalPID s4)) s4;
          let s6 = s5\<lparr>incrementalPID := i32 (incrementalPID s5 + 1)\<rparr>;
          let s7 = upd_task new (estado_update (\<lambda>_. ST_READY)) s6;
          h2 \<leftarrow> list_add_tail (links s7) (TaskL new) ReadyQ;
          let s8 = s7\<lparr>links := h2\<rparr>;
          let s9 = upd_stats new init_stats s8;
          Some (PID (tasks s9 new), s9)
        })"

text \<open>\<open>sys_exit\<close>: the last user of a directory gives its data frames back.\<close>

definition release_data_pages :: "nat \<Rightarrow> kstate \<Rightarrow> kstate" where
  "release_data_pages pt s =
     foldl (\<lambda>s p.
        let s1 = s\<lparr>phys_mem := free_frame (phys_mem s) (get_frame (pagusr_table s) pt (PAG_LOG_INIT_DATA + p))\<rparr>
        in s1\<lparr>pagusr_table := del_ss_pag (pagusr_table s1) pt (PAG_LOG_INIT_DATA + p)\<rparr>)
       s [0..<NUM_PAG_DATA]"

fun destroy_owned :: "nat list \<Rightarrow> kstate \<Rightarrow> kstate option" where
  "destroy_owned [] s = Some s"
| "destroy_owned (i # is) s =
     (if owner (semaphores s i) = PID (tasks s (cur s))
      then do { (_, s') \<leftarrow> sys_sem_destroy (n_sem (semaphores s i)) s; destroy_owned is s' }
      else destroy_owned is s)"

definition sys_exit :: "kstate \<Rightarrow> kstate option" where
  "sys_exit s =
     do {
       let d = get_DIR_position s (cur s);
       let s1 = s\<lparr>refs_DIR := (refs_DIR s)(d := i32 (refs_DIR s d - 1))\<rparr>;
       s2 \<leftarrow> (if refs_DIR s1 (get_DIR_position s1 (cur s1)) = 0
              then do { pt \<leftarrow> PT_of s1 (cur s1); Some (release_data_pages pt s1) }
              else Some s1);
       h \<leftarrow> list_add_tail (links s2) (TaskL (cur s2)) FreeQ;
       s4 \<leftarrow> destroy_owned [0..<20] (s2\<lparr>links := h\<rparr>);
       let s5 = upd_task (cur s4) (PID_update (\<lambda>_. - 1)) s4;
       s6 \<leftarrow> update_process_state_rr (cur s5) (Some FreeQ) s5;
       sched_next_rr K_exit s6
     }"

text \<open>
  \<open>sys_get_stats\<close>. The seven words of \<open>struct stats\<close> go to the user block, then \<open>qLeft\<close> is
  written over the last one.
\<close>

definition stats_words :: "stats \<Rightarrow> u32 list" where
  "stats_words st = [user_ticks st, system_ticks st, blocked_ticks st, ready_ticks st,
     elapsed_total_ticks st, total_trans st, remaining_ticks st]"

fun store_words :: "mmu \<Rightarrow> mem \<Rightarrow> u32 \<Rightarrow> u32 list \<Rightarrow> mem option" where
  "store_words tr m a [] = Some m"
| "store_words tr m a (w # ws) = do { m' \<leftarrow> store32 tr m a w; store_words tr m' (a + 4) ws }"

definition sys_get_stats :: "int \<Rightarrow> u32 \<Rightarrow> kstate \<Rightarrow> (int \<times> kstate) option" where
  "sys_get_stats pid st s =
     (if pid < 0 then Some (- EINVAL, s)
      else if access_ok VERIFY_WRITE st 28 = 0 then Some (- EFAULT, s)
      else
        (case find (\<lambda>i. PID (tasks s i) = pid) [0..<NR_TASKS] of
           Some i \<Rightarrow>
             do {
               m1 \<leftarrow> store_words (kmmu s) (memory s) st (stats_words (estadisticas (tasks s i)));
               m2 \<leftarrow> store32 (kmmu s) m1 (st + 24) (word_of_int (qLeft s));
               Some (0, s\<lparr>memory := m2\<rparr>)
             }
         | None \<Rightarrow> Some (- ESRCH, s)))"

section \<open>Copying the data pages\<close>

definition data_frame :: "tables \<Rightarrow> nat \<Rightarrow> nat \<Rightarrow> nat" where
  "data_frame pt d i = unat (pte_pbase (pt (d * 1024 + (264 + i))))"

text \<open>
  What the copy loop needs: the parent runs with directory \<open>dp\<close>, which points to its table; its
  20 data pages are mapped to frames that are not free; the child has another directory \<open>dn\<close>.
\<close>

definition fork_ctx :: "nat \<Rightarrow> nat \<Rightarrow> kstate \<Rightarrow> bool" where
  "fork_ctx dn dp s \<longleftrightarrow> table_addr_ok (pagusr_addr s) \<and> dn < 15 \<and> dp < 15 \<and> dn \<noteq> dp \<and>
     cr3 s = Some dp \<and> dir_pages s (dp * 1024) = dir_entry (pagusr_addr s) dp \<and>
     (\<forall>i<20. pte_present (pagusr_table s (dp * 1024 + (264 + i))) \<and>
        data_frame (pagusr_table s) dp i < 1024 \<and>
        data_frame (pagusr_table s) dp i \<notin> free_frames (phys_mem s))"

definition page_done :: "nat \<Rightarrow> nat \<Rightarrow> nat \<Rightarrow> nat \<Rightarrow> tables \<Rightarrow> tables" where
  "page_done dn dp i f pt =
     pt(dn * 1024 + (264 + i) := mapped_entry (of_nat f), dp * 1024 + (284 + i) := 0)"

definition frame_copied :: "nat \<Rightarrow> nat \<Rightarrow> mem \<Rightarrow> mem \<Rightarrow> bool" where
  "frame_copied f g m m' \<longleftrightarrow> (\<forall>k<4096. m' (faddr g k) = m (faddr f k)) \<and>
     (\<forall>x. (\<forall>k<4096. x \<noteq> faddr g k) \<longrightarrow> m' x = m x)"

lemma other_entry: "dn \<noteq> dp \<Longrightarrow> i < 1024 \<Longrightarrow> j < 1024 \<Longrightarrow> dn * 1024 + i \<noteq> dp * 1024 + (j :: nat)"
proof
  assume a: "dn \<noteq> dp" "i < 1024" "j < 1024" "dn * 1024 + i = dp * 1024 + j"
  have "(dn * 1024 + i) div 1024 = dn" "(dp * 1024 + j) div 1024 = dp" using a(2,3) by simp_all
  then show False using a(1,4) by simp
qed

lemma copy_page:
  assumes a: "table_addr_ok a" and d: "d < 15" and dir: "dir (d * 1024) = dir_entry a d"
    and p: "p < 1024" "q < 1024"
    and e: "pte_present (pt (d * 1024 + p))" "unat (pte_pbase (pt (d * 1024 + p))) = f" "f < 1024"
    and e': "pte_present (pt (d * 1024 + q))" "unat (pte_pbase (pt (d * 1024 + q))) = g" "g < 1024"
    and fg: "f \<noteq> g"
  shows "\<exists>m'. copy_data (mmu_walk a dir pt d) m (of_nat (p * 4096)) (of_nat (q * 4096)) 4096 = Some m' \<and>
    frame_copied f g m m'"
proof -
  let ?tr = "mmu_walk a dir pt d"
  have add: "of_nat (r * 4096) + of_nat k = (of_nat (r * 4096 + k) :: u32)" for r k by simp
  have trp: "?tr (of_nat (p * 4096) + of_nat k) = Some (faddr f k)" if "k < 4096" for k
    unfolding add by (rule mmu_walk_page [of a d dir p k pt f, OF a d dir p(1) that e])
  have trq: "?tr (of_nat (q * 4096) + of_nat k) = Some (faddr g k)" if "k < 4096" for k
    unfolding add by (rule mmu_walk_page [of a d dir q k pt g, OF a d dir p(2) that e'])
  have pap: "pa ?tr (of_nat (p * 4096)) k = faddr f k" if "k < 4096" for k
    using trp [OF that] by (simp add: pa_def)
  have paq: "pa ?tr (of_nat (q * 4096)) k = faddr g k" if "k < 4096" for k
    using trq [OF that] by (simp add: pa_def)
  have "copy_ok ?tr (of_nat (p * 4096)) (of_nat (q * 4096)) (nat 4096)"
    unfolding copy_ok_def
  proof (intro conjI allI impI)
    fix i j assume ij: "i < nat 4096" "j < nat 4096"
    show "?tr (of_nat (p * 4096) + of_nat i) \<noteq> None" "?tr (of_nat (q * 4096) + of_nat i) \<noteq> None"
      using trp trq ij by simp_all
    show "pa ?tr (of_nat (p * 4096)) i \<noteq> pa ?tr (of_nat (q * 4096)) j"
      using pap paq ij faddr_inj [OF e(3) e'(3)] fg by auto
    show "i \<noteq> j \<Longrightarrow> pa ?tr (of_nat (q * 4096)) i \<noteq> pa ?tr (of_nat (q * 4096)) j"
      using paq ij faddr_inj [OF e'(3) e'(3)] by auto
  qed
  then obtain m' where "copy_data ?tr m (of_nat (p * 4096)) (of_nat (q * 4096)) 4096 = Some m'"
    "copied ?tr m m' (of_nat (p * 4096)) (of_nat (q * 4096)) (nat 4096)"
    using copy_data_copied [of ?tr "of_nat (p * 4096)" "of_nat (q * 4096)" 4096 m] by blast
  then show ?thesis
    using pap paq by (intro exI [of _ m']) (simp add: frame_copied_def copied_def)
qed

lemma fork_page_step:
  assumes c: "fork_ctx dn dp s" and i: "i < 20" and al: "alloc_frame (phys_mem s) = (f, pm)" and f: "f \<ge> 0"
  shows "\<exists>m. fork_data_pages (dn * 1024) (dp * 1024) fs i s =
      fork_data_pages (dn * 1024) (dp * 1024) (fs @ [f]) (Suc i)
        (s\<lparr>phys_mem := pm, memory := m, pagusr_table := page_done dn dp i (nat f) (pagusr_table s)\<rparr>) \<and>
    frame_copied (data_frame (pagusr_table s) dp i) (nat f) (memory s) m"
proof -
  let ?a = "pagusr_addr s" and ?p = "264 + i" and ?q = "284 + i"
  let ?pt = "(pagusr_table s)(dn * 1024 + ?p := mapped_entry (of_nat (nat f)),
    dp * 1024 + ?q := mapped_entry (of_nat (nat f)))"
  note cs = c [unfolded fork_ctx_def]
  have nf: "nat f \<in> free_frames (phys_mem s)" using alloc_frame_Some [OF al f] by blast
  then have f1024: "nat f < 1024" by (simp add: free_frames_def frame_pool_def)
  have ne: "dp * 1024 + ?p \<noteq> dn * 1024 + ?p" "dp * 1024 + ?p \<noteq> dp * 1024 + ?q"
    using other_entry [of dp dn ?p ?p] cs i by auto
  have e: "pte_present (?pt (dp * 1024 + ?p))"
    "unat (pte_pbase (?pt (dp * 1024 + ?p))) = data_frame (pagusr_table s) dp i"
    using cs i ne by (auto simp: data_frame_def)
  have e': "pte_present (?pt (dp * 1024 + ?q))" "unat (pte_pbase (?pt (dp * 1024 + ?q))) = nat f"
    using f1024 by (simp_all add: unat_of_nat)
  have fl: "data_frame (pagusr_table s) dp i < 1024" "data_frame (pagusr_table s) dp i \<noteq> nat f"
    using cs i nf by auto
  obtain m where m: "copy_data (mmu_walk ?a (dir_pages s) ?pt dp) (memory s) (of_nat (?p * 4096))
      (of_nat (?q * 4096)) 4096 = Some m"
    "frame_copied (data_frame (pagusr_table s) dp i) (nat f) (memory s) m"
    using copy_page [of ?a dp "dir_pages s" ?p ?q ?pt "data_frame (pagusr_table s) dp i" "nat f" "memory s"]
      cs i e e' fl f1024 by auto
  have km: "kmmu (s\<lparr>phys_mem := pm, pagusr_table := ?pt\<rparr>) = mmu_walk ?a (dir_pages s) ?pt dp"
    using cs by (simp add: kmmu_def fun_eq_iff)
  have st: "fork_data_pages (dn * 1024) (dp * 1024) fs i s =
      fork_data_pages (dn * 1024) (dp * 1024) (fs @ [f]) (Suc i)
        (s\<lparr>phys_mem := pm, memory := m, pagusr_table := ?pt(dp * 1024 + ?q := 0)\<rparr>)"
    using i al f m(1) km
    by (subst fork_data_pages.simps) (simp add: set_ss_pag_eq del_ss_pag_def Let_def)
  have "?pt(dp * 1024 + ?q := 0) = page_done dn dp i (nat f) (pagusr_table s)"
    unfolding page_done_def by simp
  then show ?thesis using st m(2) by (intro exI [of _ m]) simp
qed

lemma page_done_other:
  "k \<noteq> dn * 1024 + (264 + i) \<Longrightarrow> k \<noteq> dp * 1024 + (284 + i) \<Longrightarrow> page_done dn dp i f pt k = pt k"
  by (simp add: page_done_def)

lemma page_done_parent:
  assumes "dn \<noteq> dp" "i < 20" "j < 20"
  shows "page_done dn dp i f pt (dp * 1024 + (264 + j)) = pt (dp * 1024 + (264 + j))"
  using other_entry [of dp dn "264 + j" "264 + i"] assms by (intro page_done_other) auto

lemma data_frame_page_done:
  "dn \<noteq> dp \<Longrightarrow> i < 20 \<Longrightarrow> j < 20 \<Longrightarrow> data_frame (page_done dn dp i f pt) dp j = data_frame pt dp j"
  by (simp add: data_frame_def page_done_parent)

lemma fork_ctx_step:
  assumes c: "fork_ctx dn dp s" and i: "i < 20" and al: "alloc_frame (phys_mem s) = (f, pm)" "f \<ge> 0"
  shows "fork_ctx dn dp (s\<lparr>phys_mem := pm, memory := m,
    pagusr_table := page_done dn dp i (nat f) (pagusr_table s)\<rparr>)"
proof -
  have "free_frames pm \<subseteq> free_frames (phys_mem s)" using fa.alloc_ok [OF al] by blast
  then show ?thesis
    using c i by (auto simp: fork_ctx_def page_done_parent data_frame_page_done)
qed

text \<open>The frames of a list of pages hold the old contents of the pages, and nothing else changes.\<close>

definition frames_copied :: "(nat \<Rightarrow> nat) \<Rightarrow> nat list \<Rightarrow> mem \<Rightarrow> mem \<Rightarrow> bool" where
  "frames_copied src fl m m' \<longleftrightarrow>
     (\<forall>j<length fl. \<forall>k<4096. m' (faddr (fl ! j) k) = m (faddr (src j) k)) \<and>
     (\<forall>x. (\<forall>g\<in>set fl. \<forall>k<4096. x \<noteq> faddr g k) \<longrightarrow> m' x = m x)"

lemma frames_copied_Cons:
  assumes 1: "frame_copied (src 0) g m m1" and 2: "frames_copied (\<lambda>j. src (Suc j)) gs m1 m2"
    and d: "g \<notin> set gs" "\<forall>j\<le>length gs. src j < 1024 \<and> src j \<noteq> g" "\<forall>h\<in>insert g (set gs). h < 1024"
  shows "frames_copied src (g # gs) m m2"
  unfolding frames_copied_def
proof (intro conjI allI impI)
  fix j k :: nat assume j: "j < length (g # gs)" and k: "k < 4096"
  show "m2 (faddr ((g # gs) ! j) k) = m (faddr (src j) k)"
  proof (cases j)
    case 0
    have "\<forall>h\<in>set gs. \<forall>l<4096. faddr g k \<noteq> faddr h l"
      using d(1,3) k faddr_inj by blast
    then have "m2 (faddr g k) = m1 (faddr g k)" using 2 unfolding frames_copied_def by blast
    then show ?thesis using 1 k 0 by (simp add: frame_copied_def)
  next
    case (Suc i)
    have "m2 (faddr (gs ! i) k) = m1 (faddr (src (Suc i)) k)"
      using 2 j k Suc by (simp add: frames_copied_def)
    moreover have "\<forall>l<4096. faddr (src (Suc i)) k \<noteq> faddr g l"
    proof (intro allI impI notI)
      fix l :: nat assume "l < 4096" "faddr (src (Suc i)) k = faddr g l"
      then show False using faddr_inj [of "src (Suc i)" g k l] d(2,3) j k Suc by auto
    qed
    then have "m1 (faddr (src (Suc i)) k) = m (faddr (src (Suc i)) k)"
      using 1 unfolding frame_copied_def by blast
    ultimately show ?thesis using Suc by simp
  qed
next
  fix x assume "\<forall>h\<in>set (g # gs). \<forall>k<4096. x \<noteq> faddr h k"
  then show "m2 x = m x" using 1 2 by (simp add: frame_copied_def frames_copied_def)
qed

lemma fork_data_pages_copies:
  assumes "fork_ctx dn dp s" "i + n = 20" "fa.take_frames n (phys_mem s) = (Some fl, pm)"
  shows "\<exists>m pt. fork_data_pages (dn * 1024) (dp * 1024) fs i s =
      Some (True, s\<lparr>phys_mem := pm, memory := m, pagusr_table := pt\<rparr>) \<and>
    frames_copied (\<lambda>j. data_frame (pagusr_table s) dp (i + j)) fl (memory s) m \<and>
    (\<forall>j<n. pt (dn * 1024 + (264 + (i + j))) = mapped_entry (of_nat (fl ! j)) \<and>
       pt (dp * 1024 + (284 + (i + j))) = 0) \<and>
    (\<forall>k. (\<forall>j<n. k \<noteq> dn * 1024 + (264 + (i + j)) \<and> k \<noteq> dp * 1024 + (284 + (i + j))) \<longrightarrow>
       pt k = pagusr_table s k)"
  using assms
proof (induction n arbitrary: i s fl fs)
  case 0
  then have "fork_data_pages (dn * 1024) (dp * 1024) fs i s = Some (True, s)"
    by (subst fork_data_pages.simps) simp
  then show ?case using 0 by (intro exI [of _ "memory s"] exI [of _ "pagusr_table s"])
      (auto simp: frames_copied_def)
next
  case (Suc n)
  obtain f pm1 where al: "alloc_frame (phys_mem s) = (f, pm1)" by fastforce
  with Suc.prems(3) have f: "f \<ge> 0" by (auto split: if_splits)
  obtain gs where gs: "fa.take_frames n pm1 = (Some gs, pm)" "fl = nat f # gs"
    using Suc.prems(3) al f by (auto split: if_splits prod.splits option.splits)
  have i: "i < 20" "Suc i + n = 20" using Suc.prems(2) by auto
  note c = Suc.prems(1) [unfolded fork_ctx_def]
  obtain m1 where m1: "fork_data_pages (dn * 1024) (dp * 1024) fs i s =
      fork_data_pages (dn * 1024) (dp * 1024) (fs @ [f]) (Suc i)
        (s\<lparr>phys_mem := pm1, memory := m1, pagusr_table := page_done dn dp i (nat f) (pagusr_table s)\<rparr>)"
    "frame_copied (data_frame (pagusr_table s) dp i) (nat f) (memory s) m1"
    using fork_page_step [OF Suc.prems(1) i(1) al f, of fs] by blast
  let ?s1 = "s\<lparr>phys_mem := pm1, memory := m1, pagusr_table := page_done dn dp i (nat f) (pagusr_table s)\<rparr>"
  have "fa.take_frames n (phys_mem ?s1) = (Some gs, pm)" using gs by simp
  from Suc.IH [OF fork_ctx_step [OF Suc.prems(1) i(1) al f] i(2) this, of "fs @ [f]"]
  obtain m pt where IH: "fork_data_pages (dn * 1024) (dp * 1024) (fs @ [f]) (Suc i) ?s1 =
      Some (True, ?s1\<lparr>phys_mem := pm, memory := m, pagusr_table := pt\<rparr>)"
    "frames_copied (\<lambda>j. data_frame (pagusr_table ?s1) dp (Suc i + j)) gs (memory ?s1) m"
    "\<forall>j<n. pt (dn * 1024 + (264 + (Suc i + j))) = mapped_entry (of_nat (gs ! j)) \<and>
       pt (dp * 1024 + (284 + (Suc i + j))) = 0"
    "\<forall>k. (\<forall>j<n. k \<noteq> dn * 1024 + (264 + (Suc i + j)) \<and> k \<noteq> dp * 1024 + (284 + (Suc i + j))) \<longrightarrow>
       pt k = pagusr_table ?s1 k"
    by blast
  have st: "?s1\<lparr>phys_mem := pm, memory := m, pagusr_table := pt\<rparr> =
      s\<lparr>phys_mem := pm, memory := m, pagusr_table := pt\<rparr>" by simp
  have fr: "set gs \<subseteq> free_frames (phys_mem s) - {nat f}" "length gs = n" "nat f \<in> free_frames (phys_mem s)"
    using fa.take_frames_Some [OF gs(1)] fa.alloc_ok [OF al f] by auto
  have lt: "h < 1024" if "h \<in> free_frames (phys_mem s)" for h
    using that by (simp add: free_frames_def frame_pool_def)
  have pf: "data_frame (pagusr_table s) dp j < 1024 \<and>
      data_frame (pagusr_table s) dp j \<notin> free_frames (phys_mem s)" if "j < 20" for j
    using c that by blast
  have "frames_copied (\<lambda>j. data_frame (pagusr_table s) dp (i + j)) (nat f # gs) (memory s) m"
  proof (rule frames_copied_Cons)
    show "frame_copied (data_frame (pagusr_table s) dp (i + 0)) (nat f) (memory s) m1" using m1(2) by simp
    have "data_frame (pagusr_table ?s1) dp (Suc i + j) = data_frame (pagusr_table s) dp (i + Suc j)"
      if "j < n" for j
      using c i that by (simp add: data_frame_page_done)
    then show "frames_copied (\<lambda>j. data_frame (pagusr_table s) dp (i + Suc j)) gs m1 m"
      using IH(2) fr(2) by (simp add: frames_copied_def)
    show "nat f \<notin> set gs" using fr(1) by blast
    show "\<forall>j\<le>length gs. data_frame (pagusr_table s) dp (i + j) < 1024 \<and>
        data_frame (pagusr_table s) dp (i + j) \<noteq> nat f"
    proof (intro allI impI)
      fix j assume "j \<le> length gs"
      then have "i + j < 20" using fr(2) i(2) by simp
      then show "data_frame (pagusr_table s) dp (i + j) < 1024 \<and>
          data_frame (pagusr_table s) dp (i + j) \<noteq> nat f"
        using pf [of "i + j"] fr(3) by metis
    qed
    show "\<forall>h\<in>insert (nat f) (set gs). h < 1024" using fr lt by blast
  qed
  moreover have "pt (dn * 1024 + (264 + (i + j))) = mapped_entry (of_nat (fl ! j)) \<and>
       pt (dp * 1024 + (284 + (i + j))) = 0" if j: "j < Suc n" for j
  proof (cases j)
    case 0
    have "dn * 1024 + (264 + i) \<noteq> dp * 1024 + (284 + (Suc i + l))"
      "dp * 1024 + (284 + i) \<noteq> dn * 1024 + (264 + (Suc i + l))"
      "dn * 1024 + (264 + i) \<noteq> dp * 1024 + (284 + i)" if "l < n" for l
      using that c i by (intro other_entry; simp)+
    then have "pt (dn * 1024 + (264 + i)) = page_done dn dp i (nat f) (pagusr_table s) (dn * 1024 + (264 + i))"
      "pt (dp * 1024 + (284 + i)) = page_done dn dp i (nat f) (pagusr_table s) (dp * 1024 + (284 + i))"
      using IH(4) by simp_all
    moreover have "dn * 1024 + (264 + i) \<noteq> dp * 1024 + (284 + i)"
      using c i by (intro other_entry) simp_all
    ultimately show ?thesis using 0 gs(2) by (simp add: page_done_def)
  next
    case (Suc l)
    then show ?thesis using IH(3) j gs(2) by simp
  qed
  moreover have "pt k = pagusr_table s k"
    if k: "\<forall>j<Suc n. k \<noteq> dn * 1024 + (264 + (i + j)) \<and> k \<noteq> dp * 1024 + (284 + (i + j))" for k
  proof -
    have "k \<noteq> dn * 1024 + (264 + (Suc i + j)) \<and> k \<noteq> dp * 1024 + (284 + (Suc i + j))" if "j < n" for j
      using k [rule_format, of "Suc j"] that by simp
    then have "pt k = page_done dn dp i (nat f) (pagusr_table s) k" using IH(4) by simp
    also have "\<dots> = pagusr_table s k" using k [rule_format, of 0] by (intro page_done_other) simp_all
    finally show ?thesis .
  qed
  ultimately show ?case using m1(1) IH(1) gs(2) unfolding st
    by (intro exI [of _ m] exI [of _ pt]) simp
qed

section \<open>A new process in the queues\<close>

definition spawned :: "nat \<Rightarrow> (ptr \<Rightarrow> nat list) \<Rightarrow> (ptr \<Rightarrow> nat list)" where
  "spawned t Q = Q(FreeQ := tl (Q FreeQ), ReadyQ := Q ReadyQ @ [t])"

text \<open>
  The first free descriptor leaves its queue; whatever then happens to its link, it can be put at
  the end of the ready queue.
\<close>

lemma spawn_links:
  assumes k: "kinv s Q" and t: "Q FreeQ = t # ts"
  shows "\<not> list_empty (links s) FreeQ \<and> list_first (links s) FreeQ = Some (TaskL t) \<and>
    (\<exists>h1. list_del (links s) (TaskL t) = Some h1 \<and>
      (\<forall>v. \<exists>h2. list_add_tail (h1(TaskL t := v)) (TaskL t) ReadyQ = Some h2 \<and>
         lq.family h2 (tlists (spawned t Q)) (heads s)))"
proof -
  have q: "qinv s Q" using k by (simp add: kinv_def)
  let ?Q = "Q(FreeQ := ts)"
  obtain h1 where h1: "list_del (links s) (TaskL t) = Some h1"
    "lq.family h1 ((tlists Q)(FreeQ := map TaskL ts)) (heads s)"
    using lq.family_pop [of "links s" "tlists Q" "heads s" FreeQ "TaskL t" "map TaskL ts"] q t
    by (auto simp: qinv_def tlists_def)
  have f1: "lq.family h1 (tlists ?Q) (heads s)" using h1(2) by (simp add: tlists_upd)
  have nt: "TaskL t \<notin> set (tlists ?Q r)" if "r \<in> heads s" for r
    using that t qinv_distinct [OF q, of FreeQ] qinv_disjoint [OF q, of FreeQ r t] by auto
  have "\<exists>h2. list_add_tail (h1(TaskL t := v)) (TaskL t) ReadyQ = Some h2 \<and>
      lq.family h2 (tlists (spawned t Q)) (heads s)" for v
  proof -
    have "lq.family (h1(TaskL t := v)) (tlists ?Q) (heads s)"
    proof (rule lq.family_agree [OF f1])
      fix r assume r: "r \<in> heads s"
      then have "r \<noteq> TaskL t" by auto
      then show "links_agree h1 (h1(TaskL t := v)) (insert r (set (tlists ?Q r)))"
        using nt [OF r] by (auto simp: links_agree_def)
    qed
    then obtain h2 where "list_add_tail (h1(TaskL t := v)) (TaskL t) ReadyQ = Some h2"
      "lq.family h2 ((tlists ?Q)(ReadyQ := tlists ?Q ReadyQ @ [TaskL t])) (heads s)"
      using lq.family_push_back [of "h1(TaskL t := v)" "tlists ?Q" "heads s" ReadyQ "TaskL t"] nt
      by auto
    moreover have "tlists (spawned t Q) = (tlists ?Q)(ReadyQ := tlists ?Q ReadyQ @ [TaskL t])"
      using t by (auto simp: spawned_def tlists_def)
    ultimately show ?thesis by auto
  qed
  then show ?thesis using h1(1) qinv_first [OF q _ t] qinv_empty [OF q, of FreeQ] t by auto
qed

lemma kinv_spawned:
  assumes k: "kinv s Q" and t: "Q FreeQ = t # ts"
    and l: "lq.family (links s') (tlists (spawned t Q)) (heads s)"
    and e: "semaphores s' = semaphores s" "cur s' = cur s" "idle_task s' = idle_task s"
    and st: "estado (tasks s' t) = ST_READY" "\<And>u. u \<noteq> t \<Longrightarrow> estado (tasks s' u) = estado (tasks s u)"
  shows "kinv s' (spawned t Q)"
proof -
  have q: "qinv s Q" using k by (simp add: kinv_def)
  have hd: "heads s' = heads s" by (rule heads_cong [OF e(1)])
  have tF: "t \<in> set (Q FreeQ)" using t by simp
  have ti: "t < 15" using q tF heads_basic(1) unfolding qinv_def by blast
  have nt: "t \<notin> set (Q r)" if "r \<in> heads s" "r \<noteq> FreeQ" for r
    using qinv_disjoint [OF q, of FreeQ r t] that tF by auto
  have ntt: "t \<notin> set ts" using qinv_distinct [OF q, of FreeQ] t by simp
  have sub: "u \<in> set (spawned t Q r) \<Longrightarrow> u \<in> set (Q r) \<or> u = t \<and> r = ReadyQ" for u r
    using t by (auto simp: spawned_def split: if_splits)
  have tc: "t \<noteq> cur s" using kinv_running_not_queued [OF k, of FreeQ] tF by auto
  have "qinv s' (spawned t Q)"
    unfolding qinv_def hd
  proof (intro conjI ballI)
    fix r u assume r: "r \<in> heads s" and u: "u \<in> set (spawned t Q r)"
    have *: "u < 15 \<and> (r \<noteq> FreeQ \<longrightarrow> estado (tasks s u) = qstate r)" if "u \<in> set (Q r)"
      using q r that unfolding qinv_def by blast
    then show "u < 15" using sub [OF u] ti by blast
    show "r \<noteq> FreeQ \<longrightarrow> estado (tasks s' u) = qstate r"
      using sub [OF u] * st nt [OF r] by (cases "u = t") (auto simp: qstate_def)
  qed (rule l)
  moreover have "run_inv s' (spawned t Q)"
    using k sub st(2) [of "cur s"] tc unfolding kinv_def run_inv_def in_queue_def hd e by metis
  moreover have "idle_inv s' (spawned t Q)"
  proof -
    obtain i where i: "idle_task s = Some i" using k by (auto simp: kinv_def idle_inv_def)
    have idl: "i < 15" "\<forall>r\<in>heads s. r \<noteq> ReadyQ \<longrightarrow> i \<notin> set (Q r)"
      "i \<notin> set (Q ReadyQ) \<longrightarrow> estado (tasks s i) = ST_RUN"
      using k idle_invD [of s Q i] i by (auto simp: kinv_def)
    have it: "i \<noteq> t" using idl(2) tF by auto
    have "set (Q ReadyQ) \<subseteq> set (spawned t Q ReadyQ)" by (auto simp: spawned_def)
    then show ?thesis unfolding idle_inv_def hd e
      using i idl it st(2) [of i] sub by (intro exI [of _ i]) auto
  qed
  ultimately show ?thesis by (simp add: kinv_def)
qed

lemma sem_inv_spawned:
  assumes k: "kinv s Q" and v: "sem_inv s Q" and t: "Q FreeQ = t # ts"
    and e: "semaphores s' = semaphores s" and o: "\<And>u. u \<noteq> t \<Longrightarrow> tasks s' u = tasks s u"
  shows "sem_inv s' (spawned t Q)"
proof (rule sem_inv_cong [OF v e])
  show "spawned t Q (SemQ j) = Q (SemQ j)" for j by (simp add: spawned_def)
  fix j u assume "j < 20" "sem_state (semaphores s j) = USED_SEM" "u \<in> set (Q (SemQ j))"
  then have "u \<noteq> t"
    using qinv_disjoint [of s Q FreeQ "SemQ j" t] k t by (auto simp: kinv_def SemQ_heads)
  then show "sem_ret (tasks s' u) = sem_ret (tasks s u) \<and> kernel_esp (tasks s' u) = kernel_esp (tasks s u)"
    using o by simp
qed

section \<open>fork\<close>

lemma share_pages_apply:
  assumes d: "dn \<noteq> dp" and b: "base + n \<le> 1024"
  shows "share_pages (dn * 1024) (dp * 1024) base n pt k =
    (if dn * 1024 + base \<le> k \<and> k < dn * 1024 + (base + n) then pt (dp * 1024 + (k - dn * 1024)) else pt k)"
  using b
proof (induction n arbitrary: k)
  case (Suc n)
  let ?f = "share_pages (dn * 1024) (dp * 1024) base n pt"
  have "share_pages (dn * 1024) (dp * 1024) base (Suc n) pt =
      ?f(dn * 1024 + (base + n) := ?f (dp * 1024 + (base + n)))"
    by (simp add: share_pages_def)
  moreover have "?f (dp * 1024 + (base + n)) = pt (dp * 1024 + (base + n))"
  proof -
    have "\<not> (dn * 1024 + base \<le> dp * 1024 + (base + n) \<and> dp * 1024 + (base + n) < dn * 1024 + (base + n))"
    proof
      assume a: "dn * 1024 + base \<le> dp * 1024 + (base + n) \<and> dp * 1024 + (base + n) < dn * 1024 + (base + n)"
      then have "dp < dn" by simp
      then have "dp * 1024 + 1024 \<le> dn * 1024" by simp
      then show False using a Suc.prems by linarith
    qed
    then show ?thesis using Suc.prems by (simp only: Suc.IH) simp
  qed
  ultimately show ?case using Suc by auto
qed (auto simp: share_pages_def)

text \<open>The address spaces: the directories point to their tables, the one of the running process
  is loaded and its data pages are mapped.\<close>

definition aspace_ok :: "nat \<Rightarrow> kstate \<Rightarrow> bool" where
  "aspace_ok dp s \<longleftrightarrow> table_addr_ok (pagusr_addr s) \<and> dp < 15 \<and> cr3 s = Some dp \<and>
     dir_pages_baseAddr (tasks s (cur s)) = Some dp \<and> refs_DIR s dp \<noteq> 0 \<and>
     (\<forall>d<15. dir_pages s (d * 1024) = dir_entry (pagusr_addr s) d) \<and>
     (\<forall>i<20. pte_present (pagusr_table s (dp * 1024 + (264 + i))) \<and>
        data_frame (pagusr_table s) dp i < 1024 \<and>
        data_frame (pagusr_table s) dp i \<notin> free_frames (phys_mem s))"

definition shared_table :: "nat \<Rightarrow> nat \<Rightarrow> tables \<Rightarrow> tables" where
  "shared_table dn dp pt =
     share_pages (dn * 1024) (dp * 1024) 256 8 (share_pages (dn * 1024) (dp * 1024) 1 256 pt)"

lemma shared_table_apply:
  assumes d: "dn \<noteq> dp"
  shows "shared_table dn dp pt k =
    (if dn * 1024 + 1 \<le> k \<and> k < dn * 1024 + 264 then pt (dp * 1024 + (k - dn * 1024)) else pt k)"
proof (cases "dn * 1024 + 1 \<le> k \<and> k < dn * 1024 + 264")
  case True
  define r where "r = k - dn * 1024"
  have k: "k = dn * 1024 + r" and r: "1 \<le> r" "r < 264" using True unfolding r_def by linarith+
  have "\<not> (dn * 1024 + 1 \<le> dp * 1024 + r \<and> dp * 1024 + r < dn * 1024 + 257)"
  proof
    assume a: "dn * 1024 + 1 \<le> dp * 1024 + r \<and> dp * 1024 + r < dn * 1024 + 257"
    then have "dp * 1024 + r \<noteq> dn * 1024 + (dp * 1024 + r - dn * 1024)"
      using d r by (intro other_entry) linarith+
    then show False using a by linarith
  qed
  then have "share_pages (dn * 1024) (dp * 1024) 1 256 pt (dp * 1024 + r) = pt (dp * 1024 + r)"
    by (simp only: share_pages_apply [OF d]) auto
  then show ?thesis using r unfolding shared_table_def k by (simp add: share_pages_apply [OF d])
next
  case False
  then show ?thesis unfolding shared_table_def by (auto simp: share_pages_apply [OF d])
qed

lemma shared_table_parent:
  assumes "dn \<noteq> dp" "p < 1024"
  shows "shared_table dn dp pt (dp * 1024 + p) = pt (dp * 1024 + p)"
proof -
  have "(dp * 1024 + p) div 1024 = dp" using assms(2) by simp
  moreover have "k div 1024 = dn" if "dn * 1024 + 1 \<le> k" "k < dn * 1024 + 264" for k
    using that by (intro div_nat_eqI) simp_all
  ultimately show ?thesis using assms(1) by (auto simp: shared_table_apply)
qed

text \<open>The child, once its PID, state and stack have been set.\<close>

definition fork_child :: "nat \<Rightarrow> kstate \<Rightarrow> nat \<Rightarrow> task_struct" where
  "fork_child ebp s dn =
     (tasks s (cur s))\<lparr>PID := incrementalPID s, dir_pages_baseAddr := Some dn,
       kernel_esp := StackIx (ebp - 1), estado := ST_READY,
       estadisticas := init_stats (estadisticas (tasks s (cur s))), n_directorio := dn\<rparr>"

definition fork_stack :: "nat \<Rightarrow> kstate \<Rightarrow> nat \<Rightarrow> stackword" where
  "fork_stack ebp s = (kstack s (cur s))(ebp := Code Ret_from_fork, ebp - 1 := Data 0)"

lemma give_DIR_simps [simp]:
  "tasks (give_DIR t j s) u =
    (if u = t then (tasks s t)\<lparr>dir_pages_baseAddr := Some j, n_directorio := j\<rparr> else tasks s u)"
  "refs_DIR (give_DIR t j s) = (refs_DIR s)(j := 1)" "cur (give_DIR t j s) = cur s"
  "links (give_DIR t j s) = links s" "semaphores (give_DIR t j s) = semaphores s"
  "dir_pages (give_DIR t j s) = dir_pages s" "pagusr_table (give_DIR t j s) = pagusr_table s"
  "pagusr_addr (give_DIR t j s) = pagusr_addr s" "phys_mem (give_DIR t j s) = phys_mem s"
  "memory (give_DIR t j s) = memory s" "cr3 (give_DIR t j s) = cr3 s"
  "idle_task (give_DIR t j s) = idle_task s" "kstack (give_DIR t j s) = kstack s"
  "incrementalPID (give_DIR t j s) = incrementalPID s" "qLeft (give_DIR t j s) = qLeft s"
  "tss_esp0 (give_DIR t j s) = tss_esp0 s" "msr_esp (give_DIR t j s) = msr_esp s"
  by (auto simp: give_DIR_def upd_task_def)

lemma PT_of_dir:
  assumes "table_addr_ok (pagusr_addr s)" "d < 15" "dir_pages s (d * 1024) = dir_entry (pagusr_addr s) d"
    and "dir_pages_baseAddr (tasks s t) = Some d"
  shows "PT_of s t = Some (d * 1024)"
  using assms dir_entry_table(2) [OF assms(1,2)] by (simp add: PT_of_def get_PT_def)

lemma copy_union_simps [simp]:
  "tasks (copy_union a b s) u = (if u = b then tasks s a else tasks s u)"
  "kstack (copy_union a b s) = (kstack s)(b := kstack s a)"
  "links (copy_union a b s) = (links s)(TaskL b := links s (TaskL a))"
  "cur (copy_union a b s) = cur s" "semaphores (copy_union a b s) = semaphores s"
  "refs_DIR (copy_union a b s) = refs_DIR s" "dir_pages (copy_union a b s) = dir_pages s"
  "pagusr_table (copy_union a b s) = pagusr_table s" "pagusr_addr (copy_union a b s) = pagusr_addr s"
  "phys_mem (copy_union a b s) = phys_mem s" "memory (copy_union a b s) = memory s"
  "cr3 (copy_union a b s) = cr3 s" "idle_task (copy_union a b s) = idle_task s"
  "incrementalPID (copy_union a b s) = incrementalPID s" "qLeft (copy_union a b s) = qLeft s"
  "tss_esp0 (copy_union a b s) = tss_esp0 s" "msr_esp (copy_union a b s) = msr_esp s"
  by (auto simp: copy_union_def)

lemma allocate_DIR_first:
  "dn < 15 \<Longrightarrow> refs_DIR s dn = 0 \<Longrightarrow> \<forall>k<dn. refs_DIR s k \<noteq> 0 \<Longrightarrow>
    allocate_DIR s t = (1, give_DIR t dn s)"
  unfolding allocate_DIR_def by (rule allocate_DIR_from_Some) auto

text \<open>The state after the copy of the data pages, and what \<open>sys_fork\<close> does to it.\<close>

definition fork_finish :: "nat \<Rightarrow> nat \<Rightarrow> ptr links \<Rightarrow> kstate \<Rightarrow> kstate" where
  "fork_finish ebp t h s =
     s\<lparr>tasks := (tasks s)(t := (tasks s t)\<lparr>PID := incrementalPID s, kernel_esp := StackIx (ebp - 1),
         estado := ST_READY, estadisticas := init_stats (estadisticas (tasks s t))\<rparr>),
       kstack := (kstack s)(t := (kstack s t)(ebp := Code Ret_from_fork, ebp - 1 := Data 0)),
       incrementalPID := i32 (incrementalPID s + 1), cr3 := get_DIR s (cur s), links := h\<rparr>"

lemma fork_finish_simps [simp]:
  "tasks (fork_finish ebp t h s) u = (if u = t then (tasks s t)\<lparr>PID := incrementalPID s,
     kernel_esp := StackIx (ebp - 1), estado := ST_READY,
     estadisticas := init_stats (estadisticas (tasks s t))\<rparr> else tasks s u)"
  "kstack (fork_finish ebp t h s) = (kstack s)(t := (kstack s t)(ebp := Code Ret_from_fork, ebp - 1 := Data 0))"
  "incrementalPID (fork_finish ebp t h s) = i32 (incrementalPID s + 1)"
  "cr3 (fork_finish ebp t h s) = get_DIR s (cur s)" "links (fork_finish ebp t h s) = h"
  "cur (fork_finish ebp t h s) = cur s" "semaphores (fork_finish ebp t h s) = semaphores s"
  "idle_task (fork_finish ebp t h s) = idle_task s" "refs_DIR (fork_finish ebp t h s) = refs_DIR s"
  "memory (fork_finish ebp t h s) = memory s" "phys_mem (fork_finish ebp t h s) = phys_mem s"
  "pagusr_table (fork_finish ebp t h s) = pagusr_table s" "qLeft (fork_finish ebp t h s) = qLeft s"
  "dir_pages (fork_finish ebp t h s) = dir_pages s" "pagusr_addr (fork_finish ebp t h s) = pagusr_addr s"
  "tss_esp0 (fork_finish ebp t h s) = tss_esp0 s" "msr_esp (fork_finish ebp t h s) = msr_esp s"
  by (auto simp: fork_finish_def)

text \<open>The system call up to the copy loop, and after it.\<close>

definition fork_start :: "nat \<Rightarrow> nat \<Rightarrow> nat \<Rightarrow> ptr links \<Rightarrow> kstate \<Rightarrow> kstate" where
  "fork_start t dn dp h s =
     (give_DIR t dn (copy_union (cur s) t (s\<lparr>links := h\<rparr>)))
       \<lparr>pagusr_table := shared_table dn dp (pagusr_table s)\<rparr>"

lemma fork_start_simps [simp]:
  "tasks (fork_start t dn dp h s) u = (if u = t then (tasks s (cur s))\<lparr>dir_pages_baseAddr := Some dn,
     n_directorio := dn\<rparr> else tasks s u)"
  "kstack (fork_start t dn dp h s) = (kstack s)(t := kstack s (cur s))"
  "links (fork_start t dn dp h s) = h(TaskL t := h (TaskL (cur s)))"
  "cur (fork_start t dn dp h s) = cur s" "semaphores (fork_start t dn dp h s) = semaphores s"
  "idle_task (fork_start t dn dp h s) = idle_task s"
  "refs_DIR (fork_start t dn dp h s) = (refs_DIR s)(dn := 1)"
  "memory (fork_start t dn dp h s) = memory s" "phys_mem (fork_start t dn dp h s) = phys_mem s"
  "pagusr_table (fork_start t dn dp h s) = shared_table dn dp (pagusr_table s)"
  "incrementalPID (fork_start t dn dp h s) = incrementalPID s" "cr3 (fork_start t dn dp h s) = cr3 s"
  "pagusr_addr (fork_start t dn dp h s) = pagusr_addr s" "dir_pages (fork_start t dn dp h s) = dir_pages s"
  "qLeft (fork_start t dn dp h s) = qLeft s"
  "tss_esp0 (fork_start t dn dp h s) = tss_esp0 s" "msr_esp (fork_start t dn dp h s) = msr_esp s"
  by (auto simp: fork_start_def)

lemma data_frame_shared:
  "dn \<noteq> dp \<Longrightarrow> i < 20 \<Longrightarrow> data_frame (shared_table dn dp pt) dp i = data_frame pt dp i"
  by (simp add: data_frame_def shared_table_parent)

lemma fork_start_ctx:
  assumes a: "aspace_ok dp s" and dn: "dn < 15" "dn \<noteq> dp" and t: "t \<noteq> cur s"
  shows "fork_ctx dn dp (fork_start t dn dp h s)"
  using a dn by (auto simp: aspace_ok_def fork_ctx_def data_frame_shared shared_table_parent)

lemma sys_fork_unfold:
  assumes l: "\<not> list_empty (links s) FreeQ" "list_first (links s) FreeQ = Some (TaskL t)"
      "list_del (links s) (TaskL t) = Some h1"
    and d: "dn < 15" "refs_DIR s dn = 0" "\<forall>k<dn. refs_DIR s k \<noteq> 0"
    and a: "aspace_ok dp s" and t: "t \<noteq> cur s"
  shows "sys_fork ebp s =
    do { (ok, s5) \<leftarrow> fork_data_pages (dn * 1024) (dp * 1024) [] 0 (fork_start t dn dp h1 s);
         if \<not> ok then Some (- ENOMEM, s5)
         else do { h2 \<leftarrow> list_add_tail (links s5) (TaskL t) ReadyQ;
                   let s6 = fork_finish ebp t h2 s5;
                   Some (PID (tasks s6 t), s6) } }"
proof -
  let ?s1 = "copy_union (cur s) t (s\<lparr>links := h1\<rparr>)"
  let ?s2 = "give_DIR t dn ?s1"
  have al: "allocate_DIR ?s1 t = (1, ?s2)" using d by (intro allocate_DIR_first) auto
  have PT: "PT_of ?s2 t = Some (dn * 1024)" "PT_of ?s2 (cur s) = Some (dp * 1024)"
    using a d(1) t by (auto intro!: PT_of_dir simp: aspace_ok_def)
  have st: "?s2\<lparr>pagusr_table := share_pages (dn * 1024) (dp * 1024) 256 8
      (share_pages (dn * 1024) (dp * 1024) 1 256 (pagusr_table s))\<rparr> = fork_start t dn dp h1 s"
    by (simp add: fork_start_def shared_table_def)
  have lk: "links (upd_task t f s') = links s'" "links (upd_stats t g s') = links s'" for f g s'
    by (simp_all add: upd_stats_def upd_task_def)
  have fin: "upd_task t (kernel_esp_update (\<lambda>_. StackIx (ebp - 1)))
      ((upd_stats t init_stats (upd_task t (estado_update (\<lambda>_. ST_READY))
         ((upd_task t (PID_update (\<lambda>_. incrementalPID s5)) (s5\<lparr>cr3 := get_DIR s5 (cur s5)\<rparr>))
           \<lparr>incrementalPID := i32 (incrementalPID s5 + 1)\<rparr>)))
        \<lparr>kstack := (kstack s5)(t := (kstack s5 t)(ebp := Code Ret_from_fork, ebp - 1 := Data 0))\<rparr>)
        \<lparr>links := h2\<rparr> = fork_finish ebp t h2 s5" for s5 h2
    by (simp add: upd_task_def upd_stats_def fork_finish_def fun_upd_def fun_eq_iff cong: if_cong)
  have ks: "kstack (upd_task t f s') = kstack s'" "kstack (upd_stats t g s') = kstack s'"
    "incrementalPID (upd_task t f s') = incrementalPID s'" for f g s'
    by (simp_all add: upd_stats_def upd_task_def)
  have pid: "PID (tasks (upd_stats t g s') u) = PID (tasks s' u)" for g s' u
    by (simp add: upd_stats_def)
  show ?thesis
    unfolding sys_fork_def Let_def
    by (simp add: PT st [unfolded One_nat_def] al l lk ks pid fin [unfolded One_nat_def] cong: if_cong)
qed

text \<open>\<open>fork\<close> with a free descriptor, a free directory and 20 free frames.\<close>

lemma sys_fork_runs:
  assumes k: "kinv s Q" and t: "Q FreeQ = t # ts"
    and d: "dn < 15" "refs_DIR s dn = 0" "\<forall>k<dn. refs_DIR s k \<noteq> 0"
    and a: "aspace_ok dp s" and fr: "fa.take_frames 20 (phys_mem s) = (Some fl, pm)"
  shows "\<exists>s'. sys_fork ebp s = Some (incrementalPID s, s') \<and> kinv s' (spawned t Q) \<and>
    tasks s' = (tasks s)(t := fork_child ebp s dn) \<and> kstack s' t = fork_stack ebp s \<and>
    cur s' = cur s \<and> semaphores s' = semaphores s \<and> qLeft s' = qLeft s \<and> cr3 s' = cr3 s \<and>
    idle_task s' = idle_task s \<and> refs_DIR s' = (refs_DIR s)(dn := 1) \<and>
    incrementalPID s' = i32 (incrementalPID s + 1) \<and> phys_mem s' = pm \<and>
    frames_copied (data_frame (pagusr_table s) dp) fl (memory s) (memory s') \<and>
    (\<forall>i<20. pagusr_table s' (dn * 1024 + (264 + i)) = mapped_entry (of_nat (fl ! i))) \<and>
    (\<forall>p. 1 \<le> p \<and> p < 264 \<longrightarrow> pagusr_table s' (dn * 1024 + p) = pagusr_table s (dp * 1024 + p)) \<and>
    (\<forall>p<284. pagusr_table s' (dp * 1024 + p) = pagusr_table s (dp * 1024 + p)) \<and>
    dir_pages s' = dir_pages s \<and> pagusr_addr s' = pagusr_addr s \<and>
    (\<forall>j<20. pagusr_table s' (dp * 1024 + (284 + j)) = 0) \<and>
    (\<forall>k. \<not> (dn * 1024 + 1 \<le> k \<and> k < dn * 1024 + 284) \<and> \<not> (dp * 1024 + 284 \<le> k \<and> k < dp * 1024 + 304) \<longrightarrow>
       pagusr_table s' k = pagusr_table s k) \<and>
    tss_esp0 s' = tss_esp0 s \<and> msr_esp s' = msr_esp s \<and> (\<forall>u. u \<noteq> t \<longrightarrow> kstack s' u = kstack s u)"
proof -
  have tc: "t \<noteq> cur s" using kinv_running_not_queued [OF k, of FreeQ] t by auto
  have dd: "dn \<noteq> dp" using a d(2) by (auto simp: aspace_ok_def)
  obtain h1 where l: "\<not> list_empty (links s) FreeQ" "list_first (links s) FreeQ = Some (TaskL t)"
    "list_del (links s) (TaskL t) = Some h1"
    and h2: "\<And>v. \<exists>h2. list_add_tail (h1(TaskL t := v)) (TaskL t) ReadyQ = Some h2 \<and>
         lq.family h2 (tlists (spawned t Q)) (heads s)"
    using spawn_links [OF k t] by blast
  let ?s4 = "fork_start t dn dp h1 s"
  obtain m pt where c: "fork_data_pages (dn * 1024) (dp * 1024) [] 0 ?s4 =
      Some (True, ?s4\<lparr>phys_mem := pm, memory := m, pagusr_table := pt\<rparr>)"
    "frames_copied (\<lambda>j. data_frame (pagusr_table ?s4) dp (0 + j)) fl (memory ?s4) m"
    "\<forall>j<20. pt (dn * 1024 + (264 + (0 + j))) = mapped_entry (of_nat (fl ! j)) \<and>
       pt (dp * 1024 + (284 + (0 + j))) = 0"
    "\<forall>k. (\<forall>j<20. k \<noteq> dn * 1024 + (264 + (0 + j)) \<and> k \<noteq> dp * 1024 + (284 + (0 + j))) \<longrightarrow>
       pt k = pagusr_table ?s4 k"
    using fork_data_pages_copies [OF fork_start_ctx [OF a d(1) dd tc, of h1], of 0 20 fl pm "[]"] fr
    by auto
  let ?s5 = "?s4\<lparr>phys_mem := pm, memory := m, pagusr_table := pt\<rparr>"
  obtain h where h: "list_add_tail (links ?s5) (TaskL t) ReadyQ = Some h"
    "lq.family h (tlists (spawned t Q)) (heads s)"
    using h2 [of "h1 (TaskL (cur s))"] by auto
  let ?s' = "fork_finish ebp t h ?s5"
  have "sys_fork ebp s = Some (incrementalPID s, ?s')"
    using sys_fork_unfold [OF l d a tc, of ebp] c(1) h(1) by simp
  moreover have "kinv ?s' (spawned t Q)" using h(2) by (intro kinv_spawned [OF k t]) simp_all
  moreover have "frames_copied (data_frame (pagusr_table s) dp) fl (memory s) m"
    using c(2) fa.take_frames_Some [OF fr] dd by (simp add: frames_copied_def data_frame_shared)
  moreover have "pt (dn * 1024 + p) = pagusr_table s (dp * 1024 + p)" if "1 \<le> p" "p < 264" for p
  proof -
    have "dn * 1024 + p \<noteq> dp * 1024 + (284 + (0 + j))" if "j < 20" for j
      using that dd \<open>p < 264\<close> by (intro other_entry) simp_all
    then have "pt (dn * 1024 + p) = shared_table dn dp (pagusr_table s) (dn * 1024 + p)"
      using c(4) that by simp
    then show ?thesis using that by (simp add: shared_table_apply [OF dd])
  qed
  moreover have "pt (dp * 1024 + p) = pagusr_table s (dp * 1024 + p)" if "p < 284" for p
  proof -
    have "dp * 1024 + p \<noteq> dn * 1024 + (264 + (0 + j))" if "j < 20" for j
      using that dd \<open>p < 284\<close> by (intro other_entry) simp_all
    then have "pt (dp * 1024 + p) = shared_table dn dp (pagusr_table s) (dp * 1024 + p)"
      using c(4) that by simp
    then show ?thesis using that by (simp add: shared_table_parent [OF dd])
  qed
  moreover have "pt k = pagusr_table s k"
    if "\<not> (dn * 1024 + 1 \<le> k \<and> k < dn * 1024 + 284)" "\<not> (dp * 1024 + 284 \<le> k \<and> k < dp * 1024 + 304)" for k
  proof -
    have "k \<noteq> dn * 1024 + (264 + (0 + j)) \<and> k \<noteq> dp * 1024 + (284 + (0 + j))" if "j < 20" for j
      using that \<open>\<not> (dn * 1024 + 1 \<le> k \<and> k < dn * 1024 + 284)\<close>
        \<open>\<not> (dp * 1024 + 284 \<le> k \<and> k < dp * 1024 + 304)\<close> by auto
    then have "pt k = shared_table dn dp (pagusr_table s) k" using c(4) by simp
    then show ?thesis using that(1) by (auto simp: shared_table_apply [OF dd])
  qed
  moreover have "tasks ?s' = (tasks s)(t := fork_child ebp s dn)"
    by (rule ext) (simp add: fork_child_def)
  moreover have "kstack ?s' t = fork_stack ebp s" by (simp add: fork_stack_def)
  moreover have "cr3 ?s' = cr3 s" using a tc by (simp add: get_DIR_def aspace_ok_def)
  ultimately show ?thesis using c(3) by (intro exI [of _ ?s']) simp
qed

text \<open>No free descriptor, no free directory.\<close>

lemma sys_fork_no_pcb:
  assumes "kinv s Q" "Q FreeQ = []"
  shows "sys_fork ebp s = Some (- ENOMEM, s)"
  using qinv_empty [of s Q FreeQ] assms by (simp add: sys_fork_def kinv_def)

lemma sys_fork_no_directory:
  assumes k: "kinv s Q" and t: "Q FreeQ = t # ts" and d: "\<forall>d<15. refs_DIR s d \<noteq> 0"
  shows "\<exists>h. sys_fork ebp s = Some (- ENOMEM, copy_union (cur s) t (s\<lparr>links := h\<rparr>)) \<and>
    lq.family h (tlists (Q(FreeQ := ts))) (heads s)"
proof -
  have q: "qinv s Q" using k by (simp add: kinv_def)
  obtain h where h: "list_del (links s) (TaskL t) = Some h"
    "lq.family h ((tlists Q)(FreeQ := map TaskL ts)) (heads s)"
    using lq.family_pop [of "links s" "tlists Q" "heads s" FreeQ "TaskL t" "map TaskL ts"] q t
    by (auto simp: qinv_def tlists_def)
  let ?s1 = "copy_union (cur s) t (s\<lparr>links := h\<rparr>)"
  have "allocate_DIR ?s1 t = (- 1, ?s1)" using allocate_DIR_cases [of ?s1 t] d by auto
  then show ?thesis
    using h qinv_first [OF q _ t] qinv_empty [OF q, of FreeQ] t
    by (intro exI [of _ h]) (simp add: sys_fork_def tlists_upd)
qed

text \<open>
  The copy loop in general: it ends; it takes frames from the free set only and, when it fails,
  gives back all of them except frame 256; it writes the child's data entries and clears the temporary ones.
\<close>

lemma free_frames_rollback:
  "\<forall>f\<in>set fs. unat f \<in> frame_pool \<Longrightarrow>
    free_frames (foldl free_frame pm fs) = free_frames pm \<union> (unat ` set fs - {256})"
proof (induction fs arbitrary: pm)
  case (Cons f fs)
  have "free_frames (free_frame pm f) = free_frames pm \<union> ({unat f} - {256})"
  proof (cases "unat f = 256")
    case True
    then show ?thesis by (simp add: free_frame_def)
  qed (use Cons.prems free_frames_free [of f pm] in auto)
  then show ?case using Cons by auto
qed simp

lemma foldl_free_frame_map:
  "foldl (\<lambda>pm j. free_frame pm (g j)) pm xs = foldl free_frame pm (map g xs)"
  by (induction xs arbitrary: pm) simp_all

definition loop_entries :: "nat \<Rightarrow> nat \<Rightarrow> tables \<Rightarrow> tables \<Rightarrow> bool" where
  "loop_entries dn dp pt pt' \<longleftrightarrow>
     (\<forall>k. \<not> (dn * 1024 + 264 \<le> k \<and> k < dn * 1024 + 284) \<longrightarrow>
       pt' k = pt k \<or> pt' k = 0 \<and> dp * 1024 + 284 \<le> k \<and> k < dp * 1024 + 304)"

lemma loop_entries_step:
  assumes "loop_entries dn dp (page_done dn dp i f pt) pt'" "i < 20"
  shows "loop_entries dn dp pt pt'"
  unfolding loop_entries_def
proof (intro allI impI)
  fix k assume k: "\<not> (dn * 1024 + 264 \<le> k \<and> k < dn * 1024 + 284)"
  have p: "page_done dn dp i f pt k = (if k = dp * 1024 + (284 + i) then 0 else pt k)"
    using k assms(2) by (auto simp: page_done_def)
  have "pt' k = page_done dn dp i f pt k \<or> pt' k = 0 \<and> dp * 1024 + 284 \<le> k \<and> k < dp * 1024 + 304"
    using assms(1) k unfolding loop_entries_def by blast
  then show "pt' k = pt k \<or> pt' k = 0 \<and> dp * 1024 + 284 \<le> k \<and> k < dp * 1024 + 304"
    using assms(2) unfolding p by (auto split: if_splits)
qed

lemma fork_data_pages_cases:
  assumes "fork_ctx dn dp s" "i + n = 20" "length fs = i" "\<forall>f\<in>set fs. 0 \<le> f"
    and "F = nat ` set fs \<union> free_frames (phys_mem s)" "F \<subseteq> frame_pool"
  shows "\<exists>ok m pt pm. fork_data_pages (dn * 1024) (dp * 1024) fs i s =
      Some (ok, s\<lparr>phys_mem := pm, memory := m, pagusr_table := pt\<rparr>) \<and> free_frames pm \<subseteq> F \<and>
    loop_entries dn dp (pagusr_table s) pt \<and> (\<not> ok \<longrightarrow> free_frames pm = F - {256}) \<and> (ok \<longrightarrow> n \<le> card (free_frames (phys_mem s)))"
  using assms
proof (induction n arbitrary: i fs s)
  case 0
  then show ?case
    by (intro exI [of _ True] exI [of _ "memory s"] exI [of _ "pagusr_table s"] exI [of _ "phys_mem s"])
      (simp add: fork_data_pages.simps loop_entries_def)
next
  case (Suc n)
  obtain f pm where al: "alloc_frame (phys_mem s) = (f, pm)" by fastforce
  show ?case
  proof (cases "f < 0")
    case True
    let ?pm = "foldl (\<lambda>pm j. free_frame pm (word_of_int (fs ! j))) pm (rev [0..<i])"
    let ?ws = "map (\<lambda>j. word_of_int (fs ! j) :: u32) (rev [0..<i])"
    have none: "free_frames pm = {}" "free_frames (phys_mem s) = {}" using fa.alloc_fail [OF al True] by simp_all
    have w: "unat (word_of_int (fs ! j) :: u32) = nat (fs ! j) \<and> nat (fs ! j) \<in> F" if "j < i" for j
    proof -
      have f: "0 \<le> fs ! j" "nat (fs ! j) \<in> F" using Suc.prems(3-5) that by auto
      then have "nat (fs ! j) < 1024" using Suc.prems(6) by (auto simp: frame_pool_def)
      then show ?thesis using f unat_of_nat_u32 [of "nat (fs ! j)"] by simp
    qed
    have "unat ` set ?ws = (\<lambda>j. nat (fs ! j)) ` {0..<i}" using w by (auto simp: image_image)
    also have "\<dots> = nat ` (!) fs ` {0..<i}" by (simp add: image_image)
    also have "(!) fs ` {0..<i} = set fs" using Suc.prems(3) nth_image [of i fs] by (simp add: atLeast0LessThan)
    finally have u: "unat ` set ?ws = F" using Suc.prems(5) none by simp
    have "\<forall>f\<in>set ?ws. unat f \<in> frame_pool" using u Suc.prems(6) by blast
    from free_frames_rollback [OF this, of pm] have "free_frames (foldl free_frame pm ?ws) = F - {256}"
      unfolding u none(1) by (simp only: Un_empty_left)
    then have "free_frames ?pm = F - {256}" by (subst foldl_free_frame_map)
    moreover have "fork_data_pages (dn * 1024) (dp * 1024) fs i s = Some (False, s\<lparr>phys_mem := ?pm\<rparr>)"
      using True al Suc.prems(2) by (subst fork_data_pages.simps) simp
    ultimately show ?thesis
      by (intro exI [of _ False] exI [of _ "memory s"] exI [of _ "pagusr_table s"] exI [of _ ?pm])
        (auto simp: loop_entries_def)
  next
    case False
    then have f: "0 \<le> f" "i < 20" using Suc.prems(2) by simp_all
    have fr: "nat f \<in> free_frames (phys_mem s)" "free_frames pm = free_frames (phys_mem s) - {nat f}"
      using fa.alloc_ok [OF al f(1)] by simp_all
    obtain m where m: "fork_data_pages (dn * 1024) (dp * 1024) fs i s =
        fork_data_pages (dn * 1024) (dp * 1024) (fs @ [f]) (Suc i)
        (s\<lparr>phys_mem := pm, memory := m, pagusr_table := page_done dn dp i (nat f) (pagusr_table s)\<rparr>)"
      using fork_page_step [OF Suc.prems(1) f(2) al f(1)] by blast
    let ?s = "s\<lparr>phys_mem := pm, memory := m, pagusr_table := page_done dn dp i (nat f) (pagusr_table s)\<rparr>"
    have "\<exists>ok m pt pm. fork_data_pages (dn * 1024) (dp * 1024) (fs @ [f]) (Suc i) ?s =
        Some (ok, ?s\<lparr>phys_mem := pm, memory := m, pagusr_table := pt\<rparr>) \<and> free_frames pm \<subseteq> F \<and>
      loop_entries dn dp (pagusr_table ?s) pt \<and> (\<not> ok \<longrightarrow> free_frames pm = F - {256}) \<and>
      (ok \<longrightarrow> n \<le> card (free_frames (phys_mem ?s)))"
      using Suc.prems f fr by (intro Suc.IH fork_ctx_step [OF Suc.prems(1) f(2) al f(1)]) auto
    then obtain ok m' pt' pm' where r: "fork_data_pages (dn * 1024) (dp * 1024) (fs @ [f]) (Suc i) ?s =
        Some (ok, ?s\<lparr>phys_mem := pm', memory := m', pagusr_table := pt'\<rparr>)" "free_frames pm' \<subseteq> F"
      "loop_entries dn dp (pagusr_table ?s) pt'" "\<not> ok \<longrightarrow> free_frames pm' = F - {256}"
      "ok \<longrightarrow> n \<le> card (free_frames pm)" by auto
    have "loop_entries dn dp (pagusr_table s) pt'" using r(3) loop_entries_step f(2) by auto
    moreover have "Suc (card (free_frames pm)) = card (free_frames (phys_mem s))"
      unfolding fr(2) by (intro card.remove [symmetric] finite_free_frames fr(1))
    ultimately show ?thesis using m r(1,2,4,5)
      by (intro exI [of _ ok] exI [of _ m'] exI [of _ pt'] exI [of _ pm']) auto
  qed
qed

text \<open>
  \<open>fork\<close> without 20 free frames: it fails, but the descriptor \<open>t\<close> and the directory \<open>dn\<close> stay
  taken.
\<close>

lemma sys_fork_no_frames:
  assumes k: "kinv s Q" and t: "Q FreeQ = t # ts"
    and d: "dn < 15" "refs_DIR s dn = 0" "\<forall>k<dn. refs_DIR s k \<noteq> 0"
    and a: "aspace_ok dp s" and fr: "card (free_frames (phys_mem s)) < 20"
  shows "\<exists>h m pt pm. sys_fork ebp s = Some (- ENOMEM, (fork_start t dn dp h s)
      \<lparr>phys_mem := pm, memory := m, pagusr_table := pt\<rparr>) \<and>
    lq.family h (tlists (Q(FreeQ := ts))) (heads s) \<and> free_frames pm = free_frames (phys_mem s) - {256} \<and>
    loop_entries dn dp (shared_table dn dp (pagusr_table s)) pt"
proof -
  have tc: "t \<noteq> cur s" using kinv_running_not_queued [OF k, of FreeQ] t by auto
  have dd: "dn \<noteq> dp" using a d(2) by (auto simp: aspace_ok_def)
  have q: "qinv s Q" using k by (simp add: kinv_def)
  obtain h where h: "list_del (links s) (TaskL t) = Some h"
    "lq.family h ((tlists Q)(FreeQ := map TaskL ts)) (heads s)"
    using lq.family_pop [of "links s" "tlists Q" "heads s" FreeQ "TaskL t" "map TaskL ts"] q t
    by (auto simp: qinv_def tlists_def)
  have l: "\<not> list_empty (links s) FreeQ" "list_first (links s) FreeQ = Some (TaskL t)"
    using qinv_empty [OF q, of FreeQ] qinv_first [OF q, of FreeQ] t by auto
  let ?s4 = "fork_start t dn dp h s"
  obtain ok m pt pm where c: "fork_data_pages (dn * 1024) (dp * 1024) [] 0 ?s4 =
      Some (ok, ?s4\<lparr>phys_mem := pm, memory := m, pagusr_table := pt\<rparr>)"
    "\<not> ok \<longrightarrow> free_frames pm = free_frames (phys_mem s) - {256}" "loop_entries dn dp (pagusr_table ?s4) pt"
    "ok \<longrightarrow> 20 \<le> card (free_frames (phys_mem ?s4))"
    using fork_data_pages_cases [OF fork_start_ctx [OF a d(1) dd tc, of h], of 0 20 "[]" "free_frames (phys_mem s)"]
    by (auto simp: free_frames_def)
  have no: "\<not> ok" using c(4) fr by simp
  then have "sys_fork ebp s = Some (- ENOMEM, ?s4\<lparr>phys_mem := pm, memory := m, pagusr_table := pt\<rparr>)"
    using sys_fork_unfold [OF l h(1) d a tc, of ebp] c(1) no by simp
  then show ?thesis using c(2,3) no h(2) unfolding tlists_upd [symmetric] fork_start_simps by blast
qed

section \<open>clone\<close>

definition clone_child :: "nat \<Rightarrow> kstate \<Rightarrow> task_struct" where
  "clone_child ebp s =
     (tasks s (cur s))\<lparr>PID := incrementalPID s, kernel_esp := StackIx ebp, estado := ST_READY,
       estadisticas := init_stats (estadisticas (tasks s (cur s)))\<rparr>"

definition clone_stack :: "u32 \<Rightarrow> u32 \<Rightarrow> kstate \<Rightarrow> nat \<Rightarrow> stackword" where
  "clone_stack function_addr stack s = (kstack s (cur s))(1022 := Data stack, 1019 := Data function_addr)"

definition clone_state :: "nat \<Rightarrow> u32 \<Rightarrow> u32 \<Rightarrow> nat \<Rightarrow> ptr links \<Rightarrow> kstate \<Rightarrow> kstate" where
  "clone_state ebp function_addr stack t h s =
     s\<lparr>tasks := (tasks s)(t := clone_child ebp s),
       kstack := (kstack s)(t := clone_stack function_addr stack s), links := h,
       refs_DIR := (refs_DIR s)(n_directorio (tasks s (cur s)) :=
         i32 (refs_DIR s (n_directorio (tasks s (cur s))) + 1)),
       incrementalPID := i32 (incrementalPID s + 1)\<rparr>"

lemma sys_clone_runs:
  assumes k: "kinv s Q" and t: "Q FreeQ = t # ts"
    and ok: "access_ok VERIFY_WRITE stack 4 \<noteq> 0" "access_ok VERIFY_READ function_addr 4 \<noteq> 0"
  shows "\<exists>h. sys_clone ebp function_addr stack s =
      Some (incrementalPID s, clone_state ebp function_addr stack t h s) \<and>
    kinv (clone_state ebp function_addr stack t h s) (spawned t Q)"
proof -
  have tc: "t \<noteq> cur s" using kinv_running_not_queued [OF k, of FreeQ] t by auto
  obtain h1 where l: "\<not> list_empty (links s) FreeQ" "list_first (links s) FreeQ = Some (TaskL t)"
    "list_del (links s) (TaskL t) = Some h1"
    and h2: "\<And>v. \<exists>h2. list_add_tail (h1(TaskL t := v)) (TaskL t) ReadyQ = Some h2 \<and>
         lq.family h2 (tlists (spawned t Q)) (heads s)"
    using spawn_links [OF k t] by blast
  obtain h where h: "list_add_tail (h1(TaskL t := h1 (TaskL (cur s)))) (TaskL t) ReadyQ = Some h"
    "lq.family h (tlists (spawned t Q)) (heads s)"
    using h2 by blast
  have "sys_clone ebp function_addr stack s =
      Some (incrementalPID s, clone_state ebp function_addr stack t h s)"
    using l h(1) ok tc
    by (simp add: sys_clone_def clone_state_def clone_child_def clone_stack_def copy_union_def
        upd_task_def upd_stats_def Let_def fun_upd_def fun_eq_iff cong: if_cong)
  moreover have "kinv (clone_state ebp function_addr stack t h s) (spawned t Q)"
    using h(2) by (intro kinv_spawned [OF k t]) (simp_all add: clone_state_def clone_child_def)
  ultimately show ?thesis by blast
qed

section \<open>exit\<close>

text \<open>Adding an element twice at the end of a queue leaves it pointing to itself.\<close>

lemma double_add_tail:
  assumes r: "queue_repr h q xs" and p: "p \<notin> insert q (set xs)"
  shows "\<exists>h1 h2. list_add_tail h p q = Some h1 \<and> list_add_tail h1 p q = Some h2 \<and>
    nxt (h2 p) = Some p \<and> prv (h2 q) = Some p \<and>
    (\<forall>x. x \<notin> insert p (insert q (set xs)) \<longrightarrow> h2 x = h x)"
proof -
  obtain h1 where h1: "list_add_tail h p q = Some h1" "queue_repr h1 q (xs @ [p])"
    "\<forall>x. x \<notin> insert p (insert q (set xs)) \<longrightarrow> h1 x = h x"
    using list_add_tail_repr [OF r p] by blast
  have "prv (h1 q) = Some p" using h1(2) chain_last [of h1 q "xs @ [p]" q] by (simp add: queue_repr_def)
  then have "list_add_tail h1 p q = Some (h1(q := (h1 q)\<lparr>prv := Some p\<rparr>, p := \<lparr>nxt = Some p, prv = Some p\<rparr>))"
    using p by (auto simp: list_add_tail_def list_add_between_def Let_def intro!: list_head_eqI)
  then show ?thesis using h1 p by auto
qed

lemma self_loop_not_queue:
  assumes "nxt (h p) = Some p" "prv (h q) = Some p" "p \<noteq> q"
  shows "\<not> queue_repr h q xs"
proof
  assume r: "queue_repr h q xs"
  then have "last (q # xs) = p" using chain_last [of h q xs q] assms(2) by (simp add: queue_repr_def)
  then obtain ys where "xs = ys @ [p]" using assms(3) by (cases xs rule: rev_cases) auto
  then have "nxt (h p) = Some q" using r by (simp add: queue_repr_def chain_append)
  then show False using assms(1,3) by simp
qed

text \<open>The loop of \<open>sys_exit\<close> is \<open>free_user_pages\<close> on the table of the process.\<close>

lemma release_data_pages_free:
  "release_data_pages pt s =
     s\<lparr>phys_mem := snd (free_user_pages pt (pagusr_table s) (phys_mem s)),
       pagusr_table := fst (free_user_pages pt (pagusr_table s) (phys_mem s))\<rparr>"
proof -
  let ?f = "\<lambda>s p. s\<lparr>phys_mem := free_frame (phys_mem s) (get_frame (pagusr_table s) pt (264 + p)),
        pagusr_table := del_ss_pag (pagusr_table s) pt (264 + p)\<rparr>"
  let ?g = "\<lambda>(t, pm) p. (t(pt + (264 + p) := 0), free_frame pm (pte_pbase (t (pt + (264 + p)))))"
  have "foldl ?f s ps = s\<lparr>phys_mem := snd (foldl ?g (pagusr_table s, phys_mem s) ps),
      pagusr_table := fst (foldl ?g (pagusr_table s, phys_mem s) ps)\<rparr>" for ps :: "nat list"
  proof (induction ps rule: rev_induct)
    case (snoc p ps)
    obtain t pm where e: "foldl ?g (pagusr_table s, phys_mem s) ps = (t, pm)" by fastforce
    have "foldl ?f s (ps @ [p]) = ?f (foldl ?f s ps) p" by simp
    also have "\<dots> = ?f (s\<lparr>phys_mem := pm, pagusr_table := t\<rparr>) p" unfolding snoc.IH e by simp
    finally have 1: "foldl ?f s (ps @ [p]) = ?f (s\<lparr>phys_mem := pm, pagusr_table := t\<rparr>) p" .
    have 2: "foldl ?g (pagusr_table s, phys_mem s) (ps @ [p]) = ?g (t, pm) p" using e by simp
    show ?case unfolding 1 2 by (simp add: get_frame_def del_ss_pag_def fun_upd_def)
  qed simp
  then show ?thesis by (simp add: release_data_pages_def free_user_pages_def Let_def)
qed

lemma destroy_owned_none:
  "\<forall>i\<in>set is. owner (semaphores s i) \<noteq> PID (tasks s (cur s)) \<Longrightarrow> destroy_owned is s = Some s"
  by (induction "is") auto

text \<open>The first block of \<open>sys_exit\<close>.\<close>

definition exit_refs :: "kstate \<Rightarrow> int" where
  "exit_refs s = i32 (refs_DIR s (n_directorio (tasks s (cur s))) - 1)"

definition exit_release :: "kstate \<Rightarrow> kstate option" where
  "exit_release s =
     (let s1 = s\<lparr>refs_DIR := (refs_DIR s)(n_directorio (tasks s (cur s)) := exit_refs s)\<rparr> in
      if exit_refs s = 0 then do { pt \<leftarrow> PT_of s1 (cur s); Some (release_data_pages pt s1) } else Some s1)"

lemma sys_exit_unfold:
  "sys_exit s =
     do {
       s2 \<leftarrow> exit_release s;
       h \<leftarrow> list_add_tail (links s2) (TaskL (cur s2)) FreeQ;
       s4 \<leftarrow> destroy_owned [0..<20] (s2\<lparr>links := h\<rparr>);
       s6 \<leftarrow> update_process_state_rr (cur s4) (Some FreeQ) (upd_task (cur s4) (PID_update (\<lambda>_. - 1)) s4);
       sched_next_rr K_exit s6
     }"
  by (simp add: sys_exit_def exit_release_def exit_refs_def get_DIR_position_def Let_def
      del: upt_rec_numeral)

lemma exit_release_frame:
  assumes "exit_release s = Some s2"
  shows "cur s2 = cur s" "links s2 = links s" "tasks s2 = tasks s" "semaphores s2 = semaphores s"
    "idle_task s2 = idle_task s" "qLeft s2 = qLeft s"
  using assms by (auto simp: exit_release_def Let_def release_data_pages_free split: if_splits bind_splits)

text \<open>The choice of the next process needs the ready queue only.\<close>

lemma sched_next_links:
  assumes r: "queue_repr (links s) ReadyQ (map TaskL R)" and i: "idle_task s = Some i"
    and e: "\<forall>t\<in>set R. estado (tasks s t) = ST_READY"
  shows "\<exists>s'. sched_next_rr k s = Some s' \<and> cur s' = (case R of [] \<Rightarrow> i | t # _ \<Rightarrow> t) \<and>
    (\<forall>x. x \<notin> insert ReadyQ (TaskL ` set R) \<longrightarrow> links s' x = links s x) \<and>
    (\<forall>t. PID (tasks s' t) = PID (tasks s t))"
proof (cases R)
  case Nil
  then have "sched_next_rr k s = Some (task_switch k i s)"
    using list_empty_repr [OF r] i by (simp add: sched_next_rr_def)
  moreover have "PID (tasks (task_switch k i s) t) = PID (tasks s t)" for t
    using sched_frame_switch [of s k i] by (simp add: sched_frame_def)
  ultimately show ?thesis using Nil by simp
next
  case (Cons t ts)
  let ?s1 = "s\<lparr>qLeft := get_quantum s t\<rparr>"
  obtain s2 where s2: "charge system_ticks_update t ?s1 = Some s2" "stats_only ?s1 s2"
    using charge_Some by blast
  obtain s3 where s3: "charge ready_ticks_update t s2 = Some s3" "stats_only s2 s3"
    using charge_Some by blast
  let ?s4 = "upd_stats t (total_trans_update (\<lambda>v. v + 1)) s3"
  have so: "stats_only ?s1 ?s4"
    by (rule stats_only_trans [OF stats_only_trans [OF s2(2) s3(2)] stats_only_upd])
  note f = stats_only_fields [OF so]
  obtain h where h: "list_del (links s) (TaskL t) = Some h"
    "\<forall>x. x \<notin> insert ReadyQ (set ([] @ TaskL t # map TaskL ts)) \<longrightarrow> h x = links s x"
    using list_del_repr [of "links s" ReadyQ "[]" "TaskL t" "map TaskL ts"] r Cons by auto
  have "update_process_state_rr t None ?s4 = Some (requeued t h ST_RUN ?s4)"
    using h(1) e Cons by (simp add: update_process_state_rr_def requeued_def f)
  then have "sched_next_rr k s = Some (task_switch k t (requeued t h ST_RUN ?s4))"
    using list_empty_repr [OF r] list_first_repr [of "links s" ReadyQ "TaskL t" "map TaskL ts"] r Cons s2(1) s3(1)
    by (simp add: sched_next_rr_def Let_def)
  moreover have "PID (tasks (task_switch k t (requeued t h ST_RUN ?s4)) u) = PID (tasks s u)" for u
    using sched_frame_switch [of "requeued t h ST_RUN ?s4" k t] by (simp add: sched_frame_def f)
  ultimately show ?thesis using h(2) Cons by auto
qed

text \<open>
  \<open>sys_exit\<close> of a process without semaphores. The descriptor is put in the free queue twice, and
  from then on the free queue is not a list any more.
\<close>

lemma sys_exit_effect:
  assumes k: "kinv s Q" and o: "\<forall>i<20. owner (semaphores s i) \<noteq> PID (tasks s (cur s))"
    and r: "exit_release s = Some s2"
  shows "\<exists>s'. sys_exit s = Some s' \<and> cur s' = next_task s Q \<and> PID (tasks s' (cur s)) = - 1 \<and>
    nxt (links s' (TaskL (cur s))) = Some (TaskL (cur s)) \<and> prv (links s' FreeQ) = Some (TaskL (cur s))"
proof -
  let ?c = "TaskL (cur s)"
  note f2 = exit_release_frame [OF r]
  have q: "qinv s Q" using k by (simp add: kinv_def)
  obtain i where i: "idle_task s = Some i" using kinv_idle_Some [OF k] by blast
  have run: "estado (tasks s (cur s)) = ST_RUN" using k by (simp add: kinv_def run_inv_def)
  have nF: "?c \<notin> insert FreeQ (set (map TaskL (Q FreeQ)))"
    using kinv_running_not_queued [OF k, of FreeQ] by auto
  obtain h1 h2 where h: "list_add_tail (links s) ?c FreeQ = Some h1" "list_add_tail h1 ?c FreeQ = Some h2"
    "nxt (h2 ?c) = Some ?c" "prv (h2 FreeQ) = Some ?c"
    "\<forall>x. x \<notin> insert ?c (insert FreeQ (set (map TaskL (Q FreeQ)))) \<longrightarrow> h2 x = links s x"
    using double_add_tail [OF qinv_repr [OF q heads_basic(1)] nF] by blast
  let ?s5 = "upd_task (cur s) (PID_update (\<lambda>_. - 1)) (s2\<lparr>links := h1\<rparr>)"
  let ?s6 = "requeued (cur s) h2 ST_BLOCKED ?s5"
  have dO: "destroy_owned [0..<20] (s2\<lparr>links := h1\<rparr>) = Some (s2\<lparr>links := h1\<rparr>)"
    using o by (intro destroy_owned_none) (simp add: f2)
  have cl: "cur (s2\<lparr>links := h1\<rparr>) = cur s" by (simp add: f2)
  have u: "update_process_state_rr (cur s) (Some FreeQ) ?s5 = Some ?s6"
    using h(2) run by (simp add: update_process_state_rr_def requeued_def f2)
  have rr: "TaskL u \<notin> insert ?c (insert FreeQ (set (map TaskL (Q FreeQ))))" if "u \<in> set (Q ReadyQ)" for u
    using that qinv_disjoint [OF q, of ReadyQ FreeQ u] kinv_running_not_queued [OF k, of ReadyQ] by auto
  have "queue_repr h2 ReadyQ (map TaskL (Q ReadyQ))"
  proof (rule queue_repr_frame [OF qinv_repr [OF q heads_basic(2)]])
    fix x assume "x \<in> insert ReadyQ (set (map TaskL (Q ReadyQ)))"
    then have "x = ReadyQ \<or> (\<exists>u\<in>set (Q ReadyQ). x = TaskL u)" by auto
    moreover have "ReadyQ \<notin> insert ?c (insert FreeQ (set (map TaskL (Q FreeQ))))" by auto
    ultimately have "x \<notin> insert ?c (insert FreeQ (set (map TaskL (Q FreeQ))))" using rr by blast
    then show "h2 x = links s x" using h(5) by blast
  qed
  moreover have "\<forall>t\<in>set (Q ReadyQ). estado (tasks ?s6 t) = ST_READY"
  proof
    fix t assume t: "t \<in> set (Q ReadyQ)"
    have "estado (tasks s t) = qstate ReadyQ"
      using q t heads_basic(2) [of s] unfolding qinv_def by blast
    then have "estado (tasks s t) = ST_READY" by (simp add: qstate_def)
    moreover have "t \<noteq> cur s" using t kinv_running_not_queued [OF k, of ReadyQ] by auto
    ultimately show "estado (tasks ?s6 t) = ST_READY" by (simp add: f2)
  qed
  ultimately obtain s' where s': "sched_next_rr K_exit ?s6 = Some s'"
    "cur s' = (case Q ReadyQ of [] \<Rightarrow> i | t # _ \<Rightarrow> t)"
    "\<forall>x. x \<notin> insert ReadyQ (TaskL ` set (Q ReadyQ)) \<longrightarrow> links s' x = links ?s6 x"
    "\<forall>t. PID (tasks s' t) = PID (tasks ?s6 t)"
    using sched_next_links [of ?s6 "Q ReadyQ" i K_exit] i by (auto simp: f2)
  have "?c \<notin> insert ReadyQ (TaskL ` set (Q ReadyQ))"
    using kinv_running_not_queued [OF k, of ReadyQ] by auto
  then have "links s' ?c = h2 ?c" "links s' FreeQ = h2 FreeQ" using s'(3) by auto
  moreover have "sys_exit s = Some s'"
    unfolding sys_exit_unfold r bind.bind_lunit f2 h(1) dO cl u by (rule s'(1))
  moreover have "cur s' = next_task s Q"
    using s'(2) i by (simp add: next_task_def split: list.splits)
  ultimately show ?thesis using h(3,4) s'(4) by (intro exI [of _ s']) simp
qed

section \<open>The data of a process\<close>

text \<open>The bytes a process with directory \<open>d\<close> has in its data pages.\<close>

definition data_byte :: "kstate \<Rightarrow> nat \<Rightarrow> nat \<Rightarrow> nat \<Rightarrow> u8 option" where
  "data_byte s d i k =
     load8 (mmu_walk (pagusr_addr s) (dir_pages s) (pagusr_table s) d) (memory s) (of_nat ((264 + i) * 4096 + k))"

lemma data_byte_mapped:
  assumes "table_addr_ok (pagusr_addr s)" "d < 15" "dir_pages s (d * 1024) = dir_entry (pagusr_addr s) d"
    and "i < 20" "k < 4096" "pte_present (pagusr_table s (d * 1024 + (264 + i)))"
    and "data_frame (pagusr_table s) d i < 1024"
  shows "data_byte s d i k = Some (memory s (faddr (data_frame (pagusr_table s) d i) k))"
proof -
  have "mmu_walk (pagusr_addr s) (dir_pages s) (pagusr_table s) d (of_nat ((264 + i) * 4096 + k)) =
      Some (faddr (data_frame (pagusr_table s) d i) k)"
    using assms by (intro mmu_walk_page) (simp_all add: data_frame_def)
  then show ?thesis by (simp add: data_byte_def load8_def)
qed

text \<open>A free descriptor that is taken and not queued again is lost; the rest goes on.\<close>

lemma kinv_lost:
  assumes k: "kinv s Q" and t: "Q FreeQ = t # ts"
    and l: "lq.family h (tlists (Q(FreeQ := ts))) (heads s)" "links s' = h(TaskL t := v)"
    and e: "semaphores s' = semaphores s" "cur s' = cur s" "idle_task s' = idle_task s"
    and st: "\<And>u. u \<noteq> t \<Longrightarrow> estado (tasks s' u) = estado (tasks s u)"
  shows "kinv s' (Q(FreeQ := ts))"
proof -
  have q: "qinv s Q" "run_inv s Q" "idle_inv s Q" using k by (simp_all add: kinv_def)
  have h: "heads s' = heads s" using e(1) by (rule heads_cong)
  have d: "distinct (t # ts)" using qinv_distinct [OF q(1), of FreeQ] t by simp
  have n: "t \<notin> set ((Q(FreeQ := ts)) r)" if "r \<in> heads s" for r
    using d qinv_disjoint [OF q(1) heads_basic(1) that] t by (cases "r = FreeQ") auto
  have "lq.family (links s') (tlists (Q(FreeQ := ts))) (heads s)"
  proof (rule lq.family_agree [OF l(1)])
    fix r assume "r \<in> heads s"
    then show "links_agree h (links s') (insert r (set (tlists (Q(FreeQ := ts)) r)))"
      using n [of r] TaskL_heads by (auto simp: links_agree_def l(2) tlists_def)
  qed
  moreover have "\<forall>r\<in>heads s. \<forall>u\<in>set ((Q(FreeQ := ts)) r). u < 15 \<and> (r \<noteq> FreeQ \<longrightarrow> estado (tasks s' u) = qstate r)"
  proof (intro ballI)
    fix r u assume ru: "r \<in> heads s" "u \<in> set ((Q(FreeQ := ts)) r)"
    then have "u \<in> set (Q r)" "u \<noteq> t" using t n [OF ru(1)] by (auto split: if_splits)
    then show "u < 15 \<and> (r \<noteq> FreeQ \<longrightarrow> estado (tasks s' u) = qstate r)"
      using q(1) ru(1) st by (auto simp: qinv_def)
  qed
  moreover have "run_inv s' (Q(FreeQ := ts))"
  proof -
    have "cur s \<noteq> t" using kinv_running_not_queued [OF k, of FreeQ] t by auto
    moreover have "cur s \<notin> set ts" using kinv_running_not_queued [OF k, of FreeQ] t by simp
    ultimately show ?thesis using q(2) t e st unfolding run_inv_def in_queue_def h by auto
  qed
  moreover have "idle_inv s' (Q(FreeQ := ts))"
  proof -
    obtain i where i: "idle_task s = Some i" "i < 15" "\<forall>r\<in>heads s. r \<noteq> ReadyQ \<longrightarrow> i \<notin> set (Q r)"
        "i \<notin> set (Q ReadyQ) \<longrightarrow> estado (tasks s i) = ST_RUN"
      using q(3) by (auto simp: idle_inv_def)
    then have "i \<noteq> t" using t by auto
    then show ?thesis using i e st t unfolding idle_inv_def h by auto
  qed
  ultimately show ?thesis unfolding kinv_def qinv_def h by blast
qed

text \<open>The directory \<open>allocate_DIR\<close> finds.\<close>

lemma first_unused_directory:
  assumes "d0 < 15" "refs_DIR s d0 = 0"
  shows "\<exists>dn<15. refs_DIR s dn = 0 \<and> (\<forall>k<dn. refs_DIR s k \<noteq> 0)"
proof -
  obtain dn where "dn < 15 \<and> refs_DIR s dn = 0" "\<forall>k<dn. \<not> (k < 15 \<and> refs_DIR s k = 0)"
    using exists_least_iff [of "\<lambda>d. d < 15 \<and> refs_DIR s d = 0"] assms by auto
  then show ?thesis by (intro exI [of _ dn]) auto
qed

text \<open>Child and parent see the same bytes, in different frames.\<close>

lemma fork_pages:
  assumes a: "aspace_ok dp s" and dn: "dn < 15" and fl: "fa.take_frames 20 (phys_mem s) = (Some fl, pm)"
    and c: "frames_copied (data_frame (pagusr_table s) dp) fl (memory s) (memory s')"
      "\<forall>i<20. pagusr_table s' (dn * 1024 + (264 + i)) = mapped_entry (of_nat (fl ! i))"
      "\<forall>p<284. pagusr_table s' (dp * 1024 + p) = pagusr_table s (dp * 1024 + p)"
      "dir_pages s' = dir_pages s" "pagusr_addr s' = pagusr_addr s"
  shows "(\<forall>i<20. \<forall>k<4096. data_byte s' dn i k = data_byte s dp i k \<and> data_byte s' dp i k = data_byte s dp i k \<and>
       data_byte s dp i k \<noteq> None) \<and>
    (\<forall>i<20. \<forall>j<20. data_frame (pagusr_table s') dn i \<noteq> data_frame (pagusr_table s') dp j)"
proof -
  note fs = fa.take_frames_Some [OF fl]
  note as = a [unfolded aspace_ok_def]
  have f: "fl ! i < 1024" "fl ! i \<in> free_frames (phys_mem s)" "fl ! i \<in> set fl" if "i < 20" for i
  proof -
    show "fl ! i \<in> set fl" using fs that by simp
    then show "fl ! i \<in> free_frames (phys_mem s)" using fs by blast
    then show "fl ! i < 1024" by (simp add: free_frames_def frame_pool_def)
  qed
  have n: "data_frame (pagusr_table s') dn i = fl ! i" if "i < 20" for i
    using c(2) f(1) [OF that] that by (simp add: data_frame_def unat_of_nat_u32)
  have p: "data_frame (pagusr_table s') dp i = data_frame (pagusr_table s) dp i" if "i < 20" for i
    using c(3) that by (simp add: data_frame_def)
  have par: "data_byte s dp i k = Some (memory s (faddr (data_frame (pagusr_table s) dp i) k))"
    if "i < 20" "k < 4096" for i k
    using as that by (intro data_byte_mapped) simp_all
  have par': "data_byte s' dp i k = Some (memory s' (faddr (data_frame (pagusr_table s) dp i) k))"
    if "i < 20" "k < 4096" for i k
    unfolding p [OF that(1), symmetric] using as that c(3-5) p by (intro data_byte_mapped) simp_all
  have ch: "data_byte s' dn i k = Some (memory s' (faddr (fl ! i) k))" if "i < 20" "k < 4096" for i k
    unfolding n [OF that(1), symmetric] using as that c(2,4,5) dn n f by (intro data_byte_mapped) simp_all
  have "memory s' (faddr (fl ! i) k) = memory s (faddr (data_frame (pagusr_table s) dp i) k)"
    if "i < 20" "k < 4096" for i k
    using c(1) fs that by (simp add: frames_copied_def)
  moreover have "memory s' (faddr (data_frame (pagusr_table s) dp i) k) =
      memory s (faddr (data_frame (pagusr_table s) dp i) k)" if i: "i < 20" "k < 4096" for i k
  proof -
    have "faddr (data_frame (pagusr_table s) dp i) k \<noteq> faddr g l" if g: "g \<in> set fl" "l < 4096" for g l
    proof
      assume e: "faddr (data_frame (pagusr_table s) dp i) k = faddr g l"
      have "g \<in> free_frames (phys_mem s)" using g fs by blast
      moreover from this have "g < 1024" by (simp add: free_frames_def frame_pool_def)
      ultimately show False using faddr_inj [OF _ _ i(2) g(2) e] as i(1) by auto
    qed
    then show ?thesis using c(1) unfolding frames_copied_def by blast
  qed
  moreover have "data_frame (pagusr_table s') dn i \<noteq> data_frame (pagusr_table s') dp j" if "i < 20" "j < 20" for i j
    using n p f(2) [OF that(1)] as that by auto
  ultimately show ?thesis using par par' ch by auto
qed

end
