(* ===== verification/IOCalls.thy ===== *)
theory IOCalls
  imports Semaphores
begin

text \<open>
  Input and output: \<open>check_fd\<close>, \<open>sys_write\<close> and \<open>sys_read\<close> of \<open>sys.c\<close>, \<open>sys_read_keyboard\<close> of
  \<open>devices.c\<close>, and the keyboard and clock routines of \<open>interrupt.c\<close>. \<open>kbuf\<close> is the address of
  the buffer \<open>buff\<close> in the kernel stack of \<open>sys_write\<close>; a \<open>char\<close> is a byte, signed when it is
  converted to an address.
\<close>

section \<open>Descriptors\<close>

definition LECTURA :: int where [simp]: "LECTURA = 0"
definition ESCRIPTURA :: int where [simp]: "ESCRIPTURA = 1"
definition TAMWRITE :: int where [simp]: "TAMWRITE = 4"

definition check_fd :: "int \<Rightarrow> int \<Rightarrow> int" where
  "check_fd fd permissions =
     (if fd \<noteq> 1 \<and> fd \<noteq> 0 then - EBADF
      else if permissions \<noteq> ESCRIPTURA \<and> fd = 1 then - EACCES
      else if permissions \<noteq> LECTURA \<and> fd = 0 then - EACCES
      else 0)"

section \<open>write\<close>

text \<open>\<open>copy_from_user\<close> into \<open>buff\<close>, then \<open>sys_write_console\<close>: the body of the loop.\<close>

definition write_chunk :: "mmu \<Rightarrow> u32 \<Rightarrow> mem \<Rightarrow> console \<Rightarrow> u32 \<Rightarrow> int \<Rightarrow> (int \<times> mem \<times> console) option" where
  "write_chunk tr kbuf m c ubuf sz =
     do {
       (_, m1) \<leftarrow> copy_from_user tr m ubuf kbuf sz;
       (r, c1) \<leftarrow> sys_write_console c (\<lambda>i. load8 tr m1 (kbuf + word_of_int i)) sz;
       Some (r, m1, c1)
     }"

function write_loop :: "mmu \<Rightarrow> u32 \<Rightarrow> mem \<Rightarrow> console \<Rightarrow> u32 \<Rightarrow> int \<Rightarrow> int \<Rightarrow> (int \<times> mem \<times> console) option" where
  "write_loop tr kbuf m c ubuf sz ret =
     (if sz \<ge> TAMWRITE then
        do {
          (r, m1, c1) \<leftarrow> write_chunk tr kbuf m c ubuf TAMWRITE;
          write_loop tr kbuf m1 c1 (ubuf + 4) (sz - TAMWRITE) (ret + r)
        }
      else
        do {
          (r, m1, c1) \<leftarrow> write_chunk tr kbuf m c ubuf sz;
          Some (ret + r, m1, c1)
        })"
  by pat_completeness auto
termination by (relation "measure (\<lambda>(tr, kbuf, m, c, ubuf, sz, ret). nat sz)") auto

declare write_loop.simps [simp del]

definition sys_write :: "u32 \<Rightarrow> int \<Rightarrow> u32 \<Rightarrow> int \<Rightarrow> kstate \<Rightarrow> (int \<times> kstate) option" where
  "sys_write kbuf fd ubuf sz s =
     (if check_fd fd ESCRIPTURA \<noteq> 0 then Some (check_fd fd ESCRIPTURA, s)
      else if ubuf = 0 then Some (- EFAULT, s)
      else if sz < 0 then Some (- EINVAL, s)
      else if sz = 0 then Some (0, s)
      else
        do {
          (ret, m, c) \<leftarrow> write_loop (kmmu s) kbuf (memory s) (con s) ubuf sz 0;
          Some (ret, s\<lparr>memory := m, con := c\<rparr>)
        })"

section \<open>read\<close>

text \<open>
  The two inner loops of \<open>sys_read_keyboard\<close>: \<open>n\<close> keys are read. The call is
  \<open>copy_to_user(key, buff++, 1)\<close>, so the key itself is the source address.
\<close>

fun read_keys :: "nat \<Rightarrow> u32 \<Rightarrow> kstate \<Rightarrow> (u32 \<times> kstate) option" where
  "read_keys 0 buff s = Some (buff, s)"
| "read_keys (Suc n) buff s =
     do {
       (key, b) \<leftarrow> cirBuffRead (keyboardBuff s);
       let s1 = s\<lparr>keyboardBuff := b\<rparr>;
       (_, m) \<leftarrow> copy_to_user (kmmu s1) (memory s1) (scast key) buff 1;
       read_keys n (buff + 1) (s1\<lparr>memory := m\<rparr>)
     }"

text \<open>
  \<open>list_add\<close> to \<open>keyboardqueue\<close>, \<open>ST_BLOCKED\<close> and \<open>sched_next_rr\<close>: the end of the body of
  \<open>while(1)\<close>.
\<close>

definition block_on_keyboard :: "u32 \<Rightarrow> kstate \<Rightarrow> (outcome \<times> kstate) option" where
  "block_on_keyboard buff s =
     do {
       h \<leftarrow> list_add (links s) (TaskL (cur s)) KeyQ;
       let s1 = s\<lparr>links := h\<rparr>;
       let s2 = upd_task (cur s1) (estado_update (\<lambda>_. ST_BLOCKED)) s1;
       s3 \<leftarrow> sched_next_rr (K_read buff) s2;
       Some (Switched, s3)
     }"

text \<open>One run of the body of \<open>while(1)\<close>; it ends with the return or with another process.\<close>

definition read_keyboard_body :: "u32 \<Rightarrow> kstate \<Rightarrow> (outcome \<times> kstate) option" where
  "read_keyboard_body buff s =
     (let required = i32 (requiredKeys (tasks s (cur s)) - readKeys (tasks s (cur s))) in
      if cirBuffLenght (keyboardBuff s) \<ge> required then
        do {
          (_, s1) \<leftarrow> read_keys (nat (requiredKeys (tasks s (cur s)))) buff s;
          let s2 = upd_task (cur s1) (readKeys_update (\<lambda>r. i32 (r + required))) s1;
          Some (Ret (readKeys (tasks s2 (cur s2))), s2)
        }
      else if cirBuffFull (keyboardBuff s) \<noteq> 0 then
        do {
          (buff', s1) \<leftarrow> read_keys (nat CIRBUFFER_SIZE) buff s;
          let s2 = upd_task (cur s1) (readKeys_update (\<lambda>r. i32 (r + CIRBUFFER_SIZE))) s1;
          block_on_keyboard buff' s2
        }
      else block_on_keyboard buff s)"

definition sys_read_keyboard :: "u32 \<Rightarrow> int \<Rightarrow> kstate \<Rightarrow> (outcome \<times> kstate) option" where
  "sys_read_keyboard buff sz s =
     (let s1 = upd_task (cur s) (readKeys_update (\<lambda>_. 0)) s;
          s2 = upd_task (cur s1) (requiredKeys_update (\<lambda>_. sz)) s1
      in if \<not> list_empty (links s2) KeyQ then
           do {
             s3 \<leftarrow> update_process_state_rr (cur s2) (Some KeyQ) s2;
             s4 \<leftarrow> sched_next_rr (K_read buff) s3;
             Some (Switched, s4)
           }
         else read_keyboard_body buff s2)"

definition sys_read :: "int \<Rightarrow> u32 \<Rightarrow> int \<Rightarrow> kstate \<Rightarrow> (outcome \<times> kstate) option" where
  "sys_read fd buf count s =
     (if buf = 0 then Some (Ret (- EFAULT), s)
      else if count < 0 then Some (Ret (- EINVAL), s)
      else if check_fd fd LECTURA < 0 then Some (Ret (- EBADF), s)
      else if access_ok VERIFY_WRITE buf (word_of_int count) = 0 then Some (Ret (- EFAULT), s)
      else sys_read_keyboard buf count s)"

section \<open>Interrupts\<close>

text \<open>
  The characters of \<open>char_map\<close> as bytes; the four that are two bytes long in the source file are
  multi-character constants, whose value as a \<open>char\<close> is the last byte.
\<close>

definition char_map :: "u8 list" where
  "char_map =
     [0, 0, 0x31, 0x32, 0x33, 0x34, 0x35, 0x36,
      0x37, 0x38, 0x39, 0x30, 0x27, 0xA1, 0, 0,
      0x71, 0x77, 0x65, 0x72, 0x74, 0x79, 0x75, 0x69,
      0x6F, 0x70, 0x60, 0x2B, 0, 0, 0x61, 0x73,
      0x64, 0x66, 0x67, 0x68, 0x6A, 0x6B, 0x6C, 0xB1,
      0, 0xBA, 0, 0xA7, 0x7A, 0x78, 0x63, 0x76,
      0x62, 0x6E, 0x6D, 0x2C, 0x2E, 0x2D, 0, 0x2A,
      0, 0, 0, 0, 0, 0, 0, 0,
      0, 0, 0, 0, 0, 0, 0, 0x37,
      0x38, 0x39, 0x2D, 0x34, 0x35, 0x36, 0x2B, 0x31,
      0x32, 0x33, 0x30, 0, 0, 0, 0x3C, 0,
      0, 0, 0, 0, 0, 0, 0, 0,
      0, 0]"

text \<open>\<open>entrada\<close> is what \<open>inb(0x60)\<close> reads. An index past the array is \<^term>\<open>None\<close>.\<close>

definition keyboard_rutine :: "u8 \<Rightarrow> kstate \<Rightarrow> kstate option" where
  "keyboard_rutine entrada s =
     (let MakeOrBreak = drop_bit 7 entrada; ScanCode = unat (entrada AND 0x7f) in
      if MakeOrBreak = 0 then
        do {
          c \<leftarrow> (if ScanCode < length char_map then Some (char_map ! ScanCode) else None);
          let s1 = s\<lparr>con := (if c = 0 then printc_xy (con s) 0 0 0x43 else printc_xy (con s) 0 0 c)\<rparr>;
          b \<leftarrow> cirBuffWrite (keyboardBuff s1) c;
          let s2 = s1\<lparr>keyboardBuff := b\<rparr>;
          if \<not> list_empty (links s2) KeyQ then
            do {
              l \<leftarrow> list_first (links s2) KeyQ;
              ts \<leftarrow> list_head_to_task_struct l;
              if cirBuffFull (keyboardBuff s2) \<noteq> 0 \<or>
                 cirBuffLenght (keyboardBuff s2) \<ge>
                   i32 (requiredKeys (tasks s2 ts) - readKeys (tasks s2 ts))
              then update_process_state_rr ts (Some ReadyQ) s2
              else Some s2
            }
          else Some s2
        }
      else Some s)"

text \<open>\<open>zeos_show_clock\<close> is in \<open>libzeos.a\<close>; it only draws on the screen.\<close>

definition clock_rutine :: "(console \<Rightarrow> console) \<Rightarrow> kstate \<Rightarrow> kstate option" where
  "clock_rutine zeos_show_clock s =
     (let s1 = s\<lparr>con := zeos_show_clock (con s)\<rparr>;
          s2 = s1\<lparr>zeos_ticks := i32 (zeos_ticks s1 + 1)\<rparr>
      in schedule s2)"

section \<open>What write does\<close>

definition user_bytes :: "mmu \<Rightarrow> mem \<Rightarrow> u32 \<Rightarrow> nat \<Rightarrow> u8 list" where
  "user_bytes tr m a n = map (\<lambda>i. m (pa tr a i)) [0..<n]"

text \<open>The user block and the kernel buffer are mapped to different memory.\<close>

definition write_ok :: "mmu \<Rightarrow> u32 \<Rightarrow> u32 \<Rightarrow> nat \<Rightarrow> bool" where
  "write_ok tr kbuf a n \<longleftrightarrow>
     (\<forall>i<n. tr (a + of_nat i) \<noteq> None) \<and> (\<forall>j<4. tr (kbuf + of_nat j) \<noteq> None) \<and>
     (\<forall>i<n. \<forall>j<4. pa tr a i \<noteq> pa tr kbuf j) \<and>
     (\<forall>j<4. \<forall>l<4. j \<noteq> l \<longrightarrow> pa tr kbuf j \<noteq> pa tr kbuf l)"

lemma write_ok_copy: "write_ok tr kbuf a n \<Longrightarrow> k \<le> 4 \<Longrightarrow> k \<le> n \<Longrightarrow> copy_ok tr a kbuf k"
  unfolding write_ok_def copy_ok_def by auto

lemma write_ok_shift: "write_ok tr kbuf a (k + n) \<Longrightarrow> write_ok tr kbuf (a + of_nat k) n"
  by (simp add: write_ok_def pa_add add.assoc flip: of_nat_add)

lemma map_upto_nat: "map f [0..int k - 1] = map (\<lambda>i. f (int i)) [0..<k]"
proof (induction k)
  case (Suc k)
  have "[0..int (Suc k) - 1] = [0..int k - 1] @ [int k]" using upto_rec2 [of 0 "int k"] by simp
  then show ?case using Suc by simp
qed simp

lemma write_chunk_prints:
  assumes ok: "write_ok tr kbuf a n" and k: "k \<le> 4" "k \<le> n"
  shows "\<exists>m1. write_chunk tr kbuf m c a (int k) =
      Some (int k, m1, foldl printc c (user_bytes tr m a k)) \<and>
    (\<forall>x. (\<forall>j<4. x \<noteq> pa tr kbuf j) \<longrightarrow> m1 x = m x)"
proof -
  obtain m1 where m1: "copy_from_user tr m a kbuf (int k) = Some (0, m1)" "copied tr m m1 a kbuf k"
    using copy_from_user_copied [of tr a kbuf "int k" m] write_ok_copy [OF ok k] by auto
  have rd: "load8 tr m1 (kbuf + word_of_int j) = Some (m (pa tr a (nat j)))" if "0 \<le> j" "j < int k" for j
  proof -
    have "nat j < 4" using that k by simp
    then have "tr (kbuf + of_nat (nat j)) \<noteq> None" using ok unfolding write_ok_def by blast
    then have "load8 tr m1 (kbuf + of_nat (nat j)) = Some (m1 (pa tr kbuf (nat j)))" by (rule load8_Some)
    moreover have "nat j < k" using that by simp
    then have "m1 (pa tr kbuf (nat j)) = m (pa tr a (nat j))" using m1(2) unfolding copied_def by blast
    ultimately show ?thesis using that by simp
  qed
  have "sys_write_console c (\<lambda>i. load8 tr m1 (kbuf + word_of_int i)) (int k) =
      Some (int k, foldl printc c (map (\<lambda>j. m (pa tr a (nat j))) [0..int k - 1]))"
    by (rule sys_write_console_foldl) (rule rd)
  then have "write_chunk tr kbuf m c a (int k) = Some (int k, m1, foldl printc c (user_bytes tr m a k))"
    using m1(1) by (simp add: write_chunk_def map_upto_nat user_bytes_def)
  moreover have "\<forall>x. (\<forall>j<4. x \<noteq> pa tr kbuf j) \<longrightarrow> m1 x = m x"
    using m1(2) k(1) unfolding copied_def by (meson order_less_le_trans)
  ultimately show ?thesis by blast
qed

lemma user_bytes_append:
  "user_bytes tr m a (k + n) = user_bytes tr m a k @ user_bytes tr m (a + of_nat k) n"
  unfolding user_bytes_def pa_add upt_add_eq_append [OF le0] map_append
  by (intro arg_cong2 [where f = "(@)"]) (simp_all add: list_eq_iff_nth_eq)

lemma user_bytes_cong:
  "write_ok tr kbuf a n \<Longrightarrow> (\<forall>x. (\<forall>j<4. x \<noteq> pa tr kbuf j) \<longrightarrow> m1 x = m x) \<Longrightarrow>
    user_bytes tr m1 a n = user_bytes tr m a n"
  by (simp add: user_bytes_def write_ok_def)

lemma write_loop_prints:
  "write_ok tr kbuf a n \<Longrightarrow>
    \<exists>m'. write_loop tr kbuf m c a (int n) ret = Some (ret + int n, m', foldl printc c (user_bytes tr m a n)) \<and>
      (\<forall>x. (\<forall>j<4. x \<noteq> pa tr kbuf j) \<longrightarrow> m' x = m x)"
proof (induction n arbitrary: a m c ret rule: less_induct)
  case (less n)
  show ?case
  proof (cases "4 \<le> n")
    case False
    then obtain m1 where "write_chunk tr kbuf m c a (int n) =
        Some (int n, m1, foldl printc c (user_bytes tr m a n))"
      "\<forall>x. (\<forall>j<4. x \<noteq> pa tr kbuf j) \<longrightarrow> m1 x = m x"
      using write_chunk_prints [OF less.prems, of n m c] by auto
    then show ?thesis using False by (subst write_loop.simps) simp
  next
    case True
    then obtain r where n: "n = 4 + r" using le_Suc_ex by blast
    obtain m1 where m1: "write_chunk tr kbuf m c a (int 4) =
        Some (int 4, m1, foldl printc c (user_bytes tr m a 4))"
      "\<forall>x. (\<forall>j<4. x \<noteq> pa tr kbuf j) \<longrightarrow> m1 x = m x"
      using write_chunk_prints [OF less.prems, of 4 m c] True by blast
    have ok: "write_ok tr kbuf (a + of_nat 4) r" using less.prems write_ok_shift unfolding n by blast
    obtain m' where m': "write_loop tr kbuf m1 (foldl printc c (user_bytes tr m a 4)) (a + of_nat 4) (int r) (ret + 4) =
        Some (ret + 4 + int r, m', foldl printc (foldl printc c (user_bytes tr m a 4)) (user_bytes tr m1 (a + of_nat 4) r))"
      "\<forall>x. (\<forall>j<4. x \<noteq> pa tr kbuf j) \<longrightarrow> m' x = m1 x"
      using less.IH [of r "a + of_nat 4", OF _ ok] n by (metis add.commute less_add_same_cancel1 zero_less_numeral)
    have "user_bytes tr m1 (a + of_nat 4) r = user_bytes tr m (a + of_nat 4) r"
      by (rule user_bytes_cong [OF ok m1(2)])
    then have "write_loop tr kbuf m c a (int n) ret = Some (ret + int n, m', foldl printc c (user_bytes tr m a n))"
      using m'(1) m1(1) unfolding n user_bytes_append [of tr m a 4 r]
      by (subst write_loop.simps) (simp add: algebra_simps)
    then show ?thesis using m'(2) m1(2) by auto
  qed
qed

text \<open>\<open>sys_write\<close> sends the bytes of the user block to the console, in order, and returns their number.\<close>

lemma sys_write_runs:
  assumes "0 < sz" "buf \<noteq> 0" "write_ok (kmmu s) kbuf buf (nat sz)"
  shows "\<exists>m. sys_write kbuf 1 buf sz s =
      Some (sz, s\<lparr>memory := m, con := foldl printc (con s) (user_bytes (kmmu s) (memory s) buf (nat sz))\<rparr>) \<and>
    (\<forall>x. (\<forall>j<4. x \<noteq> pa (kmmu s) kbuf j) \<longrightarrow> m x = memory s x)"
  using write_loop_prints [OF assms(3), of "memory s" "con s" 0] assms(1,2)
  by (auto simp: sys_write_def check_fd_def)

section \<open>What the keyboard interrupt does\<close>

lemma keyboard_rutine_break:
  assumes "bit entrada 7"
  shows "keyboard_rutine entrada s = Some s"
proof -
  have "drop_bit 7 entrada \<noteq> 0"
  proof
    assume "drop_bit 7 entrada = 0"
    then have "bit (drop_bit 7 entrada) 0 = bit (0 :: u8) 0" by simp
    then show False using assms by (simp add: bit_drop_bit_eq)
  qed
  then show ?thesis by (simp add: keyboard_rutine_def Let_def)
qed

lemma make_code:
  assumes "unat entrada < 128"
  shows "drop_bit 7 entrada = 0" "unat (entrada AND 0x7f) = unat (entrada :: u8)"
proof -
  have "unat (drop_bit 7 entrada) = unat entrada div 128"
    by (subst unat_drop_bit_eq) (simp add: drop_bit_eq_div)
  then show "drop_bit 7 entrada = 0" using assms by (simp only: word_unat_eq_iff) simp
  have "entrada AND 0x7f = take_bit 7 entrada" unfolding take_bit_eq_mask by (simp add: mask_eq_exp_minus_1)
  then show "unat (entrada AND 0x7f) = unat entrada"
    using assms by (simp only: unsigned_take_bit_eq) (simp add: take_bit_eq_mod)
qed

lemma make_code_range:
  assumes "\<not> bit e 7"
  shows "unat (e :: u8) < 128"
proof -
  have "take_bit 7 e = e"
  proof (rule bit_word_eqI)
    fix n
    assume "n < LENGTH(8)"
    then have "n < 7 \<or> n = 7" by auto
    then show "bit (take_bit 7 e) n = bit e n" using assms by (auto simp: bit_take_bit_iff)
  qed
  then have "unat e = take_bit 7 (unat e)" by (metis unsigned_take_bit_eq)
  also have "\<dots> < 128" by (simp add: take_bit_eq_mod)
  finally show ?thesis .
qed

text \<open>Whether the first process waiting for keys can go on.\<close>

definition keys_ready :: "kstate \<Rightarrow> cirBuffer \<Rightarrow> nat \<Rightarrow> bool" where
  "keys_ready s b t \<longleftrightarrow> cirBuffFull b \<noteq> 0 \<or>
     cirBuffLenght b \<ge> i32 (requiredKeys (tasks s t) - readKeys (tasks s t))"

definition key_shown :: "u8 \<Rightarrow> console \<Rightarrow> console" where
  "key_shown c k = (if c = 0 then printc_xy k 0 0 0x43 else printc_xy k 0 0 c)"

text \<open>
  The character of a pressed key goes to the buffer (if it is not full) and to the corner of the
  screen; the first waiting process becomes ready as soon as it can go on.
\<close>

lemma keyboard_rutine_make:
  assumes k: "kinv s Q" and e: "unat entrada < length char_map"
    and b: "cirBuffWrite (keyboardBuff s) (char_map ! unat entrada) = Some b"
  shows "\<exists>s'. keyboard_rutine entrada s = Some s' \<and> keyboardBuff s' = b \<and>
    con s' = key_shown (char_map ! unat entrada) (con s) \<and> cur s' = cur s \<and>
    semaphores s' = semaphores s \<and> idle_task s' = idle_task s \<and> qLeft s' = qLeft s \<and>
    (\<forall>u. sem_ret (tasks s' u) = sem_ret (tasks s u) \<and> kernel_esp (tasks s' u) = kernel_esp (tasks s u) \<and>
       quantum (tasks s' u) = quantum (tasks s u)) \<and>
    kinv s' (if Q KeyQ \<noteq> [] \<and> keys_ready s b (hd (Q KeyQ)) then wake KeyQ Q else Q)"
proof -
  let ?c = "char_map ! unat entrada"
  let ?s2 = "s\<lparr>con := key_shown ?c (con s), keyboardBuff := b\<rparr>"
  have "unat entrada < 128" using e by (simp add: char_map_def)
  note m = make_code [OF this]
  have k2: "kinv ?s2 Q" using k by (subst kinv_cong [of _ s]) simp_all
  have unf: "keyboard_rutine entrada s =
    (if \<not> list_empty (links s) KeyQ then
       do { l \<leftarrow> list_first (links s) KeyQ; ts \<leftarrow> list_head_to_task_struct l;
            if keys_ready s b ts then update_process_state_rr ts (Some ReadyQ) ?s2 else Some ?s2 }
     else Some ?s2)"
    using e b m
    by (simp add: keyboard_rutine_def Let_def key_shown_def keys_ready_def
        cong: if_cong)
  have em: "list_empty (links s) KeyQ \<longleftrightarrow> Q KeyQ = []"
    using qinv_empty [of s Q KeyQ] k by (simp add: kinv_def)
  show ?thesis
  proof (cases "Q KeyQ")
    case Nil
    then show ?thesis using unf em k2 by (intro exI [of _ ?s2]) simp
  next
    case (Cons t ts)
    have f: "list_first (links s) KeyQ = Some (TaskL t)"
      using qinv_first [of s Q KeyQ t ts] k Cons by (simp add: kinv_def)
    show ?thesis
    proof (cases "keys_ready s b t")
      case False
      then show ?thesis using unf em k2 Cons f by (intro exI [of _ ?s2]) simp
    next
      case True
      obtain h where h: "update_process_state_rr t (Some ReadyQ) ?s2 = Some (requeued t h ST_READY ?s2)"
        "kinv (requeued t h ST_READY ?s2) (wake KeyQ Q)"
        using wake_first [OF k2, of KeyQ t ts] Cons by auto
      then have "keyboard_rutine entrada s = Some (requeued t h ST_READY ?s2)"
        using unf em Cons f True by simp
      then show ?thesis using h(2) Cons True
        by (intro exI [of _ "requeued t h ST_READY ?s2"]) (simp add: requeued_def upd_task_def)
    qed
  qed
qed

section \<open>What read does\<close>

lemma block_front:
  assumes k: "kinv s Q" and ni: "idle_task s \<noteq> Some (cur s)"
  shows "\<exists>s'. block_on_keyboard buff s = Some (Switched, s') \<and>
    kinv s' (pop_ready (Q(KeyQ := cur s # Q KeyQ))) \<and> sched_frame s s' \<and> cur s' = next_task s Q \<and>
    qLeft s' = (if Q ReadyQ = [] then qLeft s else quantum (tasks s (cur s))) \<and>
    (\<forall>u. kernel_esp (tasks s' u) = (if u = cur s then SwitchFrame (K_read buff) else kernel_esp (tasks s u)))"
proof -
  let ?Q = "Q(KeyQ := cur s # Q KeyQ)"
  have q: "qinv s Q" and run: "run_inv s Q" using k by (simp_all add: kinv_def)
  have nq: "\<And>r. r \<in> heads s \<Longrightarrow> TaskL (cur s) \<notin> set (tlists Q r)"
    using run by (auto simp: run_inv_def in_queue_def)
  then obtain h where h: "list_add (links s) (TaskL (cur s)) KeyQ = Some h"
    "lq.family h ((tlists Q)(KeyQ := TaskL (cur s) # tlists Q KeyQ)) (heads s)"
    using lq.family_push_front [of "links s" "tlists Q" "heads s" KeyQ "TaskL (cur s)"] q
    unfolding qinv_def by auto
  let ?s2 = "requeued (cur s) h ST_BLOCKED s"
  have "tlists ?Q = (tlists Q)(KeyQ := TaskL (cur s) # tlists Q KeyQ)" by (auto simp: tlists_def)
  then have q2: "qinv ?s2 ?Q"
    using h(2) run by (intro qinv_requeued [OF q])
      (auto simp: in_queue_def run_inv_def qstate_def split: if_splits)
  have "idle_inv ?s2 ?Q"
    using k ni by (auto simp: kinv_def idle_inv_def)
  from sched_next_kinv [OF q2 this, of "K_read buff"] obtain s' where
    s': "sched_next_rr (K_read buff) ?s2 = Some s'" "kinv s' (pop_ready ?Q)" "sched_frame ?s2 s'"
    "cur s' = next_task ?s2 ?Q" "qLeft s' = (if ?Q ReadyQ = [] then qLeft ?s2 else quantum (tasks ?s2 (cur ?s2)))"
    "\<forall>u. kernel_esp (tasks s' u) = (if u = cur ?s2 then SwitchFrame (K_read buff) else kernel_esp (tasks ?s2 u))"
    by blast
  have "block_on_keyboard buff s = Some (Switched, s')"
    using h(1) s'(1) by (simp add: block_on_keyboard_def Let_def requeued_def)
  then show ?thesis
    using s' sched_frame_trans [OF sched_frame_requeued s'(3)] by (auto simp: next_task_def)
qed

text \<open>
  A read that has to wait: the process blocks on the keyboard, and it will ask for the rest of its
  keys when it runs again.
\<close>

lemma kinv_read_fields: "kinv (upd_task t (readKeys_update f) s) Q = kinv s Q"
  "kinv (upd_task t (requiredKeys_update f) s) Q = kinv s Q"
  by (rule kinv_cong; simp)+

lemma sys_read_blocks:
  assumes k: "kinv s Q" and ni: "idle_task s \<noteq> Some (cur s)" and q: "Q KeyQ = []"
    and ok: "buf \<noteq> 0" "0 \<le> count" "count < 2 ^ 31" "access_ok VERIFY_WRITE buf (word_of_int count) \<noteq> 0"
    and b: "cirBuffLenght (keyboardBuff s) < count" "cirBuffFull (keyboardBuff s) = 0"
  shows "\<exists>s'. sys_read 0 buf count s = Some (Switched, s') \<and>
    kinv s' (pop_ready (leave_to KeyQ (cur s) Q)) \<and> cur s' = next_task s Q \<and>
    readKeys (tasks s' (cur s)) = 0 \<and> requiredKeys (tasks s' (cur s)) = count \<and>
    keyboardBuff s' = keyboardBuff s \<and> memory s' = memory s \<and>
    kernel_esp (tasks s' (cur s)) = SwitchFrame (K_read buf)"
proof -
  let ?s2 = "upd_task (cur s) (requiredKeys_update (\<lambda>_. count)) (upd_task (cur s) (readKeys_update (\<lambda>_. 0)) s)"
  have k2: "kinv ?s2 Q" using k by (simp add: kinv_read_fields)
  have e: "list_empty (links s) KeyQ" using qinv_empty [of s Q KeyQ] k q by (simp add: kinv_def)
  obtain s' where s': "block_on_keyboard buf ?s2 = Some (Switched, s')"
    "kinv s' (pop_ready (Q(KeyQ := cur s # Q KeyQ)))" "sched_frame ?s2 s'" "cur s' = next_task s Q"
    "kernel_esp (tasks s' (cur s)) = SwitchFrame (K_read buf)"
    using block_front [OF k2, of buf] ni by (auto simp: next_task_def)
  have "Q(KeyQ := cur s # Q KeyQ) = leave_to KeyQ (cur s) Q" using q by (simp add: leave_to_def)
  moreover have kb: "keyboardBuff ?s2 = keyboardBuff s" "memory ?s2 = memory s"
    by (simp_all add: upd_task_def)
  have "sys_read 0 buf count s = Some (Switched, s')"
    using ok e b s'(1) kb i32_id [of count]
    by (simp add: sys_read_def check_fd_def sys_read_keyboard_def read_keyboard_body_def int_range_def)
  ultimately show ?thesis using s' kb by (intro exI [of _ s']) (simp add: sched_frame_def)
qed

text \<open>
  A read that finds its keys never returns: the key is used as an address, and with page 0 and the
  last page out of the address space the copy faults.
\<close>

lemma copy_byte_fault:
  assumes "tr p = None"
  shows "copy_to_user tr m p q 1 = None"
proof -
  have "copy_words tr m p q 1 = Some (m, p, q, 1)" by (subst copy_words.simps) simp
  moreover have "copy_bytes tr m p q 1 = None"
    using assms by (subst copy_bytes.simps) (simp add: load8_def)
  ultimately show ?thesis by (simp add: copy_to_user_def)
qed

definition no_key_pages :: "mmu \<Rightarrow> bool" where
  "no_key_pages tr \<longleftrightarrow> (\<forall>c :: u8. tr (scast c) = None)"

lemma read_keys_fault:
  assumes "no_key_pages (kmmu s)" "0 < n"
  shows "read_keys n buff s = None"
proof -
  obtain m where n: "n = Suc m" using assms(2) gr0_conv_Suc by blast
  have "kmmu (s\<lparr>keyboardBuff := b\<rparr>) = kmmu s" for b by (simp add: kmmu_def fun_eq_iff)
  then show ?thesis
    using assms(1) copy_byte_fault unfolding n
    by (cases "cirBuffRead (keyboardBuff s)") (auto simp: no_key_pages_def)
qed

lemma sys_read_faults:
  assumes k: "kinv s Q" and q: "Q KeyQ = []"
    and ok: "buf \<noteq> 0" "0 < count" "count < 2 ^ 31" "access_ok VERIFY_WRITE buf (word_of_int count) \<noteq> 0"
    and b: "count \<le> cirBuffLenght (keyboardBuff s)" and u: "no_key_pages (kmmu s)"
  shows "sys_read 0 buf count s = None"
proof -
  let ?s2 = "upd_task (cur s) (requiredKeys_update (\<lambda>_. count)) (upd_task (cur s) (readKeys_update (\<lambda>_. 0)) s)"
  have e: "list_empty (links s) KeyQ" using qinv_empty [of s Q KeyQ] k q by (simp add: kinv_def)
  have "kmmu ?s2 = kmmu s" by (simp add: kmmu_def fun_eq_iff upd_task_def)
  then have "read_keys (nat count) buf ?s2 = None" using u ok by (intro read_keys_fault) simp_all
  moreover have "keyboardBuff ?s2 = keyboardBuff s" by (simp add: upd_task_def)
  ultimately show ?thesis
    using ok e b i32_id [of count]
    by (simp add: sys_read_def check_fd_def sys_read_keyboard_def read_keyboard_body_def int_range_def)
qed

text \<open>In the address spaces of the kernel no key is the address of a mapped byte.\<close>

lemma no_key_pages_walk:
  assumes a: "table_addr_ok a" "d < 15" and dir: "dir (d * 1024) = dir_entry a d" "dir (d * 1024 + 1023) = 0"
    and p0: "\<not> pte_present (pt (d * 1024))"
  shows "no_key_pages (mmu_walk a dir pt d)"
  unfolding no_key_pages_def
proof
  fix c :: u8
  let ?va = "scast c :: u32"
  have u: "unat ?va < 128 \<or> 4294967168 \<le> unat ?va"
  proof -
    have v: "uint ?va = sint c mod 4294967296" unfolding scast_eq uint_word_of_int by simp
    have c: "- 128 \<le> sint c" "sint c < 128" using sint_greater_eq [of c] sint_less [of c] by simp_all
    have "uint ?va < 128 \<or> 4294967168 \<le> uint ?va"
    proof (cases "0 \<le> sint c")
      case True
      then show ?thesis using v c by simp
    next
      case False
      have "sint c mod 4294967296 = (sint c + 4294967296) mod 4294967296" by simp
      also have "\<dots> = sint c + 4294967296" using False c by (intro mod_pos_pos_trivial) simp_all
      finally show ?thesis using v c by simp
    qed
    moreover have "uint w = int (unat w)" for w :: u32 by simp
    ultimately show ?thesis by (metis of_nat_numeral of_nat_le_iff of_nat_less_iff)
  qed
  then show "mmu_walk a dir pt d ?va = None"
  proof
    assume lo: "unat ?va < 128"
    then have "unat ?va div 4096 = 0" by simp
    then show ?thesis using mmu_walk_low [of a d ?va dir pt] a dir p0 lo by (simp add: Let_def)
  next
    assume hi: "4294967168 \<le> unat ?va"
    have "unat ?va < 4294967296" using unat_lt2p [of ?va] by simp
    then have "unat ?va div 2 ^ 22 = 1023" using hi by (intro div_nat_eqI) simp_all
    then show ?thesis using dir(2) by (intro mmu_walk_high) simp
  qed
qed

end
