(* ===== verification/Sbrk.thy ===== *)
theory Sbrk
  imports KState
begin

text \<open>
  \<open>sys_sbrk\<close> of \<open>sys.c\<close>. The break is an unsigned double word, \<open>iPage\<close>, \<open>fPage\<close> and the loop
  counters are C \<open>int\<close>s; \<open>PT\<close> is the index of the table of the process, and an index past its
  1024 entries reaches the next table, as in memory. The last table has no next one: an access behind
  it is a fault. It happens, because the break may get to page 1024 (\<open>sbrk_past_table\<close>).
\<close>

section \<open>The code\<close>

text \<open>The array \<open>pagusr_table[NR_TASKS][TOTAL_PAGES]\<close>.\<close>

definition in_table :: "nat \<Rightarrow> bool" where
  "in_table k \<longleftrightarrow> k < NR_TASKS * TOTAL_PAGES"

function sbrk_rollback :: "nat \<Rightarrow> int \<Rightarrow> int \<Rightarrow> kstate \<Rightarrow> kstate option" where
  "sbrk_rollback PT j stop s =
     (if j > stop then
        (if \<not> in_table (PT + nat j) then None
         else
           (let s1 = s\<lparr>phys_mem := free_frame (phys_mem s) (get_frame (pagusr_table s) PT (nat j))\<rparr>
            in sbrk_rollback PT (j - 1) stop (s1\<lparr>pagusr_table := del_ss_pag (pagusr_table s1) PT (nat j)\<rparr>)))
      else Some s)"
  by pat_completeness auto
termination by (relation "measure (\<lambda>(PT, j, stop, s). nat (j - stop))") auto

text \<open>The growing loop; the result is whether it got to its end.\<close>

function sbrk_grow :: "nat \<Rightarrow> int \<Rightarrow> int \<Rightarrow> int \<Rightarrow> kstate \<Rightarrow> (bool \<times> kstate) option" where
  "sbrk_grow PT i lim stop s =
     (if i < lim then
        (if \<not> in_table (PT + nat i) then None
         else if pte_present (pagusr_table s (PT + nat i)) then
           (let (pagF, pm) = alloc_frame (phys_mem s); s1 = s\<lparr>phys_mem := pm\<rparr> in
            if pagF \<ge> 0 then
              sbrk_grow PT (i + 1) lim stop
                (s1\<lparr>pagusr_table := set_ss_pag (pagusr_table s1) PT (nat i) (word_of_int pagF)\<rparr>)
            else map_option (Pair False) (sbrk_rollback PT i stop s1))
         else sbrk_grow PT (i + 1) lim stop s)
      else Some (True, s))"
  by pat_completeness auto
termination by (relation "measure (\<lambda>(PT, i, lim, stop, s). nat (lim - i))") auto

function sbrk_shrink :: "nat \<Rightarrow> int \<Rightarrow> int \<Rightarrow> kstate \<Rightarrow> (bool \<times> kstate) option" where
  "sbrk_shrink PT i stop s =
     (if i > stop then
        (if i < int PAG_LOG_INIT_HEAP then
           (let s1 = upd_task (cur s) (processBreak_update (\<lambda>_. of_nat HEAP_START)) s
            in Some (False, s1\<lparr>cr3 := get_DIR s1 (cur s1)\<rparr>))
         else if \<not> in_table (PT + nat i) then None
         else
           (let s1 = s\<lparr>phys_mem := free_frame (phys_mem s) (get_frame (pagusr_table s) PT (nat i))\<rparr>
            in sbrk_shrink PT (i - 1) stop (s1\<lparr>pagusr_table := del_ss_pag (pagusr_table s1) PT (nat i)\<rparr>)))
      else Some (True, s))"
  by pat_completeness auto
termination by (relation "measure (\<lambda>(PT, i, stop, s). nat (i - stop))") auto

declare sbrk_rollback.simps [simp del] sbrk_grow.simps [simp del] sbrk_shrink.simps [simp del]

definition sys_sbrk :: "int \<Rightarrow> kstate \<Rightarrow> (u32 \<times> kstate) option" where
  "sys_sbrk incr0 s =
     do {
       let previousProgramBreak = processBreak (tasks s (cur s));
       TP \<leftarrow> PT_of s (cur s);
       let pb = processBreak (tasks s (cur s));
       let incr = (if pb + word_of_int incr0 < of_nat HEAP_START
                   then sint (of_nat HEAP_START - pb) else incr0);
       let iPage = sint (drop_bit 12 pb);
       let fPage = sint (drop_bit 12 (pb + word_of_int incr));
       if fPage > int TOTAL_PAGES then Some (word_of_int (- ENOMEM), s)
       else
         do {
           let aux = (if (pb + word_of_int incr) mod of_nat PAGE_SIZE = 0 then 0 else 1 :: int);
           (ok, err, s1) \<leftarrow>
             (if incr > 0 then
                do { (ok, s1) \<leftarrow> sbrk_grow TP iPage (fPage + aux) (iPage + aux) s; Some (ok, - ENOMEM, s1) }
              else if incr < 0 then
                do {
                  (ok, s1) \<leftarrow> sbrk_shrink TP iPage (fPage + aux) s;
                  Some (ok, - EFAULT, if ok then s1\<lparr>cr3 := get_DIR s1 (cur s1)\<rparr> else s1)
                }
              else Some (True, 0, s));
           if \<not> ok then Some (word_of_int err, s1)
           else Some (previousProgramBreak,
             upd_task (cur s1) (processBreak_update (\<lambda>b. b + word_of_int incr)) s1)
         }
     }"

section \<open>Growing\<close>

lemma in_table_dir: "d < 15 \<Longrightarrow> p < 1024 \<Longrightarrow> in_table (d * 1024 + p)"
  by (simp add: in_table_def)

lemma in_table_mono: "in_table (PT + nat i) \<Longrightarrow> j \<le> i \<Longrightarrow> in_table (PT + nat j)"
  using nat_mono [of j i] by (simp add: in_table_def)

text \<open>
  The growing loop allocates only for pages that are present already: over a range of pages that
  are not, it does nothing, up to the end of the last table.
\<close>

lemma sbrk_grow_absent:
  "\<forall>p. i \<le> p \<and> p < lim \<longrightarrow> in_table (PT + nat p) \<and> \<not> pte_present (pagusr_table s (PT + nat p)) \<Longrightarrow>
    sbrk_grow PT i lim stop s = Some (True, s)"
proof (induction PT i lim stop s rule: sbrk_grow.induct)
  case (1 PT i lim stop s)
  then show ?case by (subst sbrk_grow.simps) auto
qed

lemma sbrk_grow_faults:
  "i \<le> k \<Longrightarrow> k < lim \<Longrightarrow> \<not> in_table (PT + nat k) \<Longrightarrow>
    \<forall>p. i \<le> p \<and> p < k \<longrightarrow> \<not> pte_present (pagusr_table s (PT + nat p)) \<Longrightarrow> sbrk_grow PT i lim stop s = None"
proof (induction PT i lim stop s rule: sbrk_grow.induct)
  case (1 PT i lim stop s)
  show ?case
  proof (cases "in_table (PT + nat i)")
    case True
    then have "i < k" using "1.prems"(1,3) by (cases "i = k") auto
    then show ?thesis using 1 True by (subst sbrk_grow.simps) simp
  qed (use "1.prems" in \<open>subst sbrk_grow.simps, simp\<close>)
qed

lemma sint_small:
  assumes "unat (d :: u32) < 2 ^ 31"
  shows "sint d = int (unat d)"
proof -
  have e: "uint d = int n" if "n = unat d" for n using that by simp
  obtain n where n: "n = unat d" by blast
  then have "n < 2147483648" using assms by simp
  then have t: "signed_take_bit 31 (int n) = int n" by (intro signed_take_bit_int_eq_self) simp_all
  have "sint d = signed_take_bit 31 (uint d)" by (simp add: sint_uint)
  also have "\<dots> = int n" unfolding e [OF n] by (rule t)
  finally show ?thesis unfolding n .
qed

lemma sint_drop_12: "sint (drop_bit 12 (w :: u32)) = int (unat w div 4096)"
proof -
  have "unat w div 4096 < 2 ^ 31" using unat_lt2p [of w] by simp
  then show ?thesis using sint_small [of "drop_bit 12 w"] unfolding unat_drop_bit_12 by simp
qed

text \<open>
  Growing a heap whose new pages are not mapped moves the break and nothing else: no frame is
  taken and the new bytes stay unmapped.
\<close>

lemma sys_sbrk_grows:
  assumes pt: "PT_of s (cur s) = Some (d * 1024)" "d < 15" and pb: "pb = processBreak (tasks s (cur s))"
    and h: "HEAP_START \<le> unat pb" and i: "0 < incr" "unat pb + nat incr < 1024 * 4096"
    and absent: "\<forall>p. unat pb div 4096 \<le> p \<and> p < 1024 \<longrightarrow> \<not> pte_present (pagusr_table s (d * 1024 + p))"
  shows "sys_sbrk incr s =
    Some (pb, upd_task (cur s) (processBreak_update (\<lambda>b. b + word_of_int incr)) s)"
proof -
  let ?e = "pb + word_of_int incr"
  have "unat (word_of_int incr :: u32) = nat incr"
    using i unat_of_nat_u32 [of "nat incr"] by simp
  then have ue: "unat ?e = unat pb + nat incr" using i(2) by (simp add: unat_word_ariths)
  have "\<not> ?e < of_nat HEAP_START" using h ue by (simp add: word_less_nat_alt)
  moreover have f: "sint (drop_bit 12 ?e) \<le> 1023" unfolding sint_drop_12 ue using i(2) by linarith
  moreover have "sbrk_grow (d * 1024) (sint (drop_bit 12 pb)) (sint (drop_bit 12 ?e) + aux) stop s = Some (True, s)"
    if "aux \<le> 1" for aux stop
  proof (rule sbrk_grow_absent, intro allI impI)
    fix p assume p: "sint (drop_bit 12 pb) \<le> p \<and> p < sint (drop_bit 12 ?e) + aux"
    then have "p \<le> 1023" "int (unat pb div 4096) \<le> p" using f that unfolding sint_drop_12 by linarith+
    then show "in_table (d * 1024 + nat p) \<and> \<not> pte_present (pagusr_table s (d * 1024 + nat p))"
      using absent pt(2) in_table_dir [of d "nat p"] by (simp add: nat_le_iff le_nat_iff nat_less_iff)
  qed
  ultimately show ?thesis
    using pt(1) i(1) unfolding sys_sbrk_def pb [symmetric] by (simp add: Let_def)
qed

section \<open>The break stays in the heap\<close>

definition same_break :: "kstate \<Rightarrow> kstate \<Rightarrow> bool" where
  "same_break s s' \<longleftrightarrow> cur s' = cur s \<and> (\<forall>t. processBreak (tasks s' t) = processBreak (tasks s t))"

lemma sbrk_rollback_break:
  "in_table (PT + nat j) \<Longrightarrow> \<exists>s'. sbrk_rollback PT j stop s = Some s' \<and> same_break s s'"
proof (induction PT j stop s rule: sbrk_rollback.induct)
  case (1 PT j stop s)
  then show ?case
    using in_table_mono [of PT j "j - 1"] by (subst sbrk_rollback.simps) (simp add: same_break_def Let_def)
qed

lemma sbrk_grow_break:
  "in_table (PT + nat (lim - 1)) \<Longrightarrow> \<exists>ok s'. sbrk_grow PT i lim stop s = Some (ok, s') \<and> same_break s s'"
proof (induction PT i lim stop s rule: sbrk_grow.induct)
  case (1 PT i lim stop s)
  note IH = 1(1,2) and tb = 1(3)
  obtain pagF pm where a: "alloc_frame (phys_mem s) = (pagF, pm)" by fastforce
  have t: "in_table (PT + nat i)" if "i < lim" using in_table_mono [OF tb, of i] that by simp
  consider "\<not> i < lim" | "i < lim" "\<not> pte_present (pagusr_table s (PT + nat i))"
    | "i < lim" "pte_present (pagusr_table s (PT + nat i))" "pagF \<ge> 0"
    | "i < lim" "pte_present (pagusr_table s (PT + nat i))" "pagF < 0" by linarith
  then show ?case
  proof cases
    case 3
    then show ?thesis using IH(1) [OF 3(1) _ 3(2) a [symmetric] refl refl 3(3) tb] t [OF 3(1)] 3 a
      by (subst sbrk_grow.simps) (simp add: same_break_def Let_def)
  next
    case 4
    then show ?thesis using a t sbrk_rollback_break [of PT i stop "s\<lparr>phys_mem := pm\<rparr>"]
      by (subst sbrk_grow.simps) (auto simp: same_break_def Let_def)
  next
    case 1
    then show ?thesis by (subst sbrk_grow.simps) (auto simp: same_break_def)
  next
    case 2
    then show ?thesis using IH(2) tb t by (subst sbrk_grow.simps) simp
  qed
qed

text \<open>The shrinking loop clears the entries of the pages it gives back.\<close>

lemma sbrk_shrink_clears:
  "284 \<le> stop \<Longrightarrow> i > stop \<longrightarrow> in_table (PT + nat i) \<Longrightarrow>
    \<exists>pm pt. sbrk_shrink PT i stop s = Some (True, s\<lparr>phys_mem := pm, pagusr_table := pt\<rparr>) \<and>
    (\<forall>k. pt k = (if \<exists>p. stop < p \<and> p \<le> i \<and> k = PT + nat p then 0 else pagusr_table s k))"
proof (induction PT i stop s rule: sbrk_shrink.induct)
  case (1 PT i stop s)
  show ?case
  proof (cases "i > stop")
    case False
    then have "sbrk_shrink PT i stop s = Some (True, s\<lparr>phys_mem := phys_mem s, pagusr_table := pagusr_table s\<rparr>)"
      by (subst sbrk_shrink.simps) simp
    then show ?thesis using False by fastforce
  next
    case True
    let ?s1 = "s\<lparr>phys_mem := free_frame (phys_mem s) (get_frame (pagusr_table s) PT (nat i))\<rparr>"
    let ?s2 = "?s1\<lparr>pagusr_table := del_ss_pag (pagusr_table ?s1) PT (nat i)\<rparr>"
    have ni: "\<not> i < int PAG_LOG_INIT_HEAP" using True 1(2) by simp
    have t: "in_table (PT + nat i)" "in_table (PT + nat (i - 1))"
      using 1(3) True in_table_mono [of PT i "i - 1"] by simp_all
    from 1(1) [OF True ni _ refl 1(2)] t obtain pm pt where
      "sbrk_shrink PT (i - 1) stop ?s2 = Some (True, ?s2\<lparr>phys_mem := pm, pagusr_table := pt\<rparr>)"
      and pt: "\<forall>k. pt k = (if \<exists>p. stop < p \<and> p \<le> i - 1 \<and> k = PT + nat p then 0 else pagusr_table ?s2 k)"
      by blast
    then have "sbrk_shrink PT i stop s = Some (True, s\<lparr>phys_mem := pm, pagusr_table := pt\<rparr>)"
      using True ni t(1) by (subst sbrk_shrink.simps) (simp add: Let_def)
    moreover have "pt k = (if \<exists>p. stop < p \<and> p \<le> i \<and> k = PT + nat p then 0 else pagusr_table s k)" for k
    proof (cases "k = PT + nat i")
      case True
      then show ?thesis using pt \<open>i > stop\<close> by (auto simp: del_ss_pag_def)
    next
      case False
      then have "(\<exists>p. stop < p \<and> p \<le> i \<and> k = PT + nat p) = (\<exists>p. stop < p \<and> p \<le> i - 1 \<and> k = PT + nat p)"
        by (metis (no_types, opaque_lifting) less_le zle_diff1_eq zless_imp_add1_zle order.trans zle_add1_eq_le)
      moreover have "pagusr_table ?s2 k = pagusr_table s k" using False by (simp add: del_ss_pag_def)
      ultimately show ?thesis using pt [rule_format, of k] by (simp only:)
    qed
    ultimately show ?thesis by blast
  qed
qed

lemma sbrk_shrink_faults:
  "284 \<le> stop \<Longrightarrow> i > stop \<Longrightarrow> \<not> in_table (PT + nat i) \<Longrightarrow> sbrk_shrink PT i stop s = None"
  by (subst sbrk_shrink.simps) simp

definition break_ok :: "u32 \<Rightarrow> bool" where
  "break_ok pb \<longleftrightarrow> HEAP_START \<le> unat pb \<and> unat pb < 1025 * 4096"

text \<open>The increment the code works with, and the break it leads to.\<close>

definition sbrk_incr :: "u32 \<Rightarrow> int \<Rightarrow> int" where
  "sbrk_incr pb incr =
     (if pb + word_of_int incr < of_nat HEAP_START then sint (of_nat HEAP_START - pb) else incr)"

lemma sbrk_incr_above: "HEAP_START \<le> unat (pb + word_of_int (sbrk_incr pb incr))"
proof (cases "pb + word_of_int incr < of_nat HEAP_START")
  case True
  then show ?thesis by (simp add: sbrk_incr_def)
next
  case False
  then show ?thesis by (simp add: sbrk_incr_def word_less_nat_alt not_less)
qed

lemma bind_pair:
  "Option.bind (Option.bind g (\<lambda>(ok, s1). Some (h ok s1))) k = (case g of None \<Rightarrow> None | Some (ok, s1) \<Rightarrow> k (h ok s1))"
  by (cases g) auto

lemma bind_if: "Option.bind (if c then a else b) k = (if c then Option.bind a k else Option.bind b k)"
  by simp

lemma sys_sbrk_unfold:
  "sys_sbrk incr s =
     (let pb = processBreak (tasks s (cur s)); n = sbrk_incr pb incr;
          iPage = sint (drop_bit 12 pb); fPage = sint (drop_bit 12 (pb + word_of_int n));
          aux = (if (pb + word_of_int n) mod of_nat PAGE_SIZE = 0 then 0 else 1 :: int)
      in case PT_of s (cur s) of None \<Rightarrow> None
         | Some TP \<Rightarrow>
             if fPage > 1024 then Some (word_of_int (- ENOMEM), s)
             else if n > 0 then
               (case sbrk_grow TP iPage (fPage + aux) (iPage + aux) s of None \<Rightarrow> None
                | Some (ok, s1) \<Rightarrow>
                    if \<not> ok then Some (word_of_int (- ENOMEM), s1)
                    else Some (pb, upd_task (cur s1) (processBreak_update (\<lambda>b. b + word_of_int n)) s1))
             else if n < 0 then
               (case sbrk_shrink TP iPage (fPage + aux) s of None \<Rightarrow> None
                | Some (ok, s1) \<Rightarrow>
                    let s2 = (if ok then s1\<lparr>cr3 := get_DIR s1 (cur s1)\<rparr> else s1) in
                    if \<not> ok then Some (word_of_int (- EFAULT), s2)
                    else Some (pb, upd_task (cur s2) (processBreak_update (\<lambda>b. b + word_of_int n)) s2))
             else Some (pb, upd_task (cur s) (processBreak_update (\<lambda>b. b + word_of_int n)) s))"
  unfolding sys_sbrk_def sbrk_incr_def Let_def
  by (cases "PT_of s (cur s)")
    (simp_all only: bind_pair bind_if bind.bind_lunit bind.bind_lzero prod.case option.case TOTAL_PAGES_def of_nat_numeral
      simp_thms if_False if_True)

text \<open>
  The call gets to the entry of page 1024: growing over a part of that page, or shrinking by more than
  a page from a break in it. For the last directory that entry is behind the array.
\<close>

definition sbrk_reaches :: "u32 \<Rightarrow> int \<Rightarrow> bool" where
  "sbrk_reaches pb incr \<longleftrightarrow>
     (let n = sbrk_incr pb incr; e = unat (pb + word_of_int n)
      in 0 < n \<and> 1024 * 4096 < e \<and> e < 1025 * 4096 \<or> n < 0 \<and> 1024 * 4096 \<le> unat pb \<and> e \<le> 1023 * 4096)"

definition sbrk_past_table :: "kstate \<Rightarrow> int \<Rightarrow> bool" where
  "sbrk_past_table s incr \<longleftrightarrow>
     PT_of s (cur s) = Some (14 * 1024) \<and> sbrk_reaches (processBreak (tasks s (cur s))) incr"

text \<open>The page the loops stop at.\<close>

definition last_page :: "u32 \<Rightarrow> int" where
  "last_page e = sint (drop_bit 12 e) + (if e mod of_nat PAGE_SIZE = 0 then 0 else 1)"

lemma aligned_unat: "(e :: u32) mod of_nat PAGE_SIZE = 0 \<longleftrightarrow> unat e mod 4096 = 0"
proof -
  have p: "unat (of_nat PAGE_SIZE :: u32) = 4096" by simp
  have "unat (e mod of_nat PAGE_SIZE) = unat e mod 4096" unfolding unat_mod p ..
  then show ?thesis by (metis unsigned_0 unsigned_eq_0_iff)
qed

lemma round_up_4096: "(n + 4095) div 4096 = n div 4096 + (if n mod 4096 = 0 then 0 else (1 :: nat))"
proof -
  define q r where "q = n div 4096" and "r = n mod 4096"
  have n: "n = r + q * 4096" "r < 4096" by (simp_all add: q_def r_def)
  have "(n + 4095) div 4096 = q + (r + 4095) div 4096" unfolding n(1) by (simp add: add.assoc add.commute [of "q * 4096"] add.left_commute)
  moreover have "(r + 4095) div 4096 = (if r = 0 then 0 else 1)" using n(2) by (cases r) (auto intro!: div_nat_eqI)
  ultimately show ?thesis by (simp add: q_def r_def)
qed

lemma last_page_unat: "last_page e = int ((unat e + 4095) div 4096)"
  unfolding last_page_def sint_drop_12 aligned_unat round_up_4096 by simp

lemma shrink_in_table:
  assumes d: "d < 15" and b: "break_ok pb" and n: "sbrk_incr pb incr < 0"
    and r: "\<not> (d = 14 \<and> sbrk_reaches pb incr)" and i: "sint (drop_bit 12 pb) > last_page (pb + word_of_int (sbrk_incr pb incr))"
  shows "in_table (d * 1024 + nat (sint (drop_bit 12 pb)))"
proof (cases "d = 14 \<and> 1024 * 4096 \<le> unat pb")
  case True
  let ?e = "unat (pb + word_of_int (sbrk_incr pb incr))"
  have "unat pb < 1025 * 4096" using b by (simp add: break_ok_def)
  then have "(?e + 4095) div 4096 < 1024" using i unfolding last_page_unat sint_drop_12 by linarith
  then have "?e \<le> 1023 * 4096" by linarith
  then show ?thesis using r n True by (simp add: sbrk_reaches_def Let_def)
next
  case False
  have "unat pb < 1025 * 4096" using b by (simp add: break_ok_def)
  then have "unat pb div 4096 \<le> 1024" "d = 14 \<longrightarrow> unat pb div 4096 < 1024" using False by linarith+
  then show ?thesis using d unfolding sint_drop_12 by (auto simp: in_table_def)
qed

lemma grow_in_table:
  assumes d: "d < 15" and n: "0 < sbrk_incr pb incr" and r: "\<not> (d = 14 \<and> sbrk_reaches pb incr)"
    and f: "sint (drop_bit 12 (pb + word_of_int (sbrk_incr pb incr))) \<le> 1024"
  shows "in_table (d * 1024 + nat (last_page (pb + word_of_int (sbrk_incr pb incr)) - 1))"
proof -
  let ?e = "unat (pb + word_of_int (sbrk_incr pb incr))"
  have e: "?e < 1025 * 4096" using f unfolding sint_drop_12 by linarith
  define l where "l = (?e + 4095) div 4096"
  have "l \<le> 1025" using e unfolding l_def by linarith
  moreover have "l \<le> 1024" if "d = 14"
  proof -
    have "?e \<le> 1024 * 4096" using r n e that by (auto simp: sbrk_reaches_def Let_def)
    then show ?thesis unfolding l_def by linarith
  qed
  ultimately have "d * 1024 + nat (int l - 1) < 15360" using d by (cases "d = 14") linarith+
  then show ?thesis unfolding last_page_unat l_def [symmetric] by (simp add: in_table_def)
qed

lemma sys_sbrk_break_ok:
  assumes pt: "PT_of s (cur s) = Some (d * 1024)" "d < 15" and b: "break_ok (processBreak (tasks s (cur s)))"
    and r: "\<not> sbrk_past_table s incr"
  shows "\<exists>r s'. sys_sbrk incr s = Some (r, s') \<and> cur s' = cur s \<and>
    break_ok (processBreak (tasks s' (cur s)))"
proof -
  let ?pb = "processBreak (tasks s (cur s))" and ?PT = "d * 1024"
  let ?n = "sbrk_incr ?pb incr" and ?i = "sint (drop_bit 12 ?pb)"
  let ?e = "?pb + word_of_int ?n"
  let ?f = "sint (drop_bit 12 ?e)"
  define aux where "aux = (if ?e mod of_nat PAGE_SIZE = 0 then 0 else 1 :: int)"
  have lp: "?f + aux = last_page ?e" unfolding aux_def last_page_def ..
  have r': "\<not> (d = 14 \<and> sbrk_reaches ?pb incr)" using r pt(1) by (auto simp: sbrk_past_table_def)
  have ue: "HEAP_START \<le> unat ?e" by (rule sbrk_incr_above)
  show ?thesis
  proof (cases "?f > 1024")
    case True
    then show ?thesis using pt b by (simp add: sys_sbrk_unfold Let_def)
  next
    case False
    then have "unat ?e div 4096 < 1025" unfolding sint_drop_12 by linarith
    then have e: "break_ok ?e" using ue by (simp add: break_ok_def)
    consider "?n > 0" | "?n < 0" | "?n = 0" by linarith
    then show ?thesis
    proof cases
      case 1
      have "in_table (?PT + nat (?f + aux - 1))"
        unfolding lp using False by (intro grow_in_table [OF pt(2) 1 r']) simp
      then obtain ok s1 where g: "sbrk_grow ?PT ?i (?f + aux) (?i + aux) s = Some (ok, s1)" "same_break s s1"
        using sbrk_grow_break by blast
      then show ?thesis using pt(1) b e 1 False g(1) [unfolded aux_def]
        by (cases ok) (simp_all add: sys_sbrk_unfold Let_def same_break_def upd_task_def)
    next
      case 2
      have "284 \<le> unat ?e div 4096" using ue by simp
      then have "284 \<le> ?f + aux" unfolding sint_drop_12 aux_def by simp
      moreover have "?i > ?f + aux \<longrightarrow> in_table (?PT + nat ?i)"
        unfolding lp using shrink_in_table [OF pt(2) b 2 r'] by blast
      ultimately obtain pm t where g: "sbrk_shrink ?PT ?i (?f + aux) s = Some (True, s\<lparr>phys_mem := pm, pagusr_table := t\<rparr>)"
        using sbrk_shrink_clears [of "?f + aux" ?i ?PT s] by blast
      then show ?thesis using pt(1) e 2 False
        by (simp add: sys_sbrk_unfold Let_def upd_task_def aux_def)
    next
      case 3
      then show ?thesis using pt(1) e False by (simp add: sys_sbrk_unfold Let_def upd_task_def)
    qed
  qed
qed

text \<open>The fault at the end of the last table.\<close>

lemma sys_sbrk_faults:
  assumes r: "sbrk_past_table s incr" and b: "break_ok (processBreak (tasks s (cur s)))"
    and z: "\<forall>p. 284 \<le> p \<and> p < 1024 \<longrightarrow> \<not> pte_present (pagusr_table s (14 * 1024 + p))"
  shows "sys_sbrk incr s = None"
proof -
  let ?pb = "processBreak (tasks s (cur s))" and ?PT = "14 * 1024 :: nat"
  let ?n = "sbrk_incr ?pb incr" and ?i = "sint (drop_bit 12 ?pb)"
  let ?e = "?pb + word_of_int ?n"
  let ?f = "sint (drop_bit 12 ?e)"
  define aux where "aux = (if ?e mod of_nat PAGE_SIZE = 0 then 0 else 1 :: int)"
  have lp: "?f + aux = int ((unat ?e + 4095) div 4096)" unfolding last_page_unat [symmetric] aux_def last_page_def ..
  have pt: "PT_of s (cur s) = Some ?PT" and re: "sbrk_reaches ?pb incr" using r by (simp_all add: sbrk_past_table_def)
  have pb: "HEAP_START \<le> unat ?pb" "unat ?pb < 1025 * 4096" using b by (simp_all add: break_ok_def)
  have i: "284 \<le> ?i" "?i \<le> 1024" using pb unfolding sint_drop_12 by simp_all
  have out: "\<not> in_table (?PT + nat 1024)" by (simp add: in_table_def)
  have "HEAP_START \<le> unat ?e" by (rule sbrk_incr_above)
  then have ue: "284 \<le> unat ?e div 4096" by simp
  from re consider "0 < ?n" "1024 * 4096 < unat ?e" "unat ?e < 1025 * 4096"
    | "?n < 0" "1024 * 4096 \<le> unat ?pb" "unat ?e \<le> 1023 * 4096"
    by (auto simp: sbrk_reaches_def Let_def)
  then show ?thesis
  proof cases
    case 1
    have "unat ?e div 4096 = 1024" "(unat ?e + 4095) div 4096 = 1025" using 1(2,3) by linarith+
    then have f: "?f = 1024" "?f + aux = 1025" unfolding lp unfolding sint_drop_12 by simp_all
    have "sbrk_grow ?PT ?i (?f + aux) (?i + aux) s = None"
    proof (rule sbrk_grow_faults [OF i(2) _ out])
      show "1024 < ?f + aux" using f by simp
      show "\<forall>p. ?i \<le> p \<and> p < 1024 \<longrightarrow> \<not> pte_present (pagusr_table s (?PT + nat p))"
        using z i(1) by (auto simp: nat_less_iff)
    qed
    then show ?thesis using pt 1(1) f(1) by (simp add: sys_sbrk_unfold Let_def aux_def)
  next
    case 2
    have "(unat ?e + 4095) div 4096 \<le> 1023" "unat ?e div 4096 \<le> 1023" using 2(3) by linarith+
    then have f: "?f \<le> 1023" "?f + aux \<le> 1023" "284 \<le> ?f + aux" unfolding lp unfolding sint_drop_12 using ue by linarith+
    have "unat ?pb div 4096 = 1024" using 2(2) pb(2) by linarith
    then have i: "?i = 1024" unfolding sint_drop_12 by simp
    have "sbrk_shrink ?PT ?i (?f + aux) s = None"
      unfolding i by (rule sbrk_shrink_faults [OF f(3) _ out]) (use f(2) in linarith)
    then show ?thesis using pt 2(1) f(1) by (simp add: sys_sbrk_unfold Let_def aux_def)
  qed
qed

text \<open>Shrinking, down to the start of the heap at most.\<close>

lemma sint_word_of_int_small: "- 2147483648 \<le> k \<Longrightarrow> k < 2147483648 \<Longrightarrow> sint (word_of_int k :: u32) = k"
  using signed_take_bit_int_eq_self [of 31 k] by (simp add: signed_of_int)

lemma sbrk_incr_shrink:
  assumes b: "break_ok pb" "HEAP_START < unat pb" and i: "incr < 0" "nat (- incr) \<le> unat pb"
  shows "sbrk_incr pb incr < 0 \<and>
    pb + word_of_int (sbrk_incr pb incr) = of_nat (max HEAP_START (unat pb - nat (- incr)))"
proof -
  let ?k = "nat (- incr)"
  have k: "unat (of_nat ?k :: u32) = ?k"
    using i(2) unat_lt2p [of pb] by (intro unat_of_nat_u32) simp
  have "pb + word_of_int incr = pb - of_nat ?k" using i(1) by simp
  moreover have "unat (pb - of_nat ?k) = unat pb - ?k"
    using k i(2) unat_sub [of "of_nat ?k" pb] by (simp only: word_le_nat_alt)
  ultimately have ue: "unat (pb + word_of_int incr) = unat pb - ?k" by metis
  show ?thesis
  proof (cases "unat pb - ?k < HEAP_START")
    case True
    have w: "of_nat HEAP_START - pb = word_of_int (int HEAP_START - uint pb)" by simp
    have p: "uint pb = int n" if "n = unat pb" for n using that by simp
    obtain n where n: "n = unat pb" by blast
    have bn: "HEAP_START < n" "n < 1025 * 4096" using b n unfolding break_ok_def by simp_all
    have "sint (of_nat HEAP_START - pb) = int HEAP_START - int n"
      unfolding w p [OF n] using bn by (intro sint_word_of_int_small) simp_all
    then have neg: "sint (of_nat HEAP_START - pb) < 0" using bn(1) by linarith
    have uh: "unat (of_nat HEAP_START :: u32) = HEAP_START" by simp
    have c: "sbrk_incr pb incr = sint (of_nat HEAP_START - pb)"
      unfolding sbrk_incr_def word_less_nat_alt ue uh using True by (rule if_P)
    have m: "max HEAP_START (unat pb - ?k) = HEAP_START" using True by (intro max_absorb1) linarith
    have "pb + word_of_int (sint (of_nat HEAP_START - pb)) = of_nat HEAP_START" by simp
    then show ?thesis unfolding c m using neg by blast
  next
    case False
    have uh: "unat (of_nat HEAP_START :: u32) = HEAP_START" by simp
    have c: "sbrk_incr pb incr = incr"
      unfolding sbrk_incr_def word_less_nat_alt ue uh using False by (rule if_not_P)
    have m: "max HEAP_START (unat pb - ?k) = unat pb - ?k" using False by (intro max_absorb2) linarith
    have "pb + word_of_int incr = of_nat (unat pb - ?k)" unfolding ue [symmetric] by simp
    then show ?thesis unfolding c m using i(1) by blast
  qed
qed

lemma page_aligned_word: "e < 2 ^ 32 \<Longrightarrow> (of_nat e :: u32) mod of_nat PAGE_SIZE = 0 \<longleftrightarrow> e mod 4096 = 0"
  using aligned_unat [of "of_nat e"] by (simp only: unat_of_nat_u32)

text \<open>
  The pages above the new break are taken out of the table, except the one that holds it and, when it
  is inside a page, the next one.
\<close>

lemma sys_sbrk_shrinks:
  assumes pt: "PT_of s (cur s) = Some (d * 1024)" "d < 15" and r: "\<not> sbrk_past_table s incr"
    and pb: "pb = processBreak (tasks s (cur s))" "break_ok pb"
    and lt: "HEAP_START < unat pb"
    and i: "incr < 0" "nat (- incr) \<le> unat pb" and e: "e = max HEAP_START (unat pb - nat (- incr))"
  shows "\<exists>s'. sys_sbrk incr s = Some (pb, s') \<and> processBreak (tasks s' (cur s)) = of_nat e \<and>
    (\<forall>k. pagusr_table s' k = (if \<exists>p. int (e div 4096) + (if e mod 4096 = 0 then 0 else 1) < p \<and>
       p \<le> int (unat pb div 4096) \<and> k = d * 1024 + nat p then 0 else pagusr_table s k))"
proof -
  let ?n = "sbrk_incr pb incr"
  have n: "?n < 0" "pb + word_of_int ?n = of_nat e"
    using sbrk_incr_shrink [OF pb(2) lt i] e by simp_all
  have "e \<le> unat pb" using e lt by simp
  then have e32: "e < 2 ^ 32" "e < 1025 * 4096" using pb(2) unfolding break_ok_def by simp_all
  have ue: "unat (of_nat e :: u32) = e" by (rule unat_of_nat_u32 [OF e32(1)])
  define aux where "aux = (if e mod 4096 = 0 then 0 else 1 :: int)"
  have "284 \<le> e div 4096" using e by simp
  then have "284 \<le> int (e div 4096) + aux" by (simp add: aux_def)
  moreover have "int (unat pb div 4096) > int (e div 4096) + aux \<longrightarrow> in_table (d * 1024 + nat (int (unat pb div 4096)))"
  proof -
    have "\<not> (d = 14 \<and> sbrk_reaches pb incr)" using r pt(1) pb(1) by (auto simp: sbrk_past_table_def)
    from shrink_in_table [OF pt(2) pb(2) n(1) this] show ?thesis
      unfolding n(2) last_page_def sint_drop_12 ue page_aligned_word [OF e32(1)] aux_def by blast
  qed
  ultimately obtain pm t where g: "sbrk_shrink (d * 1024) (int (unat pb div 4096)) (int (e div 4096) + aux) s =
      Some (True, s\<lparr>phys_mem := pm, pagusr_table := t\<rparr>)"
    "\<forall>k. t k = (if \<exists>p. int (e div 4096) + aux < p \<and> p \<le> int (unat pb div 4096) \<and> k = d * 1024 + nat p
      then 0 else pagusr_table s k)"
    using sbrk_shrink_clears [of "int (e div 4096) + aux" "int (unat pb div 4096)" "d * 1024" s] by blast
  have f: "\<not> int (e div 4096) > 1024" using e32(2) by linarith
  have n0: "\<not> ?n > 0" using n(1) by simp
  let ?s1 = "s\<lparr>phys_mem := pm, pagusr_table := t\<rparr>"
  let ?s2 = "?s1\<lparr>cr3 := get_DIR ?s1 (cur ?s1)\<rparr>"
  let ?s' = "upd_task (cur ?s2) (processBreak_update (\<lambda>b. b + word_of_int ?n)) ?s2"
  have "sys_sbrk incr s = Some (pb, ?s')"
    unfolding sys_sbrk_unfold Let_def pb(1) [symmetric] pt(1) n(2) sint_drop_12 ue
      page_aligned_word [OF e32(1)] aux_def [symmetric] g(1) prod.case
    by (simp only: option.case prod.case g(1) f n0 n(1) if_True if_False simp_thms)
  moreover have "processBreak (tasks ?s' (cur s)) = of_nat e" using n(2) pb(1) by (simp add: upd_task_def)
  moreover have "pagusr_table ?s' = t" by (simp add: upd_task_def)
  ultimately show ?thesis using g(2) unfolding aux_def by (intro exI [of _ ?s']) simp
qed

end
