(* ===== verification/Boot.thy ===== *)
theory Boot
  imports Process
begin

text \<open>
  The start of the kernel: \<open>init_mm\<close> of \<open>mm.c\<close>, \<open>init_sched\<close>, \<open>init_idle\<close> and \<open>init_task1\<close> of
  \<open>sched.c\<close>, and their composition in \<open>main\<close> of \<open>system.c\<close>. \<open>reset_state\<close> is the state in which
  \<open>main\<close> starts: zeroed variables (\<open>.bss\<close> and \<open>.data.task\<close>), arbitrary physical memory, an
  arbitrary time-stamp counter, the address the linker gave \<open>pagusr_table\<close>, and the stack pointer
  at the top of \<open>task[3]\<close> (\<open>(DWord) &task[4]\<close> minus 20). The invariants the other theories assume
  are shown to hold when the first process enters the kernel.
\<close>

section \<open>The code\<close>

definition zero_stats :: stats where
  "zero_stats = \<lparr>user_ticks = 0, system_ticks = 0, blocked_ticks = 0, ready_ticks = 0,
     elapsed_total_ticks = 0, total_trans = 0, remaining_ticks = 0\<rparr>"

definition zero_task :: task_struct where
  "zero_task = \<lparr>PID = 0, dir_pages_baseAddr = None, kernel_esp = StackIx 0, estado = ST_RUN,
     estadisticas = zero_stats, n_directorio = 0, sem_ret = 0, quantum = 0, readKeys = 0,
     requiredKeys = 0, processBreak = 0\<rparr>"

definition reset_state :: "u32 \<Rightarrow> mem \<Rightarrow> (nat \<Rightarrow> u64) \<Rightarrow> kstate" where
  "reset_state pt_addr m clock =
     \<lparr>cur = 3, tasks = (\<lambda>_. zero_task), kstack = (\<lambda>_ _. Data 0),
       links = (\<lambda>_. \<lparr>nxt = None, prv = None\<rparr>),
       semaphores = (\<lambda>_. \<lparr>sem_state = FREE_SEM, n_sem = 0, owner = 0, counter = 0\<rparr>),
       refs_DIR = (\<lambda>_. 0), dir_pages = (\<lambda>_. 0), pagusr_table = (\<lambda>_. 0), pagusr_addr = pt_addr,
       phys_mem = (\<lambda>_. 0), memory = m, cr3 = None, tss_esp0 = 0, msr_esp = 1, qLeft = 0,
       idle_task = None, incrementalPID = 2, zeos_ticks = 0, keyboardBuff = cirBuffer_zero,
       con = console_init, tsc = clock, tsc_reads = 0\<rparr>"

definition DEFAULT_QUANTUM :: int where [simp]: "DEFAULT_QUANTUM = 15"

definition init_mm :: "kstate \<Rightarrow> kstate" where
  "init_mm s =
     (let s1 = s\<lparr>pagusr_table := init_table_pages (pagusr_table s)\<rparr>;
          s2 = s1\<lparr>phys_mem := init_frames (phys_mem s1)\<rparr>;
          s3 = s2\<lparr>dir_pages := init_dir_pages (pagusr_addr s2) (dir_pages s2)\<rparr>;
          (_, s4) = allocate_DIR s3 0
      in s4\<lparr>cr3 := get_DIR s4 0\<rparr>)"

text \<open>The three loops of \<open>init_sched\<close>.\<close>

fun init_free_tasks :: "nat list \<Rightarrow> kstate \<Rightarrow> kstate option" where
  "init_free_tasks [] s = Some s"
| "init_free_tasks (i # is) s =
     do {
       let s1 = upd_task i (PID_update (\<lambda>_. - 1)) s;
       h \<leftarrow> list_add (links s1) (TaskL i) FreeQ;
       init_free_tasks is (s1\<lparr>links := h\<rparr>)
     }"

definition init_sched :: "kstate \<Rightarrow> kstate option" where
  "init_sched s =
     do {
       let s1 = s\<lparr>links := INIT_LIST_HEAD (links s) KeyQ\<rparr>;
       let s2 = s1\<lparr>links := INIT_LIST_HEAD (links s1) FreeQ\<rparr>;
       s3 \<leftarrow> init_free_tasks [0..<NR_TASKS] s2;
       let s4 = s3\<lparr>links := INIT_LIST_HEAD (links s3) ReadyQ\<rparr>;
       let s5 = s4\<lparr>refs_DIR := foldl (\<lambda>r i. r(i := 0)) (refs_DIR s4) [0..<NR_TASKS]\<rparr>;
       Some (foldl (\<lambda>s i. upd_sem i (\<lambda>x. x\<lparr>counter := 0, sem_state := FREE_SEM\<rparr>) s) s5 [0..<20])
     }"

definition incr_refs :: "nat \<Rightarrow> kstate \<Rightarrow> kstate" where
  "incr_refs t s =
     (let d = get_DIR_position s t in s\<lparr>refs_DIR := (refs_DIR s)(d := i32 (refs_DIR s d + 1))\<rparr>)"

text \<open>
  \<open>cpu_idle\<close>, the code of the idle process: it enables interrupts, prints, and loops with an empty body.
\<close>

definition cpu_idle :: "kstate \<Rightarrow> kstate option" where
  "cpu_idle s =
     map_option (\<lambda>c. s\<lparr>con := c\<rparr>)
       (printk (con s) (List.map (\<lambda>c. of_nat (of_char c)) ''Entering cpu_idle'' @ [0]))"

definition init_idle :: "kstate \<Rightarrow> kstate option" where
  "init_idle s =
     do {
       aux \<leftarrow> list_first (links s) FreeQ;
       h \<leftarrow> list_del (links s) aux;
       ts \<leftarrow> list_head_to_task_struct aux;
       let s1 = s\<lparr>links := h\<rparr>;
       let s2 = upd_task ts (PID_update (\<lambda>_. 0)) s1;
       let s3 = upd_task ts (quantum_update (\<lambda>_. DEFAULT_QUANTUM)) s2;
       let s4 = upd_stats ts init_stats s3;
       let (_, s5) = allocate_DIR s4 ts;
       let s6 = incr_refs ts s5;
       let s7 = s6\<lparr>kstack := (kstack s6)(ts := (kstack s6 ts)
         (KERNEL_STACK_SIZE - 1 := Code Cpu_idle, KERNEL_STACK_SIZE - 2 := Data 0))\<rparr>;
       let s8 = upd_task ts (kernel_esp_update (\<lambda>_. StackIx (KERNEL_STACK_SIZE - 2))) s7;
       let s9 = upd_task ts (processBreak_update (\<lambda>_. of_nat HEAP_START)) s8;
       Some (s9\<lparr>idle_task := Some ts\<rparr>)
     }"

definition init_task1 :: "kstate \<Rightarrow> kstate option" where
  "init_task1 s =
     do {
       aux \<leftarrow> list_first (links s) FreeQ;
       h \<leftarrow> list_del (links s) aux;
       ts \<leftarrow> list_head_to_task_struct aux;
       let s1 = s\<lparr>links := h\<rparr>;
       let s2 = upd_task ts (PID_update (\<lambda>_. 1)) s1;
       let s3 = upd_task ts (quantum_update (\<lambda>_. DEFAULT_QUANTUM)) s2;
       let s4 = upd_task ts (estado_update (\<lambda>_. ST_RUN)) s3;
       let s5 = upd_task ts (processBreak_update (\<lambda>_. of_nat HEAP_START)) s4;
       let s6 = s5\<lparr>qLeft := quantum (tasks s5 ts)\<rparr>;
       let s7 = upd_stats ts init_stats s6;
       let (_, s8) = allocate_DIR s7 ts;
       let s9 = incr_refs ts s8;
       PT \<leftarrow> PT_of s9 ts;
       let (pt, pm) = set_user_pages PT (pagusr_table s9) (phys_mem s9);
       let s10 = s9\<lparr>pagusr_table := pt, phys_mem := pm\<rparr>;
       let s11 = s10\<lparr>tss_esp0 := ts\<rparr>;
       let s12 = s11\<lparr>msr_esp := ts\<rparr>;
       Some (s12\<lparr>cr3 := get_DIR s12 ts\<rparr>)
     }"

text \<open>The part of \<open>main\<close> that sets the kernel state up, and the copy of the user image.\<close>

definition KERNEL_START :: u32 where [simp]: "KERNEL_START = 0x10000"
definition PH_USER_START :: u32 where [simp]: "PH_USER_START = 0x100000"

definition load_user_image :: "kstate \<Rightarrow> kstate option" where
  "load_user_image s =
     do {
       sys_size \<leftarrow> load32 (kmmu s) (memory s) KERNEL_START;
       usr_size \<leftarrow> load32 (kmmu s) (memory s) (KERNEL_START + 4);
       m \<leftarrow> copy_data (kmmu s) (memory s) (KERNEL_START + sys_size) PH_USER_START (sint usr_size);
       Some (s\<lparr>memory := m\<rparr>)
     }"

definition start_kernel :: "kstate \<Rightarrow> kstate option" where
  "start_kernel s =
     do { let s1 = init_mm s; s2 \<leftarrow> init_sched s1; s3 \<leftarrow> init_idle s2; init_task1 s3 }"

text \<open>
  An interrupt from user mode takes the kernel stack from the TSS, \<open>sysenter\<close> takes it from the
  MSR 0x175: this makes the process the current one.
\<close>

definition enter_by_interrupt :: "kstate \<Rightarrow> kstate" where
  "enter_by_interrupt s = s\<lparr>cur := tss_esp0 s\<rparr>"

definition enter_by_sysenter :: "kstate \<Rightarrow> kstate" where
  "enter_by_sysenter s = s\<lparr>cur := msr_esp s\<rparr>"

section \<open>The queues after \<open>init_sched\<close>\<close>

lemma init_free_tasks_queue:
  "lq.family (links s) (tlists Q) S \<Longrightarrow> FreeQ \<in> S \<Longrightarrow> \<forall>i. TaskL i \<notin> S \<Longrightarrow> distinct is \<Longrightarrow>
    \<forall>r\<in>S. \<forall>i\<in>set is. i \<notin> set (Q r) \<Longrightarrow>
    \<exists>h. init_free_tasks is s = Some (s\<lparr>links := h,
        tasks := (\<lambda>t. if t \<in> set is then (tasks s t)\<lparr>PID := - 1\<rparr> else tasks s t)\<rparr>) \<and>
      lq.family h (tlists (Q(FreeQ := rev is @ Q FreeQ))) S"
proof (induction "is" arbitrary: s Q)
  case Nil
  then show ?case by (intro exI [of _ "links s"]) simp
next
  case (Cons i "is")
  let ?s1 = "upd_task i (PID_update (\<lambda>_. - 1)) s"
  obtain h where h: "list_add (links s) (TaskL i) FreeQ = Some h"
    "lq.family h ((tlists Q)(FreeQ := TaskL i # tlists Q FreeQ)) S"
    using lq.family_push_front [of "links s" "tlists Q" S FreeQ "TaskL i"] Cons.prems by auto
  let ?Q = "Q(FreeQ := i # Q FreeQ)" and ?s2 = "?s1\<lparr>links := h\<rparr>"
  have "tlists ?Q = (tlists Q)(FreeQ := TaskL i # tlists Q FreeQ)" by (auto simp: tlists_def)
  then have f: "lq.family (links ?s2) (tlists ?Q) S" using h(2) by simp
  have d: "distinct is" "\<forall>r\<in>S. \<forall>j\<in>set is. j \<notin> set (?Q r)" using Cons.prems(4,5) by auto
  obtain h' where h': "init_free_tasks is ?s2 = Some (?s2\<lparr>links := h',
        tasks := (\<lambda>t. if t \<in> set is then (tasks ?s2 t)\<lparr>PID := - 1\<rparr> else tasks ?s2 t)\<rparr>)"
    "lq.family h' (tlists (?Q(FreeQ := rev is @ ?Q FreeQ))) S"
    using Cons.IH [OF f Cons.prems(2,3) d] by blast
  have "(\<lambda>t. if t \<in> set is then (tasks ?s2 t)\<lparr>PID := - 1\<rparr> else tasks ?s2 t) =
      (\<lambda>t. if t \<in> set (i # is) then (tasks s t)\<lparr>PID := - 1\<rparr> else tasks s t)"
    using Cons.prems(4) by (auto simp: fun_eq_iff)
  then have "?s2\<lparr>links := h', tasks := (\<lambda>t. if t \<in> set is then (tasks ?s2 t)\<lparr>PID := - 1\<rparr> else tasks ?s2 t)\<rparr> =
      s\<lparr>links := h', tasks := (\<lambda>t. if t \<in> set (i # is) then (tasks s t)\<lparr>PID := - 1\<rparr> else tasks s t)\<rparr>"
    by (simp add: upd_task_def)
  moreover have "init_free_tasks (i # is) s = init_free_tasks is ?s2" using h(1) by (simp add: Let_def)
  moreover have e: "?Q(FreeQ := rev is @ ?Q FreeQ) = Q(FreeQ := rev (i # is) @ Q FreeQ)" by auto
  ultimately have "init_free_tasks (i # is) s = Some (s\<lparr>links := h',
      tasks := (\<lambda>t. if t \<in> set (i # is) then (tasks s t)\<lparr>PID := - 1\<rparr> else tasks s t)\<rparr>)"
    using h'(1) by (simp only:)
  moreover have "lq.family h' (tlists (Q(FreeQ := rev (i # is) @ Q FreeQ))) S" using h'(2) unfolding e .
  ultimately show ?case by blast
qed

definition no_queues :: "ptr \<Rightarrow> nat list" where
  "no_queues = (\<lambda>_. [])"

lemma foldl_upd_sem:
  "foldl (\<lambda>s i. upd_sem i f s) s is = s\<lparr>semaphores := semaphores (foldl (\<lambda>s i. upd_sem i f s) s is)\<rparr> \<and>
    (\<forall>j. distinct is \<longrightarrow> semaphores (foldl (\<lambda>s i. upd_sem i f s) s is) j =
      (if j \<in> set is then f (semaphores s j) else semaphores s j))"
proof (induction "is" arbitrary: s)
  case (Cons i "is")
  have "foldl (\<lambda>s i. upd_sem i f s) s (i # is) = foldl (\<lambda>s i. upd_sem i f s) (upd_sem i f s) is" by simp
  then show ?case using Cons.IH [of "upd_sem i f s"] by (auto simp: upd_sem_def)
qed simp

lemma init_sched_queues:
  "\<exists>h sem. init_sched s = Some (s\<lparr>tasks := (\<lambda>t. if t < 15 then (tasks s t)\<lparr>PID := - 1\<rparr> else tasks s t),
      links := h, refs_DIR := (\<lambda>i. if i < 15 then 0 else refs_DIR s i), semaphores := sem\<rparr>) \<and>
    (\<forall>i<20. sem i = (semaphores s i)\<lparr>counter := 0, sem_state := FREE_SEM\<rparr>) \<and>
    lq.family h (tlists (no_queues(FreeQ := rev [0..<15]))) {FreeQ, ReadyQ, KeyQ}"
proof -
  let ?h1 = "INIT_LIST_HEAD (links s) KeyQ"
  let ?s2 = "s\<lparr>links := INIT_LIST_HEAD ?h1 FreeQ\<rparr>"
  have T: "(tlists no_queues)(q := []) = tlists no_queues" for q by (auto simp: tlists_def no_queues_def)
  have nq: "q \<notin> set (tlists no_queues r)" for q r by (simp add: tlists_def no_queues_def)
  have "lq.family (links s) (tlists no_queues) {}" by (simp add: lq.family_def)
  then have "lq.family ?h1 (tlists no_queues) {KeyQ}"
    using lq.family_init [of "links s" "tlists no_queues" "{}" KeyQ] by (simp add: T)
  then have f2: "lq.family (links ?s2) (tlists no_queues) {FreeQ, KeyQ}"
    using lq.family_init [of ?h1 "tlists no_queues" "{KeyQ}" FreeQ] nq by (simp add: T)
  obtain h where h: "init_free_tasks [0..<15] ?s2 = Some (?s2\<lparr>links := h,
      tasks := (\<lambda>t. if t \<in> set [0..<15] then (tasks ?s2 t)\<lparr>PID := - 1\<rparr> else tasks ?s2 t)\<rparr>)"
    "lq.family h (tlists (no_queues(FreeQ := rev [0..<15] @ no_queues FreeQ))) {FreeQ, KeyQ}"
    using init_free_tasks_queue [OF f2, of "[0..<15]"] by (auto simp: no_queues_def)
  let ?s4 = "s\<lparr>tasks := (\<lambda>t. if t < 15 then (tasks s t)\<lparr>PID := - 1\<rparr> else tasks s t),
      links := INIT_LIST_HEAD h ReadyQ,
      refs_DIR := foldl (\<lambda>r i. r(i := 0)) (refs_DIR s) [0..<15]\<rparr>"
  let ?f = "\<lambda>x. x\<lparr>counter := 0, sem_state := FREE_SEM\<rparr>"
  let ?s6 = "foldl (\<lambda>s i. upd_sem i ?f s) ?s4 [0..<20]"
  have "init_sched s = Some ?s6"
    using h(1) by (simp add: init_sched_def Let_def del: upt_rec_numeral foldl.simps cong: if_cong)
  moreover have "foldl (\<lambda>r i. r(i := 0 :: int)) r [0..<15] = (\<lambda>i. if i < 15 then 0 else r i)" for r
    by (auto simp: fun_eq_iff foldl_upd simp del: upt_rec_numeral)
  moreover have "?s6 = ?s4\<lparr>semaphores := semaphores ?s6\<rparr>" and
    "\<forall>j<20. semaphores ?s6 j = ?f (semaphores s j)"
    using foldl_upd_sem [of ?f ?s4 "[0..<20]"] by auto
  moreover have "lq.family (INIT_LIST_HEAD h ReadyQ) (tlists (no_queues(FreeQ := rev [0..<15]))) {FreeQ, ReadyQ, KeyQ}"
  proof -
    have e: "(tlists (no_queues(FreeQ := rev [0..<15])))(ReadyQ := []) = tlists (no_queues(FreeQ := rev [0..<15]))"
      by (auto simp: tlists_def no_queues_def)
    have "lq.family (INIT_LIST_HEAD h ReadyQ) ((tlists (no_queues(FreeQ := rev [0..<15])))(ReadyQ := [])) (insert ReadyQ {FreeQ, KeyQ})"
      using h(2) by (intro lq.family_init) (auto simp: no_queues_def tlists_def)
    then show ?thesis unfolding e by (simp add: insert_commute)
  qed
  ultimately show ?thesis
    by (intro exI [of _ "INIT_LIST_HEAD h ReadyQ"] exI [of _ "semaphores ?s6"]) (simp del: upt_rec_numeral foldl.simps)
qed

section \<open>The first processes\<close>

definition idle_struct :: task_struct where
  "idle_struct = zero_task\<lparr>PID := 0, dir_pages_baseAddr := Some 0, kernel_esp := StackIx 1022,
     quantum := 15, processBreak := of_nat HEAP_START\<rparr>"

definition task1_struct :: task_struct where
  "task1_struct = zero_task\<lparr>PID := 1, dir_pages_baseAddr := Some 1, n_directorio := 1,
     quantum := 15, processBreak := of_nat HEAP_START\<rparr>"

text \<open>\<open>main\<close> has printed a line before it sets the kernel state up, so the console is any console \<open>c\<close>.\<close>

lemma reset_state_con [simp]: "(reset_state a m clk)\<lparr>con := console_init\<rparr> = reset_state a m clk"
  by (simp add: reset_state_def)

lemma init_mm_reset:
  "init_mm ((reset_state a m clk)\<lparr>con := c\<rparr>) =
    (reset_state a m clk)\<lparr>con := c, pagusr_table := init_table_pages (\<lambda>_. 0), phys_mem := init_frames (\<lambda>_. 0),
      dir_pages := init_dir_pages a (\<lambda>_. 0), tasks := (\<lambda>_. zero_task)(0 := zero_task\<lparr>dir_pages_baseAddr := Some 0\<rparr>),
      refs_DIR := (\<lambda>_. 0)(0 := 1), cr3 := Some 0\<rparr>"
proof -
  let ?s3 = "(reset_state a m clk)\<lparr>con := c, pagusr_table := init_table_pages (\<lambda>_. 0), phys_mem := init_frames (\<lambda>_. 0),
      dir_pages := init_dir_pages a (\<lambda>_. 0)\<rparr>"
  have "allocate_DIR ?s3 0 = (1, give_DIR 0 0 ?s3)"
    by (rule allocate_DIR_first) (simp_all add: reset_state_def)
  then show ?thesis
    by (simp add: init_mm_def reset_state_def give_DIR_def upd_task_def get_DIR_def zero_task_def Let_def)
qed

lemma init_mm_fields:
  "pagusr_addr (init_mm ((reset_state a m clk)\<lparr>con := c\<rparr>)) = a"
  "dir_pages (init_mm ((reset_state a m clk)\<lparr>con := c\<rparr>)) = init_dir_pages a (\<lambda>_. 0)"
  "pagusr_table (init_mm ((reset_state a m clk)\<lparr>con := c\<rparr>)) = init_table_pages (\<lambda>_. 0)"
  "phys_mem (init_mm ((reset_state a m clk)\<lparr>con := c\<rparr>)) = init_frames (\<lambda>_. 0)"
  "memory (init_mm ((reset_state a m clk)\<lparr>con := c\<rparr>)) = m"
  "keyboardBuff (init_mm ((reset_state a m clk)\<lparr>con := c\<rparr>)) = cirBuffer_zero"
  "con (init_mm ((reset_state a m clk)\<lparr>con := c\<rparr>)) = c"
  "incrementalPID (init_mm ((reset_state a m clk)\<lparr>con := c\<rparr>)) = 2"
  "refs_DIR (init_mm ((reset_state a m clk)\<lparr>con := c\<rparr>)) = (\<lambda>_. 0)(0 := 1)"
  "tasks (init_mm ((reset_state a m clk)\<lparr>con := c\<rparr>)) = (\<lambda>_. zero_task)(0 := zero_task\<lparr>dir_pages_baseAddr := Some 0\<rparr>)"
  unfolding init_mm_reset by (simp_all add: reset_state_def)

text \<open>\<open>init_idle\<close> and \<open>init_task1\<close>, for a state whose first unused directory is known.\<close>

lemma init_idle_runs:
  assumes f: "lq.family (links s) (tlists Q) S" "FreeQ \<in> S" "Q FreeQ = t # ts"
    and d: "d < 15" "refs_DIR s d = 0" "\<forall>k<d. refs_DIR s k \<noteq> 0"
  shows "\<exists>h. init_idle s = Some (s\<lparr>tasks := (tasks s)(t := (tasks s t)\<lparr>PID := 0, quantum := 15,
      estadisticas := init_stats (estadisticas (tasks s t)), dir_pages_baseAddr := Some d, n_directorio := d,
      kernel_esp := StackIx 1022, processBreak := of_nat HEAP_START\<rparr>),
    kstack := (kstack s)(t := (kstack s t)(1023 := Code Cpu_idle, 1022 := Data 0)),
    links := h, refs_DIR := (refs_DIR s)(d := 2), idle_task := Some t\<rparr>) \<and>
    lq.family h (tlists (Q(FreeQ := ts))) S"
proof -
  obtain h where h: "list_first (links s) FreeQ = Some (TaskL t)" "list_del (links s) (TaskL t) = Some h"
    "lq.family h ((tlists Q)(FreeQ := map TaskL ts)) S"
    using lq.family_pop [OF f(1,2), of "TaskL t" "map TaskL ts"] f(3) by (auto simp: tlists_def)
  let ?s4 = "upd_stats t init_stats (upd_task t (quantum_update (\<lambda>_. 15)) (upd_task t (PID_update (\<lambda>_. 0)) (s\<lparr>links := h\<rparr>)))"
  have "allocate_DIR ?s4 t = (1, give_DIR t d ?s4)"
    using d by (intro allocate_DIR_first) (simp_all add: upd_stats_def upd_task_def)
  moreover have "lq.family h (tlists (Q(FreeQ := ts))) S" using h(3) by (simp add: tlists_upd)
  ultimately show ?thesis using h(1,2)
    by (intro exI [of _ h] conjI) (simp_all add: init_idle_def incr_refs_def get_DIR_position_def give_DIR_def
        upd_task_def upd_stats_def i32_id int_range_def Let_def fun_upd_def fun_eq_iff cong: if_cong)
qed

lemma init_task1_runs:
  assumes f: "lq.family (links s) (tlists Q) S" "FreeQ \<in> S" "Q FreeQ = t # ts"
    and d: "d < 15" "refs_DIR s d = 0" "\<forall>k<d. refs_DIR s k \<noteq> 0"
    and a: "table_addr_ok (pagusr_addr s)" "dir_pages s (d * 1024) = dir_entry (pagusr_addr s) d"
    and u: "set_user_pages (d * 1024) (pagusr_table s) (phys_mem s) = (pt, pm)"
  shows "\<exists>h. init_task1 s = Some (s\<lparr>tasks := (tasks s)(t := (tasks s t)\<lparr>PID := 1, quantum := 15,
      estado := ST_RUN, processBreak := of_nat HEAP_START,
      estadisticas := init_stats (estadisticas (tasks s t)), dir_pages_baseAddr := Some d, n_directorio := d\<rparr>),
    links := h, qLeft := 15, refs_DIR := (refs_DIR s)(d := 2), pagusr_table := pt, phys_mem := pm,
    tss_esp0 := t, msr_esp := t, cr3 := Some d\<rparr>) \<and>
    lq.family h (tlists (Q(FreeQ := ts))) S"
proof -
  obtain h where h: "list_first (links s) FreeQ = Some (TaskL t)" "list_del (links s) (TaskL t) = Some h"
    "lq.family h ((tlists Q)(FreeQ := map TaskL ts)) S"
    using lq.family_pop [OF f(1,2), of "TaskL t" "map TaskL ts"] f(3) by (auto simp: tlists_def)
  let ?s5 = "upd_task t (processBreak_update (\<lambda>_. of_nat HEAP_START)) (upd_task t (estado_update (\<lambda>_. ST_RUN))
    (upd_task t (quantum_update (\<lambda>_. 15)) (upd_task t (PID_update (\<lambda>_. 1)) (s\<lparr>links := h\<rparr>))))"
  let ?s7 = "upd_stats t init_stats (?s5\<lparr>qLeft := 15\<rparr>)"
  let ?s9 = "incr_refs t (give_DIR t d ?s7)"
  have al: "allocate_DIR ?s7 t = (1, give_DIR t d ?s7)"
    using d by (intro allocate_DIR_first) (simp_all add: upd_stats_def upd_task_def)
  have PT: "PT_of ?s9 t = Some (d * 1024)"
    using a d(1) by (intro PT_of_dir) (simp_all add: incr_refs_def give_DIR_def upd_task_def upd_stats_def Let_def)
  have q: "quantum (tasks ?s5 t) = 15" by simp
  have u9: "set_user_pages (d * 1024) (pagusr_table ?s9) (phys_mem ?s9) = (pt, pm)"
    using u by (simp add: incr_refs_def give_DIR_def upd_task_def upd_stats_def Let_def)
  have "init_task1 s = Some (?s9\<lparr>pagusr_table := pt, phys_mem := pm, tss_esp0 := t, msr_esp := t,
      cr3 := get_DIR (?s9\<lparr>pagusr_table := pt, phys_mem := pm, tss_esp0 := t, msr_esp := t\<rparr>) t\<rparr>)"
    using h(1,2) q al PT u9 unfolding init_task1_def Let_def DEFAULT_QUANTUM_def
    by (simp only: bind.bind_lunit list_head_to_task_struct.simps prod.case)
  also have "?s9\<lparr>pagusr_table := pt, phys_mem := pm, tss_esp0 := t, msr_esp := t,
      cr3 := get_DIR (?s9\<lparr>pagusr_table := pt, phys_mem := pm, tss_esp0 := t, msr_esp := t\<rparr>) t\<rparr> =
    s\<lparr>tasks := (tasks s)(t := (tasks s t)\<lparr>PID := 1, quantum := 15,
      estado := ST_RUN, processBreak := of_nat HEAP_START,
      estadisticas := init_stats (estadisticas (tasks s t)), dir_pages_baseAddr := Some d, n_directorio := d\<rparr>),
    links := h, qLeft := 15, refs_DIR := (refs_DIR s)(d := 2), pagusr_table := pt, phys_mem := pm,
    tss_esp0 := t, msr_esp := t, cr3 := Some d\<rparr>"
    by (simp add: incr_refs_def get_DIR_position_def give_DIR_def get_DIR_def upd_task_def upd_stats_def
        i32_id int_range_def Let_def fun_upd_def fun_eq_iff cong: if_cong)
  finally show ?thesis using h(3) unfolding tlists_upd by blast
qed

definition boot_queues :: "ptr \<Rightarrow> nat list" where
  "boot_queues = no_queues(FreeQ := rev [0..<13])"

lemma start_kernel_runs:
  assumes a: "table_addr_ok a"
  shows "\<exists>s. start_kernel ((reset_state a m clk)\<lparr>con := c\<rparr>) = Some s \<and>
    lq.family (links s) (tlists boot_queues) {FreeQ, ReadyQ, KeyQ} \<and>
    (\<forall>i<20. sem_state (semaphores s i) = FREE_SEM \<and> counter (semaphores s i) = 0) \<and>
    tss_esp0 s = 13 \<and> msr_esp s = 13 \<and> cr3 s = Some 1 \<and> idle_task s = Some 14 \<and> qLeft s = 15 \<and>
    tasks s 13 = task1_struct \<and> tasks s 14 = idle_struct \<and> (\<forall>t<13. PID (tasks s t) = - 1) \<and>
    refs_DIR s = (\<lambda>_. 0)(0 := 2, 1 := 2) \<and> pagusr_addr s = a \<and> dir_pages s = init_dir_pages a (\<lambda>_. 0) \<and>
    set_user_pages 1024 (init_table_pages (\<lambda>_. 0)) (init_frames (\<lambda>_. 0)) = (pagusr_table s, phys_mem s) \<and>
    memory s = m \<and> keyboardBuff s = cirBuffer_zero \<and> con s = c \<and> incrementalPID s = 2 \<and>
    kstack s 14 1023 = Code Cpu_idle \<and> kstack s 14 1022 = Data 0"
proof -
  let ?s1 = "init_mm ((reset_state a m clk)\<lparr>con := c\<rparr>)"
  obtain h sem where i: "init_sched ?s1 = Some (?s1\<lparr>tasks := (\<lambda>t. if t < 15 then (tasks ?s1 t)\<lparr>PID := - 1\<rparr> else tasks ?s1 t),
      links := h, refs_DIR := (\<lambda>i. if i < 15 then 0 else refs_DIR ?s1 i), semaphores := sem\<rparr>)"
    "\<forall>i<20. sem i = (semaphores ?s1 i)\<lparr>counter := 0, sem_state := FREE_SEM\<rparr>"
    "lq.family h (tlists (no_queues(FreeQ := rev [0..<15]))) {FreeQ, ReadyQ, KeyQ}"
    using init_sched_queues [of ?s1] by blast
  let ?s2 = "?s1\<lparr>tasks := (\<lambda>t. if t < 15 then (tasks ?s1 t)\<lparr>PID := - 1\<rparr> else tasks ?s1 t),
      links := h, refs_DIR := (\<lambda>i. if i < 15 then 0 else refs_DIR ?s1 i), semaphores := sem\<rparr>"
  have q15: "(no_queues(FreeQ := rev [0..<15])) FreeQ = 14 # rev [0..<14]"
    "(no_queues(FreeQ := rev [0..<14])) FreeQ = 13 # rev [0..<13]"
    by (simp_all add: upt_rec)
  have upd: "no_queues(FreeQ := xs, FreeQ := ys) = no_queues(FreeQ := ys)" for xs ys by simp
  have r2: "refs_DIR ?s2 = (\<lambda>i. if i < 15 then 0 else refs_DIR ?s1 i)" "links ?s2 = h" by simp_all
  obtain h3 where s3: "init_idle ?s2 = Some (?s2\<lparr>tasks := (tasks ?s2)(14 := (tasks ?s2 14)\<lparr>PID := 0, quantum := 15,
      estadisticas := init_stats (estadisticas (tasks ?s2 14)), dir_pages_baseAddr := Some 0, n_directorio := 0,
      kernel_esp := StackIx 1022, processBreak := of_nat HEAP_START\<rparr>),
    kstack := (kstack ?s2)(14 := (kstack ?s2 14)(1023 := Code Cpu_idle, 1022 := Data 0)),
    links := h3, refs_DIR := (refs_DIR ?s2)(0 := 2), idle_task := Some 14\<rparr>)"
    "lq.family h3 (tlists (no_queues(FreeQ := rev [0..<14]))) {FreeQ, ReadyQ, KeyQ}"
    using init_idle_runs [of ?s2 "no_queues(FreeQ := rev [0..<15])" "{FreeQ, ReadyQ, KeyQ}" 14 "rev [0..<14]" 0]
      i(3) q15(1) by (auto simp: r2 upd simp del: upt_rec_numeral)
  let ?s3 = "?s2\<lparr>tasks := (tasks ?s2)(14 := (tasks ?s2 14)\<lparr>PID := 0, quantum := 15,
      estadisticas := init_stats (estadisticas (tasks ?s2 14)), dir_pages_baseAddr := Some 0, n_directorio := 0,
      kernel_esp := StackIx 1022, processBreak := of_nat HEAP_START\<rparr>),
    kstack := (kstack ?s2)(14 := (kstack ?s2 14)(1023 := Code Cpu_idle, 1022 := Data 0)),
    links := h3, refs_DIR := (refs_DIR ?s2)(0 := 2), idle_task := Some 14\<rparr>"
  have f3: "refs_DIR ?s3 = (\<lambda>i. if i < 15 then 0 else refs_DIR ?s1 i)(0 := 2)" "links ?s3 = h3"
    "pagusr_addr ?s3 = a" "dir_pages ?s3 = init_dir_pages a (\<lambda>_. 0)"
    "pagusr_table ?s3 = init_table_pages (\<lambda>_. 0)" "phys_mem ?s3 = init_frames (\<lambda>_. 0)"
    by (simp_all add: init_mm_fields)
  obtain pt pm where u: "set_user_pages (1 * 1024) (init_table_pages (\<lambda>_. 0)) (init_frames (\<lambda>_. 0)) = (pt, pm)"
    by fastforce
  have dir1: "init_dir_pages a (\<lambda>_. 0) (1 * 1024) = dir_entry a 1" by (simp add: init_dir_pages_apply)
  obtain h4 where s4: "init_task1 ?s3 = Some (?s3\<lparr>tasks := (tasks ?s3)(13 := (tasks ?s3 13)\<lparr>PID := 1, quantum := 15,
      estado := ST_RUN, processBreak := of_nat HEAP_START,
      estadisticas := init_stats (estadisticas (tasks ?s3 13)), dir_pages_baseAddr := Some 1, n_directorio := 1\<rparr>),
    links := h4, qLeft := 15, refs_DIR := (refs_DIR ?s3)(1 := 2), pagusr_table := pt, phys_mem := pm,
    tss_esp0 := 13, msr_esp := 13, cr3 := Some 1\<rparr>)"
    "lq.family h4 (tlists (no_queues(FreeQ := rev [0..<13]))) {FreeQ, ReadyQ, KeyQ}"
  proof -
    have "lq.family (links ?s3) (tlists (no_queues(FreeQ := rev [0..<14]))) {FreeQ, ReadyQ, KeyQ}"
      using s3(2) by (simp only: f3)
    moreover have "FreeQ \<in> {FreeQ, ReadyQ, KeyQ}" by simp
    moreover have "refs_DIR ?s3 1 = 0" "\<forall>k<1. refs_DIR ?s3 k \<noteq> 0" unfolding f3 by simp_all
    moreover have "table_addr_ok (pagusr_addr ?s3)" "dir_pages ?s3 (1 * 1024) = dir_entry (pagusr_addr ?s3) 1"
      unfolding f3 by (rule a, rule dir1)
    moreover have "set_user_pages (1 * 1024) (pagusr_table ?s3) (phys_mem ?s3) = (pt, pm)" unfolding f3 by (rule u)
    ultimately show thesis
      using init_task1_runs [of ?s3 "no_queues(FreeQ := rev [0..<14])" "{FreeQ, ReadyQ, KeyQ}" 13 "rev [0..<13]" 1 pt pm]
        q15(2) that unfolding upd by fastforce
  qed
  let ?s4 = "?s3\<lparr>tasks := (tasks ?s3)(13 := (tasks ?s3 13)\<lparr>PID := 1, quantum := 15,
      estado := ST_RUN, processBreak := of_nat HEAP_START,
      estadisticas := init_stats (estadisticas (tasks ?s3 13)), dir_pages_baseAddr := Some 1, n_directorio := 1\<rparr>),
    links := h4, qLeft := 15, refs_DIR := (refs_DIR ?s3)(1 := 2), pagusr_table := pt, phys_mem := pm,
    tss_esp0 := 13, msr_esp := 13, cr3 := Some 1\<rparr>"
  have "start_kernel ((reset_state a m clk)\<lparr>con := c\<rparr>) = Some ?s4"
    unfolding start_kernel_def Let_def i(1) bind.bind_lunit s3(1) by (rule s4(1))
  moreover have "lq.family (links ?s4) (tlists boot_queues) {FreeQ, ReadyQ, KeyQ}"
    using s4(2) unfolding boot_queues_def by simp
  moreover have "refs_DIR ?s4 = (\<lambda>_. 0)(0 := 2, 1 := 2)"
    by (auto simp: fun_eq_iff init_mm_fields)
  moreover have "tasks ?s4 13 = task1_struct" "tasks ?s4 14 = idle_struct"
    by (simp_all add: task1_struct_def idle_struct_def zero_task_def zero_stats_def init_stats_def
        init_mm_fields)
  moreover have "\<forall>i<20. sem_state (semaphores ?s4 i) = FREE_SEM \<and> counter (semaphores ?s4 i) = 0"
    using i(2) by simp
  moreover have "tss_esp0 ?s4 = 13" "msr_esp ?s4 = 13" "cr3 ?s4 = Some 1" "idle_task ?s4 = Some 14" "qLeft ?s4 = 15"
    by simp_all
  moreover have "\<forall>t<13. PID (tasks ?s4 t) = - 1" by simp
  moreover have "pagusr_addr ?s4 = a" "dir_pages ?s4 = init_dir_pages a (\<lambda>_. 0)" "memory ?s4 = m"
    "keyboardBuff ?s4 = cirBuffer_zero" "con ?s4 = c" "incrementalPID ?s4 = 2"
    by (simp_all add: init_mm_fields)
  moreover have "set_user_pages 1024 (init_table_pages (\<lambda>_. 0)) (init_frames (\<lambda>_. 0)) = (pagusr_table ?s4, phys_mem ?s4)"
    using u by simp
  moreover have "kstack ?s4 14 1023 = Code Cpu_idle" "kstack ?s4 14 1022 = Data 0" by simp_all
  ultimately show ?thesis by (intro exI [of _ ?s4] conjI)
qed

section \<open>The state after the boot\<close>

lemma boot_page_table:
  assumes "set_user_pages 1024 (init_table_pages (\<lambda>_. 0)) (init_frames (\<lambda>_. 0)) = (pt, pm)"
  shows "card (free_frames pm) = 356" "finite (free_frames pm)"
    "\<forall>i<20. pte_present (pt (1 * 1024 + (264 + i))) \<and> data_frame pt 1 i < 1024 \<and>
      data_frame pt 1 i \<notin> free_frames pm"
    "\<forall>i<20. data_frame pt 1 i \<in> frame_pool \<and> (\<forall>j<20. data_frame pt 1 i = data_frame pt 1 j \<longrightarrow> i = j)"
    "\<forall>k. k < 1280 \<or> 1308 \<le> k \<longrightarrow> pt k = (if k div 1024 < 15 then kernel_entry (k mod 1024) else 0)"
proof -
  let ?pm = "init_frames (\<lambda>_. 0)"
  have "28 \<le> card (free_frames ?pm)" by (simp add: free_frames_init card_frame_pool)
  then obtain cl dl where l: "length cl = 8" "length dl = 20" "distinct (cl @ dl)"
      "set (cl @ dl) \<subseteq> free_frames ?pm" "free_frames pm = free_frames ?pm - set (cl @ dl)"
      "\<forall>i<20. pt (1024 + (264 + i)) = mapped_entry (of_nat (dl ! i))"
      "\<forall>k. k < 1024 + 256 \<or> 1024 + 284 \<le> k \<longrightarrow> pt k = init_table_pages (\<lambda>_. 0) k"
    using set_user_pages_maps [of ?pm 1024 "init_table_pages (\<lambda>_. 0)"] assms by auto
  show "finite (free_frames pm)" by (rule finite_free_frames)
  have "card (set (cl @ dl)) = 28" using distinct_card [OF l(3)] l(1,2) by simp
  then show "card (free_frames pm) = 356"
    using l(4) unfolding l(5) by (subst card_Diff_subset) (simp_all add: free_frames_init card_frame_pool)
  have d: "data_frame pt 1 i = dl ! i \<and> dl ! i \<in> frame_pool \<and> dl ! i < 1024" if i: "i < 20" for i
  proof -
    have "dl ! i \<in> set dl" using i l(2) by simp
    then have f: "dl ! i \<in> frame_pool" using l(4) by (auto simp: free_frames_init)
    then have "dl ! i < 1024" by (simp add: frame_pool_def)
    then show ?thesis using l(6) i f by (simp add: data_frame_def unat_of_nat_u32)
  qed
  show "\<forall>i<20. pte_present (pt (1 * 1024 + (264 + i))) \<and> data_frame pt 1 i < 1024 \<and>
      data_frame pt 1 i \<notin> free_frames pm"
    using d l(2,5,6) by simp
  show "\<forall>i<20. data_frame pt 1 i \<in> frame_pool \<and> (\<forall>j<20. data_frame pt 1 i = data_frame pt 1 j \<longrightarrow> i = j)"
    using d l(2,3) by (simp add: nth_eq_iff_index_eq)
  show "\<forall>k. k < 1280 \<or> 1308 \<le> k \<longrightarrow> pt k = (if k div 1024 < 15 then kernel_entry (k mod 1024) else 0)"
    using l(7) by (simp add: init_table_pages_apply)
qed

text \<open>The first process enters the kernel: every invariant holds.\<close>

definition boot_facts :: "kstate \<Rightarrow> bool" where
  "boot_facts s \<longleftrightarrow> kinv s boot_queues \<and> sem_inv s boot_queues \<and> quanta_ok s boot_queues \<and>
     aspace_ok 1 s \<and> cur s = 13 \<and> idle_task s = Some 14 \<and> (\<forall>n. find_sem s n = None) \<and>
     PID (tasks s 13) = 1 \<and> incrementalPID s = 2 \<and> card (free_frames (phys_mem s)) = 356"

lemma start_kernel_establishes:
  assumes a: "table_addr_ok a"
  shows "\<exists>s. start_kernel ((reset_state a m clk)\<lparr>con := c\<rparr>) = Some s \<and> boot_facts (enter_by_interrupt s) \<and>
    enter_by_sysenter s = enter_by_interrupt s"
proof -
  obtain s where k: "start_kernel ((reset_state a m clk)\<lparr>con := c\<rparr>) = Some s"
    and l: "lq.family (links s) (tlists boot_queues) {FreeQ, ReadyQ, KeyQ}"
    and sm: "\<forall>i<20. sem_state (semaphores s i) = FREE_SEM \<and> counter (semaphores s i) = 0"
    and c: "tss_esp0 s = 13" "msr_esp s = 13" "cr3 s = Some 1" "idle_task s = Some 14" "qLeft s = 15"
    and t: "tasks s 13 = task1_struct" "tasks s 14 = idle_struct"
    and r: "refs_DIR s = (\<lambda>_. 0)(0 := 2, 1 := 2)" "pagusr_addr s = a" "dir_pages s = init_dir_pages a (\<lambda>_. 0)"
    and u: "set_user_pages 1024 (init_table_pages (\<lambda>_. 0)) (init_frames (\<lambda>_. 0)) = (pagusr_table s, phys_mem s)"
    and p: "incrementalPID s = 2"
    using start_kernel_runs [OF a, of c m clk] by blast
  let ?s = "enter_by_interrupt s"
  note pt = boot_page_table [OF u]
  have h: "heads ?s = {FreeQ, ReadyQ, KeyQ}" using sm by (auto simp: heads_def enter_by_interrupt_def)
  have e [simp]: "links ?s = links s" "semaphores ?s = semaphores s" "cur ?s = 13" "tasks ?s = tasks s"
    "idle_task ?s = Some 14" "qLeft ?s = 15" using c by (simp_all add: enter_by_interrupt_def)
  have st: "estado task1_struct = ST_RUN" "estado idle_struct = ST_RUN" "quantum task1_struct = 15"
    "quantum idle_struct = 15" "PID task1_struct = 1" "dir_pages_baseAddr task1_struct = Some 1"
    by (simp_all add: task1_struct_def idle_struct_def zero_task_def)
  have q: "boot_queues FreeQ = rev [0..<13]" "boot_queues ReadyQ = []" "boot_queues KeyQ = []"
    by (simp_all add: boot_queues_def no_queues_def del: upt_rec_numeral)
  have "kinv ?s boot_queues"
    unfolding kinv_def qinv_def run_inv_def idle_inv_def in_queue_def h
    using l st t by (auto simp: q simp del: upt_rec_numeral)
  moreover have fs: "find_sem ?s n = None" for n using sm by (auto simp: find_sem_None)
  moreover have "sem_inv ?s boot_queues" using sm by (simp add: sem_inv_def sem_unique_def int_range_def)
  moreover have "quanta_ok ?s boot_queues" unfolding quanta_ok_def active_def h
    using t st by (auto simp: q simp del: upt_rec_numeral)
  moreover have "aspace_ok 1 ?s"
    using a c r t st pt(3) by (simp add: aspace_ok_def enter_by_interrupt_def init_dir_pages_apply)
  moreover have "boot_facts ?s \<longleftrightarrow> kinv ?s boot_queues \<and> sem_inv ?s boot_queues \<and> quanta_ok ?s boot_queues \<and>
      aspace_ok 1 ?s"
    using p pt(1) t st fs by (simp add: boot_facts_def) (simp add: enter_by_interrupt_def)
  ultimately show ?thesis using k c by (auto simp: enter_by_interrupt_def enter_by_sysenter_def)
qed

end
