(* ===== verification/Sample.thy ===== *)
theory Sample
  imports Boot IOCalls Sbrk
begin

text \<open>
  A concrete kernel state, on which the properties are shown to have instances: task 13 runs, 14 is
  the idle task, 1 and 2 are ready, 3 and 4 are free descriptors, and 5 and 6 wait on semaphore 7,
  which task 13 owns and which has the first place of the table. The page tables, directories and
  frames are those the start of the kernel leaves.
\<close>

definition node :: "ptr \<Rightarrow> ptr \<Rightarrow> ptr list_head" where
  "node n p = \<lparr>nxt = Some n, prv = Some p\<rparr>"

definition sample_queues :: "ptr \<Rightarrow> nat list" where
  "sample_queues = (\<lambda>_. [])(FreeQ := [3, 4], ReadyQ := [1, 2], SemQ 0 := [5, 6])"

definition sample_links :: "ptr links" where
  "sample_links = (\<lambda>q. node q q)
     (FreeQ := node (TaskL 3) (TaskL 4), TaskL 3 := node (TaskL 4) FreeQ, TaskL 4 := node FreeQ (TaskL 3),
      ReadyQ := node (TaskL 1) (TaskL 2), TaskL 1 := node (TaskL 2) ReadyQ, TaskL 2 := node ReadyQ (TaskL 1),
      SemQ 0 := node (TaskL 5) (TaskL 6), TaskL 5 := node (TaskL 6) (SemQ 0),
      TaskL 6 := node (SemQ 0) (TaskL 5))"

definition sample_tasks :: "nat \<Rightarrow> task_struct" where
  "sample_tasks = (\<lambda>t. task1_struct\<lparr>PID := - 1\<rparr>)
     (13 := task1_struct, 14 := idle_struct,
      1 := task1_struct\<lparr>PID := 2, estado := ST_READY, quantum := 3\<rparr>,
      2 := task1_struct\<lparr>PID := 3, estado := ST_READY, quantum := 5\<rparr>,
      5 := task1_struct\<lparr>PID := 4, estado := ST_BLOCKED, kernel_esp := SwitchFrame K_sem_wait\<rparr>,
      6 := task1_struct\<lparr>PID := 5, estado := ST_BLOCKED, kernel_esp := SwitchFrame K_sem_wait\<rparr>)"

definition sample_sems :: "nat \<Rightarrow> semaphore" where
  "sample_sems = (\<lambda>_. \<lparr>sem_state = FREE_SEM, n_sem = 0, owner = 0, counter = 0\<rparr>)
     (0 := \<lparr>sem_state = USED_SEM, n_sem = 7, owner = 1, counter = 0\<rparr>)"

definition sample_memory :: "tables \<times> frames" where
  "sample_memory = set_user_pages 1024 (init_table_pages (\<lambda>_. 0)) (init_frames (\<lambda>_. 0))"

definition sample :: kstate where
  "sample = (reset_state 0x20000 (\<lambda>_. 0) (\<lambda>_. 0))\<lparr>cur := 13, tasks := sample_tasks, links := sample_links,
     semaphores := sample_sems, refs_DIR := (\<lambda>_. 0)(0 := 2, 1 := 2),
     dir_pages := init_dir_pages 0x20000 (\<lambda>_. 0), pagusr_table := fst sample_memory,
     phys_mem := snd sample_memory, cr3 := Some 1, tss_esp0 := 13, msr_esp := 13, qLeft := 4,
     idle_task := Some 14, incrementalPID := 6\<rparr>"

lemma sample_fields [simp]:
  "cur sample = 13" "tasks sample = sample_tasks" "links sample = sample_links"
  "semaphores sample = sample_sems" "refs_DIR sample = (\<lambda>_. 0)(0 := 2, 1 := 2)"
  "pagusr_addr sample = 0x20000" "dir_pages sample = init_dir_pages 0x20000 (\<lambda>_. 0)"
  "pagusr_table sample = fst sample_memory" "phys_mem sample = snd sample_memory" "cr3 sample = Some 1"
  "qLeft sample = 4" "idle_task sample = Some 14" "incrementalPID sample = 6"
  "memory sample = (\<lambda>_. 0)" "keyboardBuff sample = cirBuffer_zero" "con sample = console_init"
  by (simp_all add: sample_def reset_state_def)

lemma task1_struct_fields [simp]:
  "PID task1_struct = 1" "dir_pages_baseAddr task1_struct = Some 1" "n_directorio task1_struct = 1"
  "quantum task1_struct = 15" "estado task1_struct = ST_RUN" "sem_ret task1_struct = 0"
  "kernel_esp task1_struct = StackIx 0" "processBreak task1_struct = of_nat HEAP_START"
  by (simp_all add: task1_struct_def zero_task_def)

lemma idle_struct_fields [simp]:
  "PID idle_struct = 0" "quantum idle_struct = 15" "estado idle_struct = ST_RUN"
  by (simp_all add: idle_struct_def zero_task_def)

lemma sample_tasks_simps [simp]:
  "sample_tasks 13 = task1_struct" "sample_tasks 14 = idle_struct"
  "sample_tasks (Suc 0) = task1_struct\<lparr>PID := 2, estado := ST_READY, quantum := 3\<rparr>"
  "sample_tasks 1 = task1_struct\<lparr>PID := 2, estado := ST_READY, quantum := 3\<rparr>"
  "sample_tasks 2 = task1_struct\<lparr>PID := 3, estado := ST_READY, quantum := 5\<rparr>"
  "sample_tasks 5 = task1_struct\<lparr>PID := 4, estado := ST_BLOCKED, kernel_esp := SwitchFrame K_sem_wait\<rparr>"
  "sample_tasks 6 = task1_struct\<lparr>PID := 5, estado := ST_BLOCKED, kernel_esp := SwitchFrame K_sem_wait\<rparr>"
  by (simp_all add: sample_tasks_def)

lemma sample_queues_simps [simp]:
  "sample_queues FreeQ = [3, 4]" "sample_queues ReadyQ = [1, 2]" "sample_queues KeyQ = []"
  "sample_queues (SemQ 0) = [5, 6]"
  by (simp_all add: sample_queues_def)

lemma sample_sems_simps [simp]:
  "sample_sems 0 = \<lparr>sem_state = USED_SEM, n_sem = 7, owner = 1, counter = 0\<rparr>"
  "i \<noteq> 0 \<Longrightarrow> sample_sems i = \<lparr>sem_state = FREE_SEM, n_sem = 0, owner = 0, counter = 0\<rparr>"
  by (simp_all add: sample_sems_def)

lemma sample_heads: "heads sample = {FreeQ, ReadyQ, KeyQ, SemQ 0}"
  by (auto simp: heads_def sample_sems_def split: if_splits)

lemma sample_kinv: "kinv sample sample_queues"
proof -
  have "lq.family sample_links (tlists sample_queues) {FreeQ, ReadyQ, KeyQ, SemQ 0}"
    by (simp add: lq.family_def queue_repr_def tlists_def sample_links_def node_def)
  then show ?thesis
    unfolding kinv_def qinv_def run_inv_def idle_inv_def in_queue_def sample_heads
    by (simp add: qstate_def)
qed

lemma sample_find_sem: "find_sem sample n = (if n = 7 then Some 0 else None)"
proof (cases "n = 7")
  case True
  then show ?thesis by (simp add: find_sem_def upt_rec)
next
  case False
  then have "find_sem sample n = None" by (auto simp: find_sem_None sample_sems_def)
  then show ?thesis using False by simp
qed

lemma sample_find_free: "find_free sample = Some 1"
  by (simp add: find_free_def upt_rec)

lemma sample_sem_inv: "sem_inv sample sample_queues"
  by (auto simp: sem_inv_def sem_unique_def sem_waiting_def sample_sems_def int_range_def)

lemma sample_quanta_ok: "quanta_ok sample sample_queues"
  by (auto simp: quanta_ok_def active_def sample_heads)

lemma sample_table_addr: "table_addr_ok 0x20000"
  by (simp add: table_addr_ok_def)

lemma sample_pages:
  "\<forall>i<20. pte_present (fst sample_memory (1 * 1024 + (264 + i))) \<and> data_frame (fst sample_memory) 1 i < 1024 \<and>
      data_frame (fst sample_memory) 1 i \<notin> free_frames (snd sample_memory)"
  "\<forall>i<20. data_frame (fst sample_memory) 1 i \<in> frame_pool \<and>
     (\<forall>j<20. data_frame (fst sample_memory) 1 i = data_frame (fst sample_memory) 1 j \<longrightarrow> i = j)"
  "\<forall>k. k < 1280 \<or> 1308 \<le> k \<longrightarrow> fst sample_memory k = (if k div 1024 < 15 then kernel_entry (k mod 1024) else 0)"
  "card (free_frames (snd sample_memory)) = 356"
  using boot_page_table [of "fst sample_memory" "snd sample_memory"] by (simp_all add: sample_memory_def)

lemma sample_aspace: "aspace_ok 1 sample"
  using sample_pages(1) by (simp add: aspace_ok_def sample_table_addr init_dir_pages_apply)

lemma sample_PT: "PT_of sample 13 = Some 1024"
  using PT_of_dir [of sample 1 13] by (simp add: sample_table_addr init_dir_pages_apply)

lemma sample_frames: "\<exists>fl pm. fa.take_frames 20 (phys_mem sample) = (Some fl, pm)"
  using fa.take_frames_enough [of "phys_mem sample" 20] sample_pages(4) by (simp add: finite_free_frames)
lemma sample_kmmu: "kmmu sample = mmu_walk 0x20000 (init_dir_pages 0x20000 (\<lambda>_. 0)) (fst sample_memory) 1"
  by (simp add: kmmu_def fun_eq_iff)

text \<open>The addresses of the data pages and of the kernel pages in the address space of task 13.\<close>

lemma sample_user_byte:
  assumes "i < 20" "k < 4096"
  shows "kmmu sample (of_nat ((264 + i) * 4096 + k)) = Some (faddr (data_frame (fst sample_memory) 1 i) k)"
  unfolding sample_kmmu using assms sample_pages(1)
  by (intro mmu_walk_page) (simp_all add: sample_table_addr init_dir_pages_apply data_frame_def)

lemma sample_kernel_byte:
  assumes "1 \<le> p" "p < 256" "k < 4096"
  shows "kmmu sample (of_nat (p * 4096 + k)) = Some (faddr p k)"
  unfolding sample_kmmu using assms sample_pages(3)
  by (intro mmu_walk_page) (simp_all add: sample_table_addr init_dir_pages_apply kernel_entry_def
      unat_set_pbase unat_of_nat_u32)

lemma sample_no_key_pages: "no_key_pages (kmmu sample)"
proof -
  have "\<not> pte_present (fst sample_memory (1 * 1024))"
    using sample_pages(3) by (simp add: kernel_entry_def)
  then show ?thesis unfolding sample_kmmu
    by - (rule no_key_pages_walk; simp add: sample_table_addr init_dir_pages_apply)
qed

lemma sample_write_ok:
  assumes "n \<le> 4096"
  shows "write_ok (kmmu sample) 0x30000 0x108000 n"
proof -
  have u: "kmmu sample (0x108000 + of_nat i) = Some (faddr (data_frame (fst sample_memory) 1 0) i)" if "i < 4096" for i
    using sample_user_byte [of 0 i] that by simp
  have k: "kmmu sample (0x30000 + of_nat i) = Some (faddr 48 i)" if "i < 4096" for i
    using sample_kernel_byte [of 48 i] that by simp
  have f: "256 \<le> data_frame (fst sample_memory) 1 0" "data_frame (fst sample_memory) 1 0 < 1024"
    using sample_pages(2) by (auto simp: frame_pool_def)
  have d: "faddr (data_frame (fst sample_memory) (Suc 0) 0) i \<noteq> faddr 48 j" if "i < 4096" "j < 4096" for i j
    using faddr_inj [of _ 48 i j] that f by fastforce
  have e: "faddr 48 i = faddr 48 j \<longleftrightarrow> i = j" if "i < 4096" "j < 4096" for i j
    using faddr_inj [of 48 48 i j] that by auto
  show ?thesis unfolding write_ok_def pa_def using assms by (simp add: u k d e)
qed

end
