(* ===== verification/Invariants.thy ===== *)
theory Invariants
  imports Process IOCalls Sbrk
begin

text \<open>
  Every routine of the kernel that returns or switches keeps the invariants of the scheduler and of
  the semaphores (\<open>keeps\<close>): the clock and keyboard interrupts, reading and writing. Two states that
  agree on the fields these invariants read are \<open>same_view\<close>; a call that touches memory, keyboard
  buffer and screen only is \<open>io_only\<close>.
\<close>

section \<open>States the scheduler sees alike\<close>

text \<open>The fields the scheduler and semaphore invariants read.\<close>

definition same_view :: "kstate \<Rightarrow> kstate \<Rightarrow> bool" where
  "same_view s s' \<longleftrightarrow> cur s' = cur s \<and> links s' = links s \<and> semaphores s' = semaphores s \<and>
     idle_task s' = idle_task s \<and> qLeft s' = qLeft s \<and>
     (\<forall>t. estado (tasks s' t) = estado (tasks s t) \<and> sem_ret (tasks s' t) = sem_ret (tasks s t) \<and>
        kernel_esp (tasks s' t) = kernel_esp (tasks s t) \<and> quantum (tasks s' t) = quantum (tasks s t))"

lemma same_view_refl: "same_view s s"
  by (simp add: same_view_def)

lemma same_view_trans: "same_view s s' \<Longrightarrow> same_view s' s'' \<Longrightarrow> same_view s s''"
  by (simp add: same_view_def)

lemma same_view_invs:
  assumes v: "same_view s s'"
  shows "kinv s' Q = kinv s Q" "sem_inv s' Q = sem_inv s Q" "quanta_ok s' Q = quanta_ok s Q"
    "active s' Q = active s Q"
proof -
  have h: "heads s' = heads s" using v by (intro heads_cong) (simp add: same_view_def)
  show "kinv s' Q = kinv s Q" using v by (intro kinv_cong) (simp_all add: same_view_def)
  show a: "active s' Q = active s Q" using v unfolding active_def h by (simp add: same_view_def)
  show "quanta_ok s' Q = quanta_ok s Q" using v unfolding quanta_ok_def a by (simp add: same_view_def)
  show "sem_inv s' Q = sem_inv s Q"
    using v by (simp add: sem_inv_def sem_unique_def sem_waiting_def same_view_def)
qed

lemma same_view_keeps:
  assumes "same_view s s'" "kinv s Q" "sem_inv s Q" "quanta_ok s Q"
  shows "keeps s Q s'"
  using assms same_view_invs [OF assms(1)] unfolding keeps_def
  by (intro exI [of _ Q]) (simp add: same_view_def)

lemma keeps_after_view:
  assumes "same_view s s1" "keeps s1 Q s'"
  shows "keeps s Q s'"
  using assms same_view_invs [OF assms(1)] by (simp add: keeps_def same_view_def)

lemma same_view_stats: "stats_only s s' \<Longrightarrow> same_view s s'"
  by (simp add: same_view_def stats_only_fields)

section \<open>Every operation keeps the invariants\<close>

lemma clock_rutine_keeps:
  assumes "kinv s Q" "sem_inv s Q" "quanta_ok s Q"
  shows "\<exists>s'. clock_rutine draw s = Some s' \<and> keeps s Q s'"
proof -
  let ?s = "s\<lparr>con := draw (con s), zeos_ticks := i32 (zeos_ticks s + 1)\<rparr>"
  have v: "same_view s ?s" by (simp add: same_view_def)
  have "clock_rutine draw s = schedule ?s" by (simp add: clock_rutine_def Let_def)
  then show ?thesis
    using schedule_keeps [of ?s Q] same_view_invs [OF v] keeps_after_view [OF v] assms by auto
qed

lemma keyboard_rutine_keeps:
  assumes k: "kinv s Q" and v: "sem_inv s Q" and q: "quanta_ok s Q" and b: "buf_wf (keyboardBuff s)"
    and e: "bit e 7 \<or> unat e < length char_map"
  shows "\<exists>s'. keyboard_rutine e s = Some s' \<and> keeps s Q s'"
proof (cases "bit e 7")
  case True
  then show ?thesis using keyboard_rutine_break keeps_refl [OF k v q] by blast
next
  case False
  then have el: "unat e < length char_map" using e by simp
  obtain b' where b': "cirBuffWrite (keyboardBuff s) (char_map ! unat e) = Some b'"
    using cirBuffWrite_refines [OF b] by blast
  let ?Q = "if Q KeyQ \<noteq> [] \<and> keys_ready s b' (hd (Q KeyQ)) then wake KeyQ Q else Q"
  obtain s' where s': "keyboard_rutine e s = Some s'" "kinv s' ?Q" "cur s' = cur s"
    "semaphores s' = semaphores s" "idle_task s' = idle_task s" "qLeft s' = qLeft s"
    "\<forall>u. sem_ret (tasks s' u) = sem_ret (tasks s u) \<and> kernel_esp (tasks s' u) = kernel_esp (tasks s u) \<and>
       quantum (tasks s' u) = quantum (tasks s u)"
    using keyboard_rutine_make [OF k el b'] by blast
  have h: "heads s' = heads s" using s'(4) by (rule heads_cong)
  have "sem_inv s' ?Q" using s'(4,7) by (intro sem_inv_cong [OF v]) (simp_all add: wake_def)
  moreover have "active s' ?Q \<subseteq> active s Q"
  proof (cases "Q KeyQ \<noteq> [] \<and> keys_ready s b' (hd (Q KeyQ))")
    case True
    then show ?thesis using active_wake [OF h s'(5,3), of KeyQ Q] by (cases "Q KeyQ") auto
  next
    case False
    then have Q: "?Q = Q" by (rule if_not_P)
    show ?thesis unfolding Q active_def h s'(3,5) ..
  qed
  ultimately have "keeps s Q s'"
    using s'(2,5,6,7) q by (intro keepsI [of _ ?Q]) (auto simp: wake_def quanta_ok_def)
  then show ?thesis using s'(1) by blast
qed

text \<open>Giving up the processor to wait for keys, at either end of the queue.\<close>

lemma block_keeps:
  assumes k: "kinv s Q" and v: "sem_inv s Q" and q: "quanta_ok s Q"
    and k': "kinv s' (pop_ready Q1)" and Q1: "Q1 = Q(KeyQ := ks)" "set ks = insert (cur s) (set (Q KeyQ))"
    and f: "sched_frame s s'" "cur s' = next_task s Q"
    and l: "qLeft s' = (if Q ReadyQ = [] then qLeft s else quantum (tasks s (cur s)))"
    and e: "\<forall>u. u \<noteq> cur s \<longrightarrow> kernel_esp (tasks s' u) = kernel_esp (tasks s u)"
  shows "keeps s Q s'"
proof -
  have "sem_inv s' (pop_ready Q1)"
    using e by (intro sem_inv_reschedule [OF k v f(1)]) (simp_all add: pop_ready_def Q1(1))
  moreover have "active s' (pop_ready Q1) \<subseteq> active s Q"
  proof -
    have h: "heads s' = heads s" "idle_task s' = idle_task s"
      using f(1) heads_cong [of s' s] by (simp_all add: sched_frame_def)
    have sub: "set (Q1 r) \<subseteq> active s Q" if "r \<in> heads s" "r \<noteq> FreeQ" for r
      using that Q1(2) unfolding Q1(1) active_def by auto
    have "set (pop_ready Q1 r) \<subseteq> active s Q" if "r \<in> heads s" "r \<noteq> FreeQ" for r
      using sub [OF that] set_tl_subset [of "Q1 ReadyQ"] by (cases "r = ReadyQ") (auto simp: pop_ready_def)
    moreover have "cur s' \<in> active s Q"
    proof (cases "Q ReadyQ")
      case Nil
      then show ?thesis using f(2) kinv_idle_Some [OF k] by (auto simp: next_task_def active_def)
    next
      case (Cons t ts)
      then have "cur s' \<in> set (Q ReadyQ)" using f(2) by (simp add: next_task_def)
      then show ?thesis unfolding active_def using heads_basic(2) by blast
    qed
    moreover have "set_option (idle_task s) \<subseteq> active s Q" by (auto simp: active_def)
    ultimately show ?thesis unfolding active_def [of s'] h by blast
  qed
  moreover have "pop_ready Q1 FreeQ = Q FreeQ" by (simp add: pop_ready_def Q1(1))
  ultimately show ?thesis
    using k' f(1) l q quanta_cur [OF q] by (intro keepsI [of _ "pop_ready Q1"]) (auto simp: sched_frame_def quanta_ok_def)
qed

lemma block_on_keyboard_keeps:
  assumes "kinv s Q" "sem_inv s Q" "quanta_ok s Q" "idle_task s \<noteq> Some (cur s)"
  shows "\<exists>out s'. block_on_keyboard buff s = Some (out, s') \<and> keeps s Q s'"
proof -
  obtain s' where s': "block_on_keyboard buff s = Some (Switched, s')"
    "kinv s' (pop_ready (Q(KeyQ := cur s # Q KeyQ)))" "sched_frame s s'" "cur s' = next_task s Q"
    "qLeft s' = (if Q ReadyQ = [] then qLeft s else quantum (tasks s (cur s)))"
    "\<forall>u. kernel_esp (tasks s' u) = (if u = cur s then SwitchFrame (K_read buff) else kernel_esp (tasks s u))"
    using block_front [OF assms(1,4), of buff] by blast
  have "keeps s Q s'" by (rule block_keeps [OF assms(1-3) s'(2) refl _ s'(3-5)]) (simp_all add: s'(6))
  then show ?thesis using s'(1) by blast
qed

text \<open>Reading keys that are there touches the buffer and the memory only.\<close>

definition io_only :: "kstate \<Rightarrow> kstate \<Rightarrow> bool" where
  "io_only s s' \<longleftrightarrow> (\<exists>m b c. s' = s\<lparr>memory := m, keyboardBuff := b, con := c\<rparr>)"

lemma io_only_view: "io_only s s' \<Longrightarrow> same_view s s'"
  by (auto simp: io_only_def same_view_def)

lemma io_onlyI: "s' = s\<lparr>memory := m, keyboardBuff := b, con := c\<rparr> \<Longrightarrow> io_only s s'"
  unfolding io_only_def by blast

lemma io_only_simps [simp]:
  "io_only s s" "io_only s (s\<lparr>memory := m\<rparr>)" "io_only s (s\<lparr>memory := m, con := c\<rparr>)"
  by (rule io_onlyI [where m = "memory s" and b = "keyboardBuff s" and c = "con s"], simp)
    (rule io_onlyI [where m = m and b = "keyboardBuff s" and c = "con s"], simp,
     rule io_onlyI [where m = m and b = "keyboardBuff s" and c = c], simp)

lemma io_only_trans:
  assumes "io_only s s'" "io_only s' s''"
  shows "io_only s s''"
proof -
  obtain m b c m' b' c' where "s' = s\<lparr>memory := m, keyboardBuff := b, con := c\<rparr>"
    "s'' = s'\<lparr>memory := m', keyboardBuff := b', con := c'\<rparr>" using assms unfolding io_only_def by blast
  then have "s'' = s\<lparr>memory := m', keyboardBuff := b', con := c'\<rparr>" by simp
  then show ?thesis unfolding io_only_def by blast
qed

lemma read_keys_io: "read_keys n buff s = Some (b, s') \<Longrightarrow> io_only s s'"
proof (induction n arbitrary: buff s)
  case 0
  then show ?case by simp
next
  case (Suc n)
  then obtain c kb m x where "read_keys n (buff + 1) (s\<lparr>keyboardBuff := kb, memory := m\<rparr>) = Some (b, s')"
    by (auto simp: bind_eq_Some_iff Let_def)
  from Suc.IH [OF this] have "io_only (s\<lparr>keyboardBuff := kb, memory := m\<rparr>) s'" .
  then show ?case by (auto simp: io_only_def)
qed


lemma read_keyboard_body_keeps:
  assumes i: "kinv s Q" "sem_inv s Q" "quanta_ok s Q" and ni: "idle_task s \<noteq> Some (cur s)"
    and r: "read_keyboard_body buff s = Some (out, s')"
  shows "keeps s Q s'"
proof -
  have block: "keeps s Q s'" if w: "same_view s s1" and b: "block_on_keyboard buf s1 = Some (out, s')" for s1 buf
  proof -
    have "kinv s1 Q" "sem_inv s1 Q" "quanta_ok s1 Q" "idle_task s1 \<noteq> Some (cur s1)"
      using i ni same_view_invs [OF w] w by (simp_all add: same_view_def)
    then have "keeps s1 Q s'" using block_on_keyboard_keeps [of s1 Q buf] b by auto
    then show ?thesis by (rule keeps_after_view [OF w])
  qed
  have rk: "same_view s (upd_task (cur s1) (readKeys_update f) s1)" if "read_keys n buff s = Some (b, s1)" for n b s1 f
    using io_only_view [OF read_keys_io [OF that]] by (simp add: same_view_def)
  consider n b s1 f where "read_keys n buff s = Some (b, s1)" "s' = upd_task (cur s1) (readKeys_update f) s1"
    | n b s1 f where "read_keys n buff s = Some (b, s1)"
        "block_on_keyboard b (upd_task (cur s1) (readKeys_update f) s1) = Some (out, s')"
    | "block_on_keyboard buff s = Some (out, s')"
    using r unfolding read_keyboard_body_def Let_def by (auto simp: bind_eq_Some_iff split: if_splits)
  then show ?thesis
  proof cases
    case 1
    then show ?thesis using same_view_keeps [OF rk [OF 1(1)] i] by simp
  next
    case 2
    then show ?thesis using block [OF rk [OF 2(1)]] by simp
  next
    case 3
    then show ?thesis by (rule block [OF same_view_refl])
  qed
qed

lemma sys_read_keyboard_keeps:
  assumes i: "kinv s Q" "sem_inv s Q" "quanta_ok s Q" and ni: "idle_task s \<noteq> Some (cur s)"
    and r: "sys_read_keyboard buff n s = Some (out, s')"
  shows "keeps s Q s'"
proof -
  let ?s = "upd_task (cur s) (requiredKeys_update (\<lambda>_. n)) (upd_task (cur s) (readKeys_update (\<lambda>_. 0)) s)"
  have w: "same_view s ?s" by (simp add: same_view_def)
  have i': "kinv ?s Q" "sem_inv ?s Q" "quanta_ok ?s Q" "idle_task ?s \<noteq> Some (cur ?s)"
    using i ni same_view_invs [OF w] by simp_all
  show ?thesis
  proof (cases "list_empty (links ?s) KeyQ")
    case True
    then have "read_keyboard_body buff ?s = Some (out, s')" using r by (simp add: sys_read_keyboard_def Let_def)
    then show ?thesis using keeps_after_view [OF w] read_keyboard_body_keeps [OF i'] by blast
  next
    case False
    let ?Q = "Q(KeyQ := Q KeyQ @ [cur ?s])"
    have k: "qinv ?s Q" "run_inv ?s Q" "idle_inv ?s Q" using i'(1) by (simp_all add: kinv_def)
    obtain h where h: "update_process_state_rr (cur ?s) (Some KeyQ) ?s = Some (requeued (cur ?s) h (qstate KeyQ) ?s)"
      "qinv (requeued (cur ?s) h (qstate KeyQ) ?s) ?Q"
      using enqueue_running [OF k(1), of KeyQ "cur ?s"] k(2) by (auto simp: run_inv_def)
    let ?s3 = "requeued (cur ?s) h (qstate KeyQ) ?s"
    have "idle_inv ?s3 ?Q" using k(3) i'(4) by (auto simp: idle_inv_def)
    from sched_next_kinv [OF h(2) this, of "K_read buff"] obtain s4 where
      s4: "sched_next_rr (K_read buff) ?s3 = Some s4" "kinv s4 (pop_ready ?Q)" "sched_frame ?s3 s4"
      "cur s4 = next_task ?s3 ?Q" "qLeft s4 = (if ?Q ReadyQ = [] then qLeft ?s3 else quantum (tasks ?s3 (cur ?s3)))"
      "\<forall>u. kernel_esp (tasks s4 u) = (if u = cur ?s3 then SwitchFrame (K_read buff) else kernel_esp (tasks ?s3 u))"
      by blast
    have "s' = s4" using r h(1) s4(1) False by (simp add: sys_read_keyboard_def Let_def)
    moreover have "keeps ?s Q s4"
      by (rule block_keeps [OF i'(1-3) s4(2) refl _ sched_frame_trans [OF sched_frame_requeued s4(3)]])
        (use s4(4-6) in \<open>auto simp: next_task_def\<close>)
    ultimately show ?thesis using keeps_after_view [OF w] by simp
  qed
qed

lemma sys_read_keeps:
  assumes "kinv s Q" "sem_inv s Q" "quanta_ok s Q" "idle_task s \<noteq> Some (cur s)"
    and "sys_read fd buf n s = Some (out, s')"
  shows "keeps s Q s'"
  using assms(5) keeps_refl [OF assms(1-3)] sys_read_keyboard_keeps [OF assms(1-4)]
  unfolding sys_read_def by (auto split: if_splits)

lemma sys_write_io: "sys_write kbuf fd ubuf n s = Some (r, s') \<Longrightarrow> io_only s s'"
  unfolding sys_write_def by (auto simp: bind_eq_Some_iff split: if_splits)

lemma sys_get_stats_io: "sys_get_stats pid st s = Some (r, s') \<Longrightarrow> io_only s s'"
  unfolding sys_get_stats_def by (auto simp: bind_eq_Some_iff split: if_splits option.splits)

end
