(* ===== verification/MemFrame.thy ===== *)
theory MemFrame
  imports Invariants
begin

text \<open>
  Which operations leave the address spaces alone. \<open>mem_step s s'\<close> says that the page tables, the
  frame allocator, the kernel stacks, the process numbers and the directories of the processes are
  the same in \<open>s'\<close>, and that the running process runs in its own address space if it did before.
  The collection \<open>mem_steps\<close> holds the fact for each operation, from the field updates up to the
  system calls; a context switch is the one place where \<open>cr3\<close> changes.
\<close>

section \<open>Steps that leave the address spaces alone\<close>

definition mem_frame :: "kstate \<Rightarrow> kstate \<Rightarrow> bool" where
  "mem_frame s s' \<longleftrightarrow> kstack s' = kstack s \<and> dir_pages s' = dir_pages s \<and> pagusr_table s' = pagusr_table s \<and>
     pagusr_addr s' = pagusr_addr s \<and> refs_DIR s' = refs_DIR s \<and> phys_mem s' = phys_mem s \<and>
     incrementalPID s' = incrementalPID s \<and>
     (\<forall>t. PID (tasks s' t) = PID (tasks s t) \<and> dir_pages_baseAddr (tasks s' t) = dir_pages_baseAddr (tasks s t) \<and>
        n_directorio (tasks s' t) = n_directorio (tasks s t) \<and>
        processBreak (tasks s' t) = processBreak (tasks s t))"

text \<open>
  The running process runs in its own address space, and an entry to the kernel, by either way, uses
  its kernel stack.
\<close>

definition own_space :: "kstate \<Rightarrow> bool" where
  "own_space s \<longleftrightarrow> cr3 s = dir_pages_baseAddr (tasks s (cur s)) \<and> tss_esp0 s = cur s \<and> msr_esp s = cur s"

definition mem_step :: "kstate \<Rightarrow> kstate \<Rightarrow> bool" where
  "mem_step s s' \<longleftrightarrow> mem_frame s s' \<and> (own_space s \<longrightarrow> own_space s')"

lemma mem_step_trans [trans]: "mem_step s s' \<Longrightarrow> mem_step s' s'' \<Longrightarrow> mem_step s s''"
  by (simp add: mem_step_def mem_frame_def)

lemma mem_step_refl: "mem_step s s"
  by (simp add: mem_step_def mem_frame_def)

lemma mem_step_same_space:
  "mem_frame s s' \<Longrightarrow> cur s' = cur s \<Longrightarrow> cr3 s' = cr3 s \<Longrightarrow> tss_esp0 s' = tss_esp0 s \<Longrightarrow> msr_esp s' = msr_esp s \<Longrightarrow>
    mem_step s s'"
  by (simp add: mem_step_def mem_frame_def own_space_def)

named_theorems mem_steps

lemma mem_step_updates [mem_steps]:
  "mem_step s (s\<lparr>links := h\<rparr>)" "mem_step s (s\<lparr>qLeft := l\<rparr>)" "mem_step s (s\<lparr>con := c\<rparr>)"
  "mem_step s (s\<lparr>keyboardBuff := b\<rparr>)" "mem_step s (s\<lparr>memory := m\<rparr>)" "mem_step s (s\<lparr>zeos_ticks := z\<rparr>)"
  "mem_step s (s\<lparr>con := c, zeos_ticks := z\<rparr>)"
  "mem_step s (upd_sem i f s)" "mem_step s (upd_task t (estado_update e) s)"
  "mem_step s (upd_task t (sem_ret_update r) s)" "mem_step s (upd_task t (readKeys_update k) s)"
  "mem_step s (upd_task t (requiredKeys_update k) s)" "mem_step s (upd_stats t g s)"
  by (rule mem_step_same_space; simp add: mem_frame_def upd_sem_def upd_task_def upd_stats_def)+

lemma mem_step_stats [mem_steps]: "stats_only s s' \<Longrightarrow> mem_step s s'"
  by (rule mem_step_same_space) (auto simp: mem_frame_def stats_only_def)

lemma mem_step_charge [mem_steps]: "charge f t s = Some s' \<Longrightarrow> mem_step s s'"
  using charge_Some [of f t s] mem_step_stats by fastforce

lemma mem_step_io [mem_steps]: "io_only s s' \<Longrightarrow> mem_step s s'"
  by (rule mem_step_same_space) (auto simp: mem_frame_def io_only_def)

lemma process_state_shape:
  assumes "update_process_state_rr t q s = Some s'"
  obtains h e where "s' = upd_task t (estado_update (\<lambda>_. e)) (s\<lparr>links := h\<rparr>)"
proof (cases q)
  case None
  obtain h where "s' = upd_task t (estado_update (\<lambda>_. ST_RUN)) (s\<lparr>links := h\<rparr>)"
    using assms by (auto simp: update_process_state_rr_def bind_eq_Some_iff Let_def None)
  then show ?thesis by (rule that)
next
  case (Some r)
  obtain h1 h2 where "s' = (if r = ReadyQ then upd_task t (estado_update (\<lambda>_. ST_READY)) (s\<lparr>links := h1, links := h2\<rparr>)
      else upd_task t (estado_update (\<lambda>_. ST_BLOCKED)) (s\<lparr>links := h1, links := h2\<rparr>))"
    using assms by (auto simp: update_process_state_rr_def bind_eq_Some_iff Let_def Some)
  then have "s' = upd_task t (estado_update (\<lambda>_. if r = ReadyQ then ST_READY else ST_BLOCKED)) (s\<lparr>links := h2\<rparr>)"
    by simp
  then show ?thesis by (rule that)
qed

lemma mem_step_process_state [mem_steps]:
  assumes "update_process_state_rr t q s = Some s'"
  shows "mem_step s s'"
  using process_state_shape [OF assms] mem_step_trans [OF mem_step_updates(1) mem_step_updates(9)] by metis

lemma process_state_cur: "update_process_state_rr t q s = Some s' \<Longrightarrow> cur s' = cur s"
  by (erule process_state_shape) (simp add: upd_task_def)

text \<open>A context switch loads the address space of the process it goes to.\<close>

lemma mem_step_switch: "mem_step s (task_switch k t s)"
  by (simp add: mem_step_def mem_frame_def own_space_def task_switch_def inner_task_switch_def get_DIR_def
      upd_task_def)

lemma mem_step_sched_next [mem_steps]:
  assumes "sched_next_rr k s = Some s'"
  shows "mem_step s s'"
proof (cases "list_empty (links s) ReadyQ")
  case True
  then show ?thesis using assms mem_step_switch by (auto simp: sched_next_rr_def bind_eq_Some_iff)
next
  case False
  then obtain t q s2 s3 s5 where "charge system_ticks_update t (s\<lparr>qLeft := q\<rparr>) = Some s2"
      "charge ready_ticks_update t s2 = Some s3"
      "update_process_state_rr t None (upd_stats t (total_trans_update (\<lambda>v. v + 1)) s3) = Some s5"
      "s' = task_switch k t s5"
    using assms by (auto simp: sched_next_rr_def bind_eq_Some_iff Let_def)
  note step = this
  have "mem_step s s2" by (rule mem_step_trans [OF mem_step_updates(2) mem_step_charge [OF step(1)]])
  also note mem_step_charge [OF step(2)]
  also note mem_step_updates(13)
  also note mem_step_process_state [OF step(3)]
  also note mem_step_switch
  finally show ?thesis by (simp add: step(4))
qed

lemma mem_step_exitRunCurrent [mem_steps]: "exitRunCurrent q s = Some s' \<Longrightarrow> mem_step s s'"
  unfolding exitRunCurrent_def bind_eq_Some_iff
  using mem_step_trans [OF mem_step_charge mem_step_process_state] by blast

lemma mem_step_schedule [mem_steps]:
  assumes "schedule s = Some s'"
  shows "mem_step s s'"
proof -
  obtain r s2 where n: "needs_sched_rr (update_sched_data_rr s) = (r, s2)" by fastforce
  have "mem_step s (update_sched_data_rr s)" unfolding update_sched_data_rr_def by (rule mem_steps)
  moreover have "mem_step (update_sched_data_rr s) s2"
    using n mem_step_trans [OF mem_step_updates(13) mem_step_updates(2)] mem_step_refl
    by (auto simp: needs_sched_rr_def Let_def split: if_splits)
  moreover have "mem_step s2 s'"
    using assms n mem_step_refl mem_step_trans mem_step_exitRunCurrent mem_step_sched_next
    by (fastforce simp: schedule_def bind_eq_Some_iff split: if_splits)
  ultimately show ?thesis using mem_step_trans by blast
qed


section \<open>System calls and interrupts that leave the address spaces alone\<close>

lemma mem_step_unblock_all:
  assumes "unblock_all i s = Some s'"
  shows "mem_step s s'"
proof (rule unblock_all.raw_induct [where P = "\<lambda>_ s s'. mem_step s s'", OF _ assms])
  fix rec i s r
  assume 1: "\<And>i s s'. rec i s = Some s' \<Longrightarrow> mem_step s s'"
    "(if \<not> list_empty (links s) (SemQ i) then
        do {
          l \<leftarrow> list_first (links s) (SemQ i);
          t \<leftarrow> list_head_to_task_struct l;
          let s1 = upd_task t (sem_ret_update (\<lambda>_. - 1)) s;
          s2 \<leftarrow> update_process_state_rr t (Some ReadyQ) s1;
          rec i s2
        }
      else Some s) = Some r"
  show "mem_step s r"
  proof (cases "list_empty (links s) (SemQ i)")
    case True
    then show ?thesis using 1(2) mem_step_refl by simp
  next
    case False
    then obtain t s2 where u: "update_process_state_rr t (Some ReadyQ) (upd_task t (sem_ret_update (\<lambda>_. - 1)) s) = Some s2"
      "rec i s2 = Some r"
      using 1(2) by (auto simp: bind_eq_Some_iff Let_def)
    have "mem_step s (upd_task t (sem_ret_update (\<lambda>_. - 1)) s)" by (rule mem_step_updates)
    also note mem_step_process_state [OF u(1)]
    finally have "mem_step s s2" .
    moreover have "mem_step s2 r" by (rule 1(1)) (rule u(2))
    ultimately show ?thesis by (rule mem_step_trans)
  qed
qed

lemma mem_step_sem_signal [mem_steps]: "sys_sem_signal n s = Some (r, s') \<Longrightarrow> mem_step s s'"
  unfolding sys_sem_signal_def Let_def
  by (auto simp: bind_eq_Some_iff split: if_splits intro: mem_steps mem_step_refl)

lemma mem_step_sem_wait [mem_steps]:
  assumes "sys_sem_wait n s = Some (r, s')"
  shows "mem_step s s'"
proof -
  let ?s = "upd_task (cur s) (sem_ret_update (\<lambda>_. 0)) s"
  have s: "mem_step s ?s" by (rule mem_step_updates)
  consider "s' = s" | s2 q where "exitRunCurrent q ?s = Some s2" "sched_next_rr K_sem_wait s2 = Some s'"
    | i f where "s' = upd_sem i f ?s"
    using assms unfolding sys_sem_wait_def Let_def by (auto simp: bind_eq_Some_iff split: if_splits)
  then show ?thesis
  proof cases
    case 1
    then show ?thesis by (simp add: mem_step_refl)
  next
    case 2
    note s
    also note mem_step_exitRunCurrent [OF 2(1)]
    also note mem_step_sched_next [OF 2(2)]
    finally show ?thesis .
  next
    case 3
    then show ?thesis using mem_step_trans [OF s mem_step_updates(8)] by simp
  qed
qed

lemma mem_step_sem_init [mem_steps]:
  assumes "sys_sem_init n v s = Some (r, s')"
  shows "mem_step s s'"
proof -
  consider "s' = s" | j a b c d h where "s' = (upd_sem j a (upd_sem j b (upd_sem j c (upd_sem j d s))))\<lparr>links := h\<rparr>"
    using assms unfolding sys_sem_init_def Let_def by (auto split: if_splits)
  then show ?thesis
  proof cases
    case 1
    then show ?thesis by (simp add: mem_step_refl)
  next
    case 2
    note mem_step_updates(8) [of s j d]
    also note mem_step_updates(8) [of _ j c]
    also note mem_step_updates(8) [of _ j b]
    also note mem_step_updates(8) [of _ j a]
    also note mem_step_updates(1) [of _ h]
    finally show ?thesis by (simp add: 2)
  qed
qed

lemma mem_step_sem_destroy [mem_steps]:
  assumes "sys_sem_destroy n s = Some (r, s')"
  shows "mem_step s s'"
proof -
  consider "s' = s" | j s1 a b c where "unblock_all j s = Some s1" "s' = upd_sem j a (upd_sem j b (upd_sem j c s1))"
    using assms unfolding sys_sem_destroy_def Let_def by (auto simp: bind_eq_Some_iff split: if_splits)
  then show ?thesis
  proof cases
    case 1
    then show ?thesis by (simp add: mem_step_refl)
  next
    case 2
    note mem_step_unblock_all [OF 2(1)]
    also note mem_step_updates(8) [of _ j c]
    also note mem_step_updates(8) [of _ j b]
    also note mem_step_updates(8) [of _ j a]
    finally show ?thesis by (simp add: 2(2))
  qed
qed

lemma mem_step_clock_rutine [mem_steps]: "clock_rutine draw s = Some s' \<Longrightarrow> mem_step s s'"
  unfolding clock_rutine_def Let_def using mem_step_trans [OF mem_step_updates(3) mem_step_trans [OF mem_step_updates(6) mem_step_schedule]]
  by fastforce

lemma keyboard_rutine_shape:
  assumes "keyboard_rutine e s = Some s'"
  obtains "s' = s" | c b where "s' = s\<lparr>con := c, keyboardBuff := b\<rparr>"
    | c b t where "update_process_state_rr t (Some ReadyQ) (s\<lparr>con := c, keyboardBuff := b\<rparr>) = Some s'"
proof (cases "drop_bit 7 e = 0")
  case False
  then show ?thesis using assms that(1) by (simp add: keyboard_rutine_def)
next
  case True
  obtain c b where k: "(let s2 = s\<lparr>con := c, keyboardBuff := b\<rparr> in
      if \<not> list_empty (links s2) KeyQ then
        do {
          l \<leftarrow> list_first (links s2) KeyQ;
          ts \<leftarrow> list_head_to_task_struct l;
          if cirBuffFull (keyboardBuff s2) \<noteq> 0 \<or>
             cirBuffLenght (keyboardBuff s2) \<ge> i32 (requiredKeys (tasks s2 ts) - readKeys (tasks s2 ts))
          then update_process_state_rr ts (Some ReadyQ) s2 else Some s2
        }
      else Some s2) = Some s'"
    using assms True unfolding keyboard_rutine_def by (auto simp: bind_eq_Some_iff Let_def simp del: if_split_asm)
  have "s' = s\<lparr>con := c, keyboardBuff := b\<rparr> \<or>
      (\<exists>t. update_process_state_rr t (Some ReadyQ) (s\<lparr>con := c, keyboardBuff := b\<rparr>) = Some s')"
    using k unfolding Let_def by (auto simp: bind_eq_Some_iff split: if_splits)
  then show ?thesis using that(2,3) by blast
qed

lemma mem_step_keyboard_rutine [mem_steps]:
  assumes "keyboard_rutine e s = Some s'"
  shows "mem_step s s'"
proof -
  have io: "mem_step s (s\<lparr>con := c, keyboardBuff := b\<rparr>)" for c b
    by (rule mem_step_trans [OF mem_step_updates(3) mem_step_updates(4)])
  from assms show ?thesis
    by (cases rule: keyboard_rutine_shape)
      (use io mem_step_refl mem_step_trans [OF io mem_step_process_state] in simp_all)
qed

lemma keyboard_rutine_cur:
  assumes "keyboard_rutine e s = Some s'"
  shows "cur s' = cur s"
  using assms by (cases rule: keyboard_rutine_shape) (simp_all add: process_state_cur)

lemma mem_step_block_on_keyboard:
  assumes "block_on_keyboard buff s = Some (out, s')"
  shows "mem_step s s'"
proof -
  obtain h where "sched_next_rr (K_read buff) (upd_task (cur s) (estado_update (\<lambda>_. ST_BLOCKED)) (s\<lparr>links := h\<rparr>)) = Some s'"
    using assms by (auto simp: block_on_keyboard_def bind_eq_Some_iff Let_def)
  note s = this
  note mem_step_updates(1) [of s h]
  also note mem_step_updates(9) [of _ "cur s" "\<lambda>_. ST_BLOCKED"]
  also note mem_step_sched_next [OF s]
  finally show ?thesis .
qed

lemma mem_step_read_keyboard_body:
  assumes "read_keyboard_body buff s = Some (out, s')"
  shows "mem_step s s'"
proof -
  have rk: "mem_step s (upd_task (cur s1) (readKeys_update f) s1)" if "read_keys n buff s = Some (b, s1)" for n b s1 f
    by (rule mem_step_trans [OF mem_step_io [OF read_keys_io [OF that]] mem_step_updates(11)])
  consider n b s1 f where "read_keys n buff s = Some (b, s1)" "s' = upd_task (cur s1) (readKeys_update f) s1"
    | n b s1 f where "read_keys n buff s = Some (b, s1)"
        "block_on_keyboard b (upd_task (cur s1) (readKeys_update f) s1) = Some (out, s')"
    | "block_on_keyboard buff s = Some (out, s')"
    using assms unfolding read_keyboard_body_def Let_def by (auto simp: bind_eq_Some_iff split: if_splits)
  then show ?thesis
  proof cases
    case 1
    then show ?thesis using rk [OF 1(1)] by simp
  next
    case 2
    show ?thesis by (rule mem_step_trans [OF rk [OF 2(1)] mem_step_block_on_keyboard [OF 2(2)]])
  next
    case 3
    then show ?thesis by (rule mem_step_block_on_keyboard)
  qed
qed

lemma mem_step_read_keyboard:
  assumes "sys_read_keyboard buff n s = Some (out, s')"
  shows "mem_step s s'"
proof -
  let ?s = "upd_task (cur s) (requiredKeys_update (\<lambda>_. n)) (upd_task (cur s) (readKeys_update (\<lambda>_. 0)) s)"
  have s: "mem_step s ?s" by (rule mem_step_trans [OF mem_step_updates(11) mem_step_updates(12)])
  consider s3 where "update_process_state_rr (cur s) (Some KeyQ) ?s = Some s3" "sched_next_rr (K_read buff) s3 = Some s'"
    | "read_keyboard_body buff ?s = Some (out, s')"
    using assms unfolding sys_read_keyboard_def Let_def by (auto simp: bind_eq_Some_iff split: if_splits)
  then show ?thesis
  proof cases
    case 1
    note s
    also note mem_step_process_state [OF 1(1)]
    also note mem_step_sched_next [OF 1(2)]
    finally show ?thesis .
  next
    case 2
    show ?thesis by (rule mem_step_trans [OF s mem_step_read_keyboard_body [OF 2]])
  qed
qed

lemma mem_step_sys_read [mem_steps]: "sys_read fd buf n s = Some (out, s') \<Longrightarrow> mem_step s s'"
  unfolding sys_read_def using mem_step_refl mem_step_read_keyboard by (auto split: if_splits)

lemma mem_step_sys_write [mem_steps]: "sys_write kbuf fd ubuf n s = Some (r, s') \<Longrightarrow> mem_step s s'"
  by (rule mem_step_io [OF sys_write_io])

lemma mem_step_sys_get_stats [mem_steps]: "sys_get_stats pid st s = Some (r, s') \<Longrightarrow> mem_step s s'"
  by (rule mem_step_io [OF sys_get_stats_io])

end
