(* ===== verification/Isolation.thy ===== *)
theory Isolation
  imports MemFrame
begin

text \<open>
  The invariant of the whole kernel. To the invariants of scheduler and semaphores it adds, for
  every process that has been started: a directory in use with twenty mapped data pages whose frames
  are not free, no frame mapped by two processes unless they share the directory (clones), a number
  of its own and a break inside the heap; and for the machine: the running process runs in its own
  address space, no heap page is mapped, and no counter can overflow. The lemmas show that \<open>fork\<close>
  (with all its failures), \<open>clone\<close> and \<open>sbrk\<close> keep it, and so does every \<open>mem_step\<close> that keeps the
  scheduler invariants.
\<close>

section \<open>The address spaces of the processes\<close>

text \<open>The processes that have been started and not ended, the idle task apart.\<close>

definition users :: "kstate \<Rightarrow> (ptr \<Rightarrow> nat list) \<Rightarrow> nat set" where
  "users s Q = active s Q - set_option (idle_task s)"

text \<open>The tables are where \<open>init_mm\<close> put them, each directory has only one, and no heap page is mapped.\<close>

definition tables_inv :: "kstate \<Rightarrow> bool" where
  "tables_inv s \<longleftrightarrow> table_addr_ok (pagusr_addr s) \<and>
     (\<forall>d<15. dir_pages s (d * 1024) = dir_entry (pagusr_addr s) d) \<and>
     (\<forall>d<15. \<forall>p. 1 \<le> p \<and> p < 1024 \<longrightarrow> dir_pages s (d * 1024 + p) = 0) \<and>
     (\<forall>d<15. pagusr_table s (d * 1024) = 0) \<and>
     (\<forall>d<15. \<forall>p. 284 \<le> p \<and> p < 1024 \<longrightarrow> pagusr_table s (d * 1024 + p) = 0)"

text \<open>A process with directory \<open>d\<close>: its data pages are mapped to frames that are in use.\<close>

definition space_of :: "kstate \<Rightarrow> nat \<Rightarrow> nat \<Rightarrow> bool" where
  "space_of s t d \<longleftrightarrow> d < 15 \<and> dir_pages_baseAddr (tasks s t) = Some d \<and> n_directorio (tasks s t) = d \<and>
     1 \<le> refs_DIR s d \<and>
     (\<forall>i<20. pte_present (pagusr_table s (d * 1024 + (264 + i))) \<and>
        data_frame (pagusr_table s) d i < 1024 \<and>
        data_frame (pagusr_table s) d i \<notin> free_frames (phys_mem s))"

definition frame_of :: "kstate \<Rightarrow> nat \<Rightarrow> nat \<Rightarrow> nat" where
  "frame_of s t i = data_frame (pagusr_table s) (n_directorio (tasks s t)) i"

text \<open>No data frame is mapped twice, except by processes with the same directory (clones).\<close>

definition separate :: "kstate \<Rightarrow> nat set \<Rightarrow> bool" where
  "separate s U \<longleftrightarrow> (\<forall>t\<in>U. \<forall>u\<in>U. \<forall>i<20. \<forall>j<20. frame_of s t i = frame_of s u j \<longrightarrow>
     n_directorio (tasks s t) = n_directorio (tasks s u) \<and> i = j)"

text \<open>Process numbers are new, and the counters cannot overflow: \<open>n\<close> descriptors are free.\<close>

definition pids_inv :: "kstate \<Rightarrow> nat set \<Rightarrow> bool" where
  "pids_inv s U \<longleftrightarrow> (\<forall>t\<in>U. 1 \<le> PID (tasks s t) \<and> PID (tasks s t) < incrementalPID s) \<and>
     inj_on (\<lambda>t. PID (tasks s t)) U"

definition counts_inv :: "kstate \<Rightarrow> nat \<Rightarrow> bool" where
  "counts_inv s n \<longleftrightarrow> (\<forall>d<15. 0 \<le> refs_DIR s d \<and> refs_DIR s d + int n \<le> 15) \<and>
     1 \<le> incrementalPID s \<and> incrementalPID s + int n \<le> 15"

definition users_inv :: "kstate \<Rightarrow> nat set \<Rightarrow> bool" where
  "users_inv s U \<longleftrightarrow> (\<forall>t\<in>U. (\<exists>d. space_of s t d) \<and> break_ok (processBreak (tasks s t))) \<and>
     separate s U \<and> pids_inv s U"

definition kernel_inv :: "kstate \<Rightarrow> (ptr \<Rightarrow> nat list) \<Rightarrow> bool" where
  "kernel_inv s Q \<longleftrightarrow> kinv s Q \<and> sem_inv s Q \<and> quanta_ok s Q \<and>
     tables_inv s \<and> users_inv s (users s Q) \<and> counts_inv s (length (Q FreeQ)) \<and> own_space s"

section \<open>Steps that leave the address spaces alone\<close>

lemma separateI:
  assumes a: "\<And>t u i j. t \<in> U \<Longrightarrow> u \<in> U \<Longrightarrow> i < 20 \<Longrightarrow> j < 20 \<Longrightarrow> frame_of s t i = frame_of s u j \<Longrightarrow>
     n_directorio (tasks s t) = n_directorio (tasks s u) \<and> i = j"
  shows "separate s U"
  unfolding separate_def by (intro ballI allI impI) (rule a; assumption)

lemma separateD:
  assumes "separate s U" "t \<in> U" "u \<in> U" "i < 20" "j < 20" "frame_of s t i = frame_of s u j"
  shows "n_directorio (tasks s t) = n_directorio (tasks s u)" "i = j"
  by (rule assms(1) [unfolded separate_def, rule_format, OF assms(2-6), THEN conjunct1])
    (rule assms(1) [unfolded separate_def, rule_format, OF assms(2-6), THEN conjunct2])

lemma users_inv_cong:
  assumes i: "users_inv s U" and v: "V \<subseteq> U"
    and sp: "\<And>t d. t \<in> V \<Longrightarrow> space_of s t d \<Longrightarrow> space_of s' t d"
    and fr: "\<And>t i. t \<in> V \<Longrightarrow> i < 20 \<Longrightarrow> frame_of s' t i = frame_of s t i"
    and tk: "\<And>t. t \<in> V \<Longrightarrow> n_directorio (tasks s' t) = n_directorio (tasks s t) \<and>
      PID (tasks s' t) = PID (tasks s t) \<and>
      (break_ok (processBreak (tasks s t)) \<longrightarrow> break_ok (processBreak (tasks s' t)))"
    and p: "incrementalPID s \<le> incrementalPID s'"
  shows "users_inv s' V"
proof -
  have u: "\<And>t. t \<in> U \<Longrightarrow> (\<exists>d. space_of s t d) \<and> break_ok (processBreak (tasks s t))"
    and se: "separate s U" and pi: "pids_inv s U"
    using i by (simp_all add: users_inv_def)
  have "separate s' V"
  proof (rule separateI)
    fix t u i j
    assume a: "t \<in> V" "u \<in> V" "i < 20" "j < 20" "frame_of s' t i = frame_of s' u j"
    then have "frame_of s t i = frame_of s u j" using fr by simp
    from separateD [OF se _ _ a(3,4) this] a(1,2) v tk
    show "n_directorio (tasks s' t) = n_directorio (tasks s' u) \<and> i = j" by auto
  qed
  moreover have "pids_inv s' V"
  proof -
    have "inj_on (\<lambda>t. PID (tasks s t)) V" using pi v inj_on_subset by (auto simp: pids_inv_def)
    then have "inj_on (\<lambda>t. PID (tasks s' t)) V" using tk by (simp add: inj_on_def)
    then show ?thesis using pi v tk p by (fastforce simp: pids_inv_def)
  qed
  moreover have "(\<exists>d. space_of s' t d) \<and> break_ok (processBreak (tasks s' t))" if "t \<in> V" for t
    using u [of t] that v sp [OF that] tk [OF that] by blast
  ultimately show ?thesis by (simp add: users_inv_def)
qed

lemma users_inv_space: "users_inv s U \<Longrightarrow> t \<in> U \<Longrightarrow> \<exists>d. space_of s t d"
  by (simp add: users_inv_def)

lemma users_inv_mono: "users_inv s U \<Longrightarrow> V \<subseteq> U \<Longrightarrow> users_inv s V"
  by (erule users_inv_cong) simp_all

lemma mem_frame_users:
  assumes "mem_frame s s'" "users_inv s U"
  shows "users_inv s' U"
  using assms by (intro users_inv_cong [OF assms(2)]) (simp_all add: space_of_def frame_of_def mem_frame_def)

lemma mem_frame_tables: "mem_frame s s' \<Longrightarrow> tables_inv s' = tables_inv s"
  by (simp add: mem_frame_def tables_inv_def)

lemma mem_frame_counts: "mem_frame s s' \<Longrightarrow> counts_inv s' n = counts_inv s n"
  by (simp add: mem_frame_def counts_inv_def)

lemma keeps_kernel_inv:
  assumes i: "kernel_inv s Q" and k: "keeps s Q s'" and m: "mem_step s s'"
  shows "\<exists>Q'. kernel_inv s' Q' \<and> users s' Q' \<subseteq> users s Q \<and> Q' FreeQ = Q FreeQ"
proof -
  obtain Q' where Q': "kinv s' Q'" "sem_inv s' Q'" "quanta_ok s' Q'" "Q' FreeQ = Q FreeQ"
    "active s' Q' \<subseteq> active s Q" "idle_task s' = idle_task s"
    using k unfolding keeps_def by blast
  have u: "users s' Q' \<subseteq> users s Q" using Q'(5,6) by (auto simp: users_def)
  have f: "mem_frame s s'" "own_space s'" using m i by (simp_all add: mem_step_def kernel_inv_def)
  have "users_inv s' (users s' Q')"
    using mem_frame_users [OF f(1)] users_inv_mono [OF _ u] i by (simp add: kernel_inv_def)
  then have "kernel_inv s' Q'"
    using Q' f mem_frame_tables [OF f(1)] mem_frame_counts [OF f(1)] i by (simp add: kernel_inv_def)
  then show ?thesis using u Q'(4) by blast
qed

section \<open>A process that stays\<close>

lemma kernel_inv_not_free:
  assumes "kinv s Q" "Q FreeQ = t # ts"
  shows "t \<notin> active s Q" "t < 15"
proof -
  have q: "qinv s Q" using assms(1) by (simp add: kinv_def)
  have t: "t \<in> set (Q FreeQ)" using assms(2) by simp
  show "t < 15" using q t heads_basic(1) unfolding qinv_def by blast
  have "t \<noteq> cur s" using kinv_running_not_queued [OF assms(1), of FreeQ] t by auto
  moreover have "t \<notin> set_option (idle_task s)"
    using assms(1) t idle_invD [of s Q t] heads_basic(1) [of s] by (auto simp: kinv_def)
  moreover have "t \<notin> set (Q r)" if "r \<in> heads s" "r \<noteq> FreeQ" for r
    using qinv_disjoint [OF q, of FreeQ r t] that t by auto
  ultimately show "t \<notin> active s Q" unfolding active_def by blast
qed

lemma cur_user: "idle_task s \<noteq> Some (cur s) \<Longrightarrow> cur s \<in> users s Q"
  by (auto simp: users_def active_def)

lemma kernel_inv_cur_space:
  assumes i: "kernel_inv s Q" and n: "idle_task s \<noteq> Some (cur s)"
  shows "\<exists>d. space_of s (cur s) d \<and> aspace_ok d s"
proof -
  obtain d where d: "space_of s (cur s) d"
    using i cur_user [OF n, of Q] by (auto simp: kernel_inv_def users_inv_def)
  then have "aspace_ok d s"
    using i by (auto simp: aspace_ok_def space_of_def kernel_inv_def tables_inv_def own_space_def)
  then show ?thesis using d by blast
qed


text \<open>
  A call of the running process that returns to it and writes no stack but those of free descriptors.
\<close>

definition stacks_kept :: "kstate \<Rightarrow> (ptr \<Rightarrow> nat list) \<Rightarrow> kstate \<Rightarrow> bool" where
  "stacks_kept s Q s' \<longleftrightarrow> cur s' = cur s \<and> (\<forall>u. u \<notin> set (Q FreeQ) \<longrightarrow> kstack s' u = kstack s u)"

lemma stacks_keptI:
  assumes "Q FreeQ = t # ts" "cur s' = cur s" "\<And>u. u \<noteq> t \<Longrightarrow> kstack s' u = kstack s u"
  shows "stacks_kept s Q s'"
  using assms by (auto simp: stacks_kept_def)

section \<open>Losing a descriptor\<close>

text \<open>
  What a failing \<open>fork\<close> does: the first free descriptor is gone, a directory may stay in use by
  nobody, table entries outside the data pages of the processes may be written, frames taken.
\<close>

lemma kernel_inv_lost:
  assumes i: "kernel_inv s Q" and t: "Q FreeQ = t # ts"
    and k: "kinv s' (Q(FreeQ := ts))"
    and e: "semaphores s' = semaphores s" "cur s' = cur s" "idle_task s' = idle_task s" "qLeft s' = qLeft s"
      "cr3 s' = cr3 s" "incrementalPID s' = incrementalPID s" "tss_esp0 s' = tss_esp0 s" "msr_esp s' = msr_esp s"
    and tk: "\<And>u. u \<noteq> t \<Longrightarrow> tasks s' u = tasks s u"
    and r: "refs_DIR s' = refs_DIR s \<or> (\<exists>dn. refs_DIR s dn = 0 \<and> refs_DIR s' = (refs_DIR s)(dn := 1))"
    and tb: "tables_inv s'" "free_frames (phys_mem s') \<subseteq> free_frames (phys_mem s)"
    and pt: "\<And>d i. d < 15 \<Longrightarrow> 1 \<le> refs_DIR s d \<Longrightarrow> i < 20 \<Longrightarrow>
      pagusr_table s' (d * 1024 + (264 + i)) = pagusr_table s (d * 1024 + (264 + i))"
  shows "kernel_inv s' (Q(FreeQ := ts)) \<and> users s' (Q(FreeQ := ts)) = users s Q"
proof -
  let ?Q = "Q(FreeQ := ts)"
  have kk: "kinv s Q" "sem_inv s Q" "quanta_ok s Q" using i by (simp_all add: kernel_inv_def)
  note nt = kernel_inv_not_free [OF kk(1) t]
  have h: "heads s' = heads s" using e(1) by (rule heads_cong)
  have a: "active s' ?Q = active s Q" using e unfolding active_def h by auto
  have u: "users s' ?Q = users s Q" using a e by (simp add: users_def)
  have same: "tasks s' v = tasks s v" if "v \<in> active s Q" for v using that nt(1) tk by metis
  have us: "users s Q \<subseteq> active s Q" by (auto simp: users_def)
  have d: "space_of s' v d" if "v \<in> users s Q" "space_of s v d" for v d
  proof -
    have "1 \<le> refs_DIR s' d" using that(2) r by (auto simp: space_of_def)
    then show ?thesis using that(2) same [of v] that(1) us pt tb(2) by (auto simp: space_of_def data_frame_def)
  qed
  have fo: "frame_of s' v j = frame_of s v j" if v: "v \<in> users s Q" "j < 20" for v j
  proof -
    obtain d where "space_of s v d" using i v(1) by (auto simp: kernel_inv_def users_inv_def)
    then show ?thesis using same [of v] v us pt by (auto simp: space_of_def frame_of_def data_frame_def)
  qed
  have "sem_inv s' ?Q"
  proof (rule sem_inv_cong [OF kk(2) e(1)])
    fix j v assume "j < 20" "sem_state (semaphores s j) = USED_SEM" "v \<in> set (Q (SemQ j))"
    then have "v \<in> active s Q" by (auto simp: active_def heads_def)
    then show "sem_ret (tasks s' v) = sem_ret (tasks s v) \<and> kernel_esp (tasks s' v) = kernel_esp (tasks s v)"
      using same by simp
  qed simp
  moreover have "quanta_ok s' ?Q" using kk(3) same unfolding quanta_ok_def a e(4) by simp
  moreover have "users_inv s' (users s Q)"
  proof (rule users_inv_cong [OF _ subset_refl d fo])
    show "users_inv s (users s Q)" using i by (simp add: kernel_inv_def)
  qed (use same us e(6) in auto)
  moreover have "counts_inv s' (length ts)"
  proof -
    have c: "counts_inv s (length (t # ts))" using i t by (simp add: kernel_inv_def)
    then have "0 \<le> refs_DIR s' d \<and> refs_DIR s' d + int (length ts) \<le> 15" if "d < 15" for d
      using that r by (fastforce simp: counts_inv_def)
    then show ?thesis using c e(6) by (simp add: counts_inv_def)
  qed
  moreover have "own_space s'" using i e same [of "cur s"] by (simp add: kernel_inv_def own_space_def active_def)
  ultimately show ?thesis using k tb(1) u unfolding kernel_inv_def u by simp
qed


section \<open>A new process\<close>

lemma active_spawned:
  assumes "Q FreeQ = t # ts" "semaphores s' = semaphores s" "cur s' = cur s" "idle_task s' = idle_task s"
  shows "active s' (spawned t Q) = insert t (active s Q)"
proof -
  have h: "heads s' = heads s" using assms(2) by (rule heads_cong)
  have "(\<Union>q\<in>heads s - {FreeQ}. set (spawned t Q q)) = insert t (\<Union>q\<in>heads s - {FreeQ}. set (Q q))"
  proof -
    have r: "ReadyQ \<in> heads s - {FreeQ}" by simp
    have "set (spawned t Q q) = (if q = ReadyQ then insert t (set (Q q)) else set (Q q))" if "q \<noteq> FreeQ" for q
      using that by (simp add: spawned_def)
    then have "(\<Union>q\<in>heads s - {FreeQ}. set (spawned t Q q)) =
        (\<Union>q\<in>heads s - {FreeQ}. if q = ReadyQ then insert t (set (Q q)) else set (Q q))" by simp
    also have "\<dots> = insert t (\<Union>q\<in>heads s - {FreeQ}. set (Q q))"
      using r by (fastforce split: if_splits)
    finally show ?thesis .
  qed
  then show ?thesis using assms unfolding active_def h by auto
qed

text \<open>
  What \<open>fork\<close> and \<open>clone\<close> have in common: \<open>t\<close> becomes a copy of the running process with a number
  of its own, and its frames are its own or those of processes with its directory.
\<close>

lemma kernel_inv_spawned:
  assumes i: "kernel_inv s Q" and t: "Q FreeQ = t # ts" and n: "idle_task s \<noteq> Some (cur s)"
    and k: "kinv s' (spawned t Q)"
    and e: "semaphores s' = semaphores s" "cur s' = cur s" "idle_task s' = idle_task s" "qLeft s' = qLeft s"
      "cr3 s' = cr3 s" "incrementalPID s' = i32 (incrementalPID s + 1)" "tss_esp0 s' = tss_esp0 s" "msr_esp s' = msr_esp s"
    and tk: "\<And>u. u \<noteq> t \<Longrightarrow> tasks s' u = tasks s u"
    and ch: "PID (tasks s' t) = incrementalPID s" "quantum (tasks s' t) = quantum (tasks s (cur s))"
      "processBreak (tasks s' t) = processBreak (tasks s (cur s))" "space_of s' t dn"
    and tb: "tables_inv s'" and rf: "\<And>d. d < 15 \<Longrightarrow> 0 \<le> refs_DIR s' d \<and> refs_DIR s' d + int (length ts) \<le> 15"
    and sp: "\<And>v d. v \<in> users s Q \<Longrightarrow> space_of s v d \<Longrightarrow> space_of s' v d"
    and fr: "\<And>v j. v \<in> users s Q \<Longrightarrow> j < 20 \<Longrightarrow> frame_of s' v j = frame_of s v j"
    and new: "\<And>v i j. v \<in> users s Q \<Longrightarrow> i < 20 \<Longrightarrow> j < 20 \<Longrightarrow> frame_of s' t i = frame_of s v j \<Longrightarrow>
      dn = n_directorio (tasks s v) \<and> i = j"
    and inj: "\<And>i j. i < 20 \<Longrightarrow> j < 20 \<Longrightarrow> frame_of s' t i = frame_of s' t j \<Longrightarrow> i = j"
  shows "kernel_inv s' (spawned t Q) \<and> users s' (spawned t Q) = insert t (users s Q)"
proof -
  let ?Q = "spawned t Q" and ?U = "users s Q"
  have kk: "kinv s Q" "sem_inv s Q" "quanta_ok s Q" "users_inv s ?U" "counts_inv s (length (t # ts))"
    using i t by (simp_all add: kernel_inv_def)
  note nt = kernel_inv_not_free [OF kk(1) t]
  have a: "active s' ?Q = insert t (active s Q)" by (rule active_spawned [of Q t ts s' s, OF t e(1-3)])
  have us: "?U \<subseteq> active s Q" by (auto simp: users_def)
  have idle: "set_option (idle_task s) \<subseteq> active s Q" by (auto simp: active_def)
  have u: "users s' ?Q = insert t ?U" using a e(3) nt(1) idle by (auto simp: users_def)
  have same: "tasks s' v = tasks s v" if "v \<in> active s Q" for v using that nt(1) tk by metis
  have c: "cur s \<in> ?U" using cur_user [OF n] .
  have "1 \<le> incrementalPID s" "incrementalPID s + int (length ts) + 1 \<le> 15"
    using kk(5) by (simp_all add: counts_inv_def)
  then have p: "incrementalPID s' = incrementalPID s + 1" "1 \<le> incrementalPID s"
    "incrementalPID s' + int (length ts) \<le> 15"
    using e(6) i32_id [of "incrementalPID s + 1"] by (simp_all add: int_range_def)
  have dn: "n_directorio (tasks s' t) = dn" using ch(4) by (simp add: space_of_def)
  have old: "users_inv s' ?U"
    by (rule users_inv_cong [OF kk(4) subset_refl sp fr]) (use same us p in auto)
  have oldb: "\<And>v. v \<in> ?U \<Longrightarrow> (\<exists>d. space_of s' v d) \<and> break_ok (processBreak (tasks s' v))"
    and oldse: "separate s' ?U" and oldp: "pids_inv s' ?U"
    using old by (simp_all add: users_inv_def)
  have "separate s' (insert t ?U)"
  proof (rule separateI)
    fix v w i j
    assume v: "v \<in> insert t ?U" and w: "w \<in> insert t ?U" and ij: "i < 20" "j < 20"
      and f: "frame_of s' v i = frame_of s' w j"
    have nd: "n_directorio (tasks s' x) = n_directorio (tasks s x)" if "x \<in> ?U" for x using that same us by auto
    consider "v = t" "w = t" | "v = t" "w \<in> ?U" | "v \<in> ?U" "w = t" | "v \<in> ?U" "w \<in> ?U" using v w by blast
    then show "n_directorio (tasks s' v) = n_directorio (tasks s' w) \<and> i = j"
    proof cases
      case 1
      then show ?thesis using inj [OF ij] f by simp
    next
      case 2
      then show ?thesis using new [OF 2(2) ij] f fr [OF 2(2) ij(2)] dn nd [OF 2(2)] by simp
    next
      case 3
      then show ?thesis using new [OF 3(1) ij(2,1)] f fr [OF 3(1) ij(1)] dn nd [OF 3(1)] by simp
    next
      case 4
      then show ?thesis using separateD [OF oldse 4 ij f] by simp
    qed
  qed
  moreover have "pids_inv s' (insert t ?U)"
  proof -
    have less: "PID (tasks s' v) < incrementalPID s" if "v \<in> ?U" for v
      using that same [of v] us kk(4) by (auto simp: users_inv_def pids_inv_def)
    then have "incrementalPID s \<notin> (\<lambda>v. PID (tasks s' v)) ` ?U" by fastforce
    then show ?thesis using oldp ch(1) p by (auto simp: pids_inv_def inj_on_insert)
  qed
  moreover have "(\<exists>d. space_of s' v d) \<and> break_ok (processBreak (tasks s' v))" if "v \<in> insert t ?U" for v
  proof (cases "v = t")
    case True
    then show ?thesis using ch(3,4) oldb [OF c] same [of "cur s"] c us by auto
  next
    case False
    then show ?thesis using oldb that by blast
  qed
  ultimately have ui: "users_inv s' (insert t ?U)" by (simp add: users_inv_def)
  have "sem_inv s' ?Q" by (rule sem_inv_spawned [OF kk(1,2) t e(1) tk])
  moreover have "quanta_ok s' ?Q"
  proof -
    have "cur s \<in> active s Q" by (simp add: active_def)
    then show ?thesis using kk(3) same ch(2) unfolding quanta_ok_def a e(4) by auto
  qed
  moreover have "counts_inv s' (length (?Q FreeQ))"
    using rf p t by (simp add: counts_inv_def spawned_def)
  moreover have "own_space s'" using i e same [of "cur s"] by (simp add: kernel_inv_def own_space_def active_def)
  ultimately show ?thesis using k tb ui u by (simp add: kernel_inv_def)
qed

section \<open>fork\<close>

lemma entry_outside:
  assumes "d \<noteq> dn" "p < (1024 :: nat)"
  shows "\<not> (dn * 1024 \<le> d * 1024 + p \<and> d * 1024 + p < dn * 1024 + 1024)"
proof (cases "d < dn")
  case True
  then have "d + 1 \<le> dn" by simp
  then show ?thesis using assms(2) by linarith
next
  case False
  then have "dn + 1 \<le> d" using assms(1) by simp
  then show ?thesis by linarith
qed

lemma shared_table_other:
  assumes "dn \<noteq> dp" "d \<noteq> dn" "p < 1024"
  shows "shared_table dn dp pt (d * 1024 + p) = pt (d * 1024 + p)"
proof -
  have "\<not> (dn * 1024 + 1 \<le> d * 1024 + p \<and> d * 1024 + p < dn * 1024 + 264)"
    using entry_outside [OF assms(2,3)] by linarith
  then show ?thesis using shared_table_apply [OF assms(1), of pt "d * 1024 + p"] by (simp only: if_False)
qed

text \<open>Tables that differ only in the child's entries 1 to 283 and in cleared heap entries.\<close>

lemma tables_inv_fork:
  assumes i: "tables_inv s" and dn: "dn < 15"
    and e: "dir_pages s' = dir_pages s" "pagusr_addr s' = pagusr_addr s"
    and pt: "\<And>k. \<not> (dn * 1024 + 1 \<le> k \<and> k < dn * 1024 + 284) \<Longrightarrow>
      pagusr_table s' k = pagusr_table s k \<or> pagusr_table s' k = 0"
  shows "tables_inv s'"
proof -
  have "pagusr_table s' (d * 1024 + p) = 0" if z: "pagusr_table s (d * 1024 + p) = 0" "p = 0 \<or> 284 \<le> p" "p < 1024" for d p
  proof -
    have "\<not> (dn * 1024 + 1 \<le> d * 1024 + p \<and> d * 1024 + p < dn * 1024 + 284)"
    proof (cases "d = dn")
      case False
      then show ?thesis using entry_outside [OF False z(3)] by linarith
    qed (use z(2) in linarith)
    then show ?thesis using pt [of "d * 1024 + p"] z(1) by auto
  qed
  from this [where p = 0] this show ?thesis using i e by (simp add: tables_inv_def)
qed

lemma fork_lost_frames:
  assumes i: "kernel_inv s Q" and t: "Q FreeQ = t # ts"
    and d: "dn < 15" "refs_DIR s dn = 0" "\<forall>k<dn. refs_DIR s k \<noteq> 0"
    and a: "aspace_ok dp s" and fr: "card (free_frames (phys_mem s)) < 20"
  shows "\<exists>s'. sys_fork ebp s = Some (- ENOMEM, s') \<and> kernel_inv s' (Q(FreeQ := ts)) \<and>
    users s' (Q(FreeQ := ts)) = users s Q \<and> stacks_kept s Q s'"
proof -
  have k: "kinv s Q" and ti: "tables_inv s" using i by (simp_all add: kernel_inv_def)
  have dd: "dn \<noteq> dp" using a d(2) by (auto simp: aspace_ok_def)
  have dp: "dp < 15" using a by (simp add: aspace_ok_def)
  obtain h m pt pm where s: "sys_fork ebp s = Some (- ENOMEM, (fork_start t dn dp h s)
      \<lparr>phys_mem := pm, memory := m, pagusr_table := pt\<rparr>)"
    "lq.family h (tlists (Q(FreeQ := ts))) (heads s)" "free_frames pm = free_frames (phys_mem s) - {256}"
    "loop_entries dn dp (shared_table dn dp (pagusr_table s)) pt"
    using sys_fork_no_frames [OF k t d a fr, of ebp] by blast
  let ?s' = "(fork_start t dn dp h s)\<lparr>phys_mem := pm, memory := m, pagusr_table := pt\<rparr>"
  have tc: "t \<noteq> cur s" using kinv_running_not_queued [OF k, of FreeQ] t by auto
  have pt: "pt k = pagusr_table s k \<or> pt k = 0 \<and> dp * 1024 + 284 \<le> k \<and> k < dp * 1024 + 304"
    if "\<not> (dn * 1024 + 1 \<le> k \<and> k < dn * 1024 + 284)" for k
  proof -
    have "shared_table dn dp (pagusr_table s) k = pagusr_table s k"
      using that by (subst shared_table_apply [OF dd]) auto
    moreover have "\<not> (dn * 1024 + 264 \<le> k \<and> k < dn * 1024 + 284)" using that by linarith
    ultimately show ?thesis using s(4) unfolding loop_entries_def by metis
  qed
  have "kernel_inv ?s' (Q(FreeQ := ts)) \<and> users ?s' (Q(FreeQ := ts)) = users s Q"
  proof (rule kernel_inv_lost [OF i t])
    show "kinv ?s' (Q(FreeQ := ts))" by (rule kinv_lost [OF k t s(2)]) simp_all
    show "tables_inv ?s'" by (rule tables_inv_fork [OF ti d(1)]) (use pt in auto)
    show "pagusr_table ?s' (d * 1024 + (264 + j)) = pagusr_table s (d * 1024 + (264 + j))"
      if "d < 15" "1 \<le> refs_DIR s d" "j < 20" for d j
    proof -
      have dn: "d \<noteq> dn" using that(2) d(2) by auto
      have l: "264 + j < 1024" using that(3) by simp
      have "\<not> (dn * 1024 + 1 \<le> d * 1024 + (264 + j) \<and> d * 1024 + (264 + j) < dn * 1024 + 284)"
        using entry_outside [OF dn l] by linarith
      moreover have "\<not> (dp * 1024 + 284 \<le> d * 1024 + (264 + j) \<and> d * 1024 + (264 + j) < dp * 1024 + 304)"
        using entry_outside [of d dp "264 + j"] that(3) by (cases "d = dp") linarith+
      ultimately show ?thesis using pt [of "d * 1024 + (264 + j)"] by auto
    qed
    show "refs_DIR ?s' = refs_DIR s \<or> (\<exists>dn. refs_DIR s dn = 0 \<and> refs_DIR ?s' = (refs_DIR s)(dn := 1))"
      using d(2) by auto
  qed (use s(3) in \<open>auto simp: fork_start_def\<close>)
  moreover have "stacks_kept s Q ?s'" by (rule stacks_keptI [of Q t ts, OF t]) simp_all
  ultimately show ?thesis using s(1) by blast
qed

lemma fork_lost_directory:
  assumes i: "kernel_inv s Q" and t: "Q FreeQ = t # ts" and d: "\<forall>d<15. refs_DIR s d \<noteq> 0"
  shows "\<exists>s'. sys_fork ebp s = Some (- ENOMEM, s') \<and> kernel_inv s' (Q(FreeQ := ts)) \<and>
    users s' (Q(FreeQ := ts)) = users s Q \<and> stacks_kept s Q s'"
proof -
  have k: "kinv s Q" and ti: "tables_inv s" using i by (simp_all add: kernel_inv_def)
  obtain h where s: "sys_fork ebp s = Some (- ENOMEM, copy_union (cur s) t (s\<lparr>links := h\<rparr>))"
    "lq.family h (tlists (Q(FreeQ := ts))) (heads s)"
    using sys_fork_no_directory [OF k t d, of ebp] by blast
  let ?s' = "copy_union (cur s) t (s\<lparr>links := h\<rparr>)"
  have "kernel_inv ?s' (Q(FreeQ := ts)) \<and> users ?s' (Q(FreeQ := ts)) = users s Q"
  proof (rule kernel_inv_lost [OF i t])
    show "kinv ?s' (Q(FreeQ := ts))" by (rule kinv_lost [OF k t s(2)]) (simp_all add: copy_union_def)
    show "tables_inv ?s'" using ti by (simp add: tables_inv_def copy_union_def)
  qed (simp_all add: copy_union_def)
  moreover have "stacks_kept s Q ?s'" by (rule stacks_keptI [of Q t ts, OF t]) simp_all
  ultimately show ?thesis using s(1) by blast
qed

lemma fork_spawns:
  assumes i: "kernel_inv s Q" and t: "Q FreeQ = t # ts" and n: "idle_task s \<noteq> Some (cur s)"
    and d: "dn < 15" "refs_DIR s dn = 0" "\<forall>k<dn. refs_DIR s k \<noteq> 0"
    and a: "aspace_ok dp s" and fr: "20 \<le> card (free_frames (phys_mem s))"
  shows "\<exists>s'. sys_fork ebp s = Some (incrementalPID s, s') \<and> kernel_inv s' (spawned t Q) \<and>
    users s' (spawned t Q) = insert t (users s Q) \<and> stacks_kept s Q s' \<and> kstack s' t = fork_stack ebp s"
proof -
  have k: "kinv s Q" and ti: "tables_inv s" and ci: "counts_inv s (length (t # ts))" and ui: "users_inv s (users s Q)"
    using i t by (simp_all add: kernel_inv_def)
  have dd: "dn \<noteq> dp" using a d(2) by (auto simp: aspace_ok_def)
  obtain fl pm where f: "fa.take_frames 20 (phys_mem s) = (Some fl, pm)"
    using fa.take_frames_enough [of "phys_mem s" 20] fr finite_free_frames by auto
  note fl = fa.take_frames_Some [OF f]
  obtain s' where s: "sys_fork ebp s = Some (incrementalPID s, s')" "kinv s' (spawned t Q)"
    "tasks s' = (tasks s)(t := fork_child ebp s dn)" "cur s' = cur s" "semaphores s' = semaphores s"
    "qLeft s' = qLeft s" "cr3 s' = cr3 s" "idle_task s' = idle_task s" "refs_DIR s' = (refs_DIR s)(dn := 1)"
    "incrementalPID s' = i32 (incrementalPID s + 1)" "phys_mem s' = pm"
    "\<forall>i<20. pagusr_table s' (dn * 1024 + (264 + i)) = mapped_entry (of_nat (fl ! i))"
    "dir_pages s' = dir_pages s" "pagusr_addr s' = pagusr_addr s"
    "\<forall>j<20. pagusr_table s' (dp * 1024 + (284 + j)) = 0"
    "\<forall>k. \<not> (dn * 1024 + 1 \<le> k \<and> k < dn * 1024 + 284) \<and> \<not> (dp * 1024 + 284 \<le> k \<and> k < dp * 1024 + 304) \<longrightarrow>
       pagusr_table s' k = pagusr_table s k" "tss_esp0 s' = tss_esp0 s" "msr_esp s' = msr_esp s"
    "\<forall>u. u \<noteq> t \<longrightarrow> kstack s' u = kstack s u" "kstack s' t = fork_stack ebp s"
    using sys_fork_runs [OF k t d a f, of ebp] by blast
  have tbl: "pagusr_table s' k = pagusr_table s k \<or> pagusr_table s' k = 0"
    if "\<not> (dn * 1024 + 1 \<le> k \<and> k < dn * 1024 + 284)" for k
  proof (cases "dp * 1024 + 284 \<le> k \<and> k < dp * 1024 + 304")
    case True
    then obtain j where "k = dp * 1024 + (284 + j)" "j < 20"
      using le_Suc_ex [of "dp * 1024 + 284" k] by auto
    then show ?thesis using s(15) by simp
  qed (use s(16) that in blast)
  have old: "pagusr_table s' (d * 1024 + (264 + j)) = pagusr_table s (d * 1024 + (264 + j))"
    if "d \<noteq> dn" "j < 20" for d j
  proof -
    have l: "264 + j < 1024" using that(2) by simp
    have "\<not> (dn * 1024 + 1 \<le> d * 1024 + (264 + j) \<and> d * 1024 + (264 + j) < dn * 1024 + 284)"
      using entry_outside [OF that(1) l] by linarith
    moreover have "\<not> (dp * 1024 + 284 \<le> d * 1024 + (264 + j) \<and> d * 1024 + (264 + j) < dp * 1024 + 304)"
      using entry_outside [of d dp "264 + j"] that(2) by (cases "d = dp") linarith+
    ultimately show ?thesis using s(16) by blast
  qed
  have fln: "fl ! j \<in> free_frames (phys_mem s) \<and> fl ! j < 1024" if "j < 20" for j
  proof -
    have "fl ! j \<in> set fl" using that fl by simp
    then have "fl ! j \<in> free_frames (phys_mem s)" using fl by auto
    then show ?thesis by (auto simp: free_frames_def frame_pool_def)
  qed
  have child: "data_frame (pagusr_table s') dn j = fl ! j" if "j < 20" for j
    using that s(12) fln [OF that] by (simp add: data_frame_def pte_pbase_mapped unat_of_nat_u32)
  have ndn: "n_directorio (tasks s v) \<noteq> dn" "\<And>d. space_of s v d \<Longrightarrow> d = n_directorio (tasks s v)"
    if v: "v \<in> users s Q" for v
  proof -
    obtain d where "space_of s v d" using ui v by (auto simp: users_inv_def)
    then show "n_directorio (tasks s v) \<noteq> dn" using d(2) by (auto simp: space_of_def)
  qed (simp add: space_of_def)
  have nt: "t \<notin> users s Q" using kernel_inv_not_free [OF k t] by (auto simp: users_def)
  have tk: "tasks s' u = tasks s u" if "u \<noteq> t" for u using that s(3) by simp
  have df: "data_frame (pagusr_table s') d j = data_frame (pagusr_table s) d j" if "d \<noteq> dn" "j < 20" for d j
    using old [OF that] by (simp add: data_frame_def)
  have fo: "frame_of s' v j = frame_of s v j" if "v \<in> users s Q" "j < 20" for v j
    using df [OF ndn(1) [OF that(1)] that(2)] tk [of v] that(1) nt
    by (cases "v = t") (auto simp: frame_of_def)
  have used: "frame_of s v j \<notin> free_frames (phys_mem s)" if v: "v \<in> users s Q" "j < 20" for v j
  proof -
    obtain d where "space_of s v d" using users_inv_space [OF ui v(1)] by blast
    then show ?thesis using v(2) by (auto simp: space_of_def frame_of_def)
  qed
  have fot: "frame_of s' t j = fl ! j" if "j < 20" for j
    using child [OF that] s(3) by (simp add: frame_of_def fork_child_def)
  have sub: "free_frames pm \<subseteq> free_frames (phys_mem s)" using fl by auto
  have "kernel_inv s' (spawned t Q) \<and> users s' (spawned t Q) = insert t (users s Q)"
  proof (rule kernel_inv_spawned [OF i t n s(2,5,4,8,6,7,10,17,18) tk])
    show "space_of s' t dn"
      using d(1) s(3,9,11,12) child fln fl by (auto simp: space_of_def fork_child_def)
    show "tables_inv s'" by (rule tables_inv_fork [OF ti d(1) s(13,14) tbl])
    show "0 \<le> refs_DIR s' e \<and> refs_DIR s' e + int (length ts) \<le> 15" if "e < 15" for e
    proof -
      have "0 \<le> refs_DIR s e \<and> refs_DIR s e + int (length (t # ts)) \<le> 15" using ci that by (simp add: counts_inv_def)
      moreover have "int (length (t # ts)) \<le> 15" using ci d by (auto simp: counts_inv_def)
      ultimately show ?thesis using s(9) by auto
    qed
    show "space_of s' v e" if v: "v \<in> users s Q" "space_of s v e" for v e
    proof -
      have "e \<noteq> dn" "v \<noteq> t" using ndn [OF v(1)] v nt by auto
      then show ?thesis using v(2) tk [of v] s(9,11) old df sub by (auto simp: space_of_def)
    qed
    show "frame_of s' v j = frame_of s v j" if "v \<in> users s Q" "j < 20" for v j using fo that .
    show "dn = n_directorio (tasks s v) \<and> x = y"
      if "v \<in> users s Q" "x < 20" "y < 20" "frame_of s' t x = frame_of s v y" for v x y
      using used [OF that(1,3)] fln [OF that(2)] that(4) fot [OF that(2)] by simp
    show "x = y" if "x < 20" "y < 20" "frame_of s' t x = frame_of s' t y" for x y
      using fot that fl by (simp add: nth_eq_iff_index_eq)
  qed (simp_all add: s(3) fork_child_def)
  moreover have "stacks_kept s Q s'" by (rule stacks_keptI [of Q t ts, OF t s(4)]) (use s(19) in blast)
  ultimately show ?thesis using s(1,20) by blast
qed

lemma fork_kernel_inv:
  assumes i: "kernel_inv s Q" and n: "idle_task s \<noteq> Some (cur s)"
  shows "\<exists>r s' Q'. sys_fork ebp s = Some (r, s') \<and> kernel_inv s' Q' \<and> users s Q \<subseteq> users s' Q' \<and>
    stacks_kept s Q s' \<and> set (Q' FreeQ) \<subseteq> set (Q FreeQ)"
proof (cases "Q FreeQ")
  case Nil
  then have "sys_fork ebp s = Some (- ENOMEM, s)" using sys_fork_no_pcb [of s Q ebp] i by (auto simp: kernel_inv_def)
  then show ?thesis using i by (auto simp: stacks_kept_def)
next
  case (Cons t ts)
  obtain dp where a: "aspace_ok dp s" using kernel_inv_cur_space [OF i n] by blast
  have fq: "set ((Q(FreeQ := ts)) FreeQ) \<subseteq> set (Q FreeQ)" "set (spawned t Q FreeQ) \<subseteq> set (Q FreeQ)"
    using Cons by (auto simp: spawned_def)
  show ?thesis
  proof (cases "\<forall>d<15. refs_DIR s d \<noteq> 0")
    case True
    then show ?thesis using fork_lost_directory [OF i Cons True, of ebp] fq(1) by blast
  next
    case False
    then obtain dn where d: "dn < 15" "refs_DIR s dn = 0" "\<forall>k<dn. refs_DIR s k \<noteq> 0"
      using first_unused_directory by blast
    show ?thesis
    proof (cases "card (free_frames (phys_mem s)) < 20")
      case True
      then show ?thesis using fork_lost_frames [OF i Cons d a True, of ebp] fq(1) by blast
    next
      case False
      then show ?thesis using fork_spawns [OF i Cons n d a, of ebp] fq(2) by fastforce
    qed
  qed
qed


section \<open>clone\<close>

lemma clone_kernel_inv:
  assumes i: "kernel_inv s Q" and n: "idle_task s \<noteq> Some (cur s)"
  shows "\<exists>r s' Q'. sys_clone ebp f stack s = Some (r, s') \<and> kernel_inv s' Q' \<and> users s Q \<subseteq> users s' Q' \<and>
    stacks_kept s Q s' \<and> set (Q' FreeQ) \<subseteq> set (Q FreeQ)"
proof -
  have k: "kinv s Q" using i by (simp add: kernel_inv_def)
  consider "access_ok VERIFY_WRITE stack 4 = 0 \<or> access_ok VERIFY_READ f 4 = 0"
    | "Q FreeQ = []" | t ts where "Q FreeQ = t # ts" "access_ok VERIFY_WRITE stack 4 \<noteq> 0" "access_ok VERIFY_READ f 4 \<noteq> 0"
    by (cases "Q FreeQ") auto
  then show ?thesis
  proof cases
    case 1
    then show ?thesis using i by (auto simp: sys_clone_def stacks_kept_def)
  next
    case 2
    then show ?thesis using i qinv_empty [of s Q FreeQ] k by (auto simp: sys_clone_def kinv_def stacks_kept_def)
  next
    case 3
    note t = 3(1)
    obtain h where h: "sys_clone ebp f stack s = Some (incrementalPID s, clone_state ebp f stack t h s)"
      "kinv (clone_state ebp f stack t h s) (spawned t Q)"
      using sys_clone_runs [OF k 3(1,2,3), of ebp] by blast
    let ?s' = "clone_state ebp f stack t h s"
    obtain d where d: "space_of s (cur s) d" using kernel_inv_cur_space [OF i n] by blast
    have nd: "n_directorio (tasks s (cur s)) = d" "d < 15" using d by (simp_all add: space_of_def)
    have ci: "counts_inv s (length (t # ts))" and se: "separate s (users s Q)" and c: "cur s \<in> users s Q"
      using i t cur_user [OF n] by (simp_all add: kernel_inv_def users_inv_def)
    have r: "1 \<le> refs_DIR s d" "refs_DIR s d + int (length ts) + 1 \<le> 15"
      using d ci by (simp_all add: space_of_def counts_inv_def)
    then have "i32 (refs_DIR s d + 1) = refs_DIR s d + 1" by (intro i32_id) (simp add: int_range_def)
    then have rd: "refs_DIR ?s' = (refs_DIR s)(d := refs_DIR s d + 1)" using nd by (simp add: clone_state_def)
    have tt: "tasks ?s' = (tasks s)(t := clone_child ebp s)" by (simp add: clone_state_def)
    have e: "pagusr_table ?s' = pagusr_table s" "phys_mem ?s' = phys_mem s" "dir_pages ?s' = dir_pages s"
      "pagusr_addr ?s' = pagusr_addr s" by (simp_all add: clone_state_def)
    have nt: "t \<notin> users s Q" using kernel_inv_not_free [OF k t] by (auto simp: users_def)
    have sp: "space_of ?s' v e" if "space_of s v e" "v \<noteq> t" for v e
      using that by (auto simp: space_of_def rd tt e)
    have ft: "frame_of ?s' t x = frame_of s (cur s) x" for x
      by (simp add: frame_of_def tt e clone_child_def)
    have "kernel_inv ?s' (spawned t Q) \<and> users ?s' (spawned t Q) = insert t (users s Q)"
    proof (rule kernel_inv_spawned [OF i t n h(2), where dn = d])
      show "space_of ?s' t d" using d by (simp add: space_of_def rd tt e clone_child_def)
      show "tables_inv ?s'" using i by (simp add: kernel_inv_def tables_inv_def e)
      show "0 \<le> refs_DIR ?s' x \<and> refs_DIR ?s' x + int (length ts) \<le> 15" if "x < 15" for x
        using that ci r by (auto simp: rd counts_inv_def)
      show "space_of ?s' v x" if "v \<in> users s Q" "space_of s v x" for v x
        using sp that nt by metis
      show "frame_of ?s' v j = frame_of s v j" if "v \<in> users s Q" "j < 20" for v j
        using that nt by (auto simp: frame_of_def tt e)
      show "d = n_directorio (tasks s v) \<and> x = y"
        if "v \<in> users s Q" "x < 20" "y < 20" "frame_of ?s' t x = frame_of s v y" for v x y
        using separateD [OF se c that(1-3)] that(4) nd unfolding ft by simp
      show "x = y" if "x < 20" "y < 20" "frame_of ?s' t x = frame_of ?s' t y" for x y
        using separateD [OF se c c that(1,2)] that(3) unfolding ft by simp
    qed (simp_all add: clone_state_def clone_child_def)
    moreover have "stacks_kept s Q ?s'" by (rule stacks_keptI [of Q t ts, OF t]) (simp_all add: clone_state_def)
    moreover have "set (spawned t Q FreeQ) \<subseteq> set (Q FreeQ)" using t by (auto simp: spawned_def)
    ultimately show ?thesis using h(1) by blast
  qed
qed

section \<open>sbrk\<close>

text \<open>With no heap page mapped, growing and shrinking move the break and nothing else.\<close>

lemma sbrk_shrink_absent:
  "284 \<le> stop \<Longrightarrow> \<forall>p. stop < p \<and> p \<le> i \<longrightarrow> in_table (PT + nat p) \<and> pagusr_table s (PT + nat p) = 0 \<Longrightarrow>
    sbrk_shrink PT i stop s = Some (True, s)"
proof (induction PT i stop s rule: sbrk_shrink.induct)
  case (1 PT i stop s)
  show ?case
  proof (cases "i > stop")
    case True
    have z: "in_table (PT + nat i)" "pagusr_table s (PT + nat i) = 0" using "1.prems"(2) True by simp_all
    let ?s1 = "s\<lparr>phys_mem := free_frame (phys_mem s) (get_frame (pagusr_table s) PT (nat i))\<rparr>"
    have f: "free_frame (phys_mem s) (get_frame (pagusr_table s) PT (nat i)) = phys_mem s"
      using z(2) by (auto simp: free_frame_apply fun_eq_iff get_frame_def pte_pbase_def)
    have "del_ss_pag (pagusr_table s) PT (nat i) = pagusr_table s" using z(2) by (simp add: del_ss_pag_def fun_upd_idem)
    then have s: "?s1\<lparr>pagusr_table := del_ss_pag (pagusr_table ?s1) PT (nat i)\<rparr> = s" unfolding f by simp
    have h: "\<not> i < int PAG_LOG_INIT_HEAP" using True "1.prems"(1) by simp
    have t: "\<not> \<not> in_table (PT + nat i)" using z(1) by simp
    have "sbrk_shrink PT (i - 1) stop s = Some (True, s)"
      using "1.IH" [OF True h t refl, unfolded s] "1.prems" by simp
    then show ?thesis using True h s z(1) by (subst sbrk_shrink.simps) (simp add: Let_def)
  qed (subst sbrk_shrink.simps, simp)
qed

lemma heap_entry_absent:
  assumes ti: "tables_inv s" and d: "d < 15" and p: "284 \<le> p" "p \<le> 1024" and t: "in_table (d * 1024 + nat p)"
  shows "pagusr_table s (d * 1024 + nat p) = 0"
proof (cases "p = 1024")
  case True
  then have e: "d * 1024 + nat p = Suc d * 1024" by simp
  then have "Suc d < 15" using t by (simp add: in_table_def)
  then show ?thesis unfolding e using ti unfolding tables_inv_def by blast
next
  case False
  then have "284 \<le> nat p \<and> nat p < 1024" using p by linarith
  then show ?thesis using ti d unfolding tables_inv_def by blast
qed

lemma sbrk_only_break:
  assumes ti: "tables_inv s" and pt: "PT_of s (cur s) = Some (d * 1024)" "d < 15" and o: "own_space s"
    and b: "break_ok (processBreak (tasks s (cur s)))" and r: "\<not> sbrk_past_table s incr"
  shows "\<exists>r pb. sys_sbrk incr s = Some (r, upd_task (cur s) (processBreak_update (\<lambda>_. pb)) s) \<and> break_ok pb"
proof -
  let ?PT = "d * 1024"
  let ?pb = "processBreak (tasks s (cur s))"
  let ?n = "sbrk_incr ?pb incr" and ?i = "sint (drop_bit 12 ?pb)"
  let ?e = "?pb + word_of_int ?n"
  let ?f = "sint (drop_bit 12 ?e)"
  let ?aux = "if ?e mod of_nat PAGE_SIZE = 0 then 0 else 1 :: int"
  let ?s = "\<lambda>pb. upd_task (cur s) (processBreak_update (\<lambda>_. pb)) s"
  have same: "?s ?pb = s" by (simp add: upd_task_def)
  have lp: "?f + ?aux = last_page ?e" by (simp add: last_page_def)
  have r': "\<not> (d = 14 \<and> sbrk_reaches ?pb incr)" using r pt(1) by (auto simp: sbrk_past_table_def)
  note zero = heap_entry_absent [OF ti pt(2)]
  have aux: "0 \<le> ?aux" "?aux \<le> 1" by simp_all
  have "1163264 \<le> unat ?pb" "unat ?pb < 4198400" using b by (simp_all add: break_ok_def)
  then have i: "284 \<le> ?i" "?i \<le> 1024" unfolding sint_drop_12 by linarith+
  have e: "284 \<le> ?f" using sbrk_incr_above [of ?pb incr] unfolding sint_drop_12 by simp
  show ?thesis
  proof (cases "?f > 1024")
    case True
    then show ?thesis using pt b same by (intro exI [of _ "word_of_int (- ENOMEM)"] exI [of _ ?pb]) (simp add: sys_sbrk_unfold Let_def)
  next
    case False
    then have "unat ?e < 1025 * 4096" unfolding sint_drop_12 by linarith
    then have be: "break_ok ?e" using sbrk_incr_above [of ?pb incr] by (simp add: break_ok_def)
    have "processBreak_update (\<lambda>b. b + word_of_int n) r = r\<lparr>processBreak := processBreak r + word_of_int n\<rparr>" for n r
      by (cases r) simp
    from this [of ?n "tasks s (cur s)"]
    have upd: "upd_task (cur s) (processBreak_update (\<lambda>b. b + word_of_int ?n)) s = ?s ?e"
      unfolding upd_task_def by (rule arg_cong)
    have "sys_sbrk incr s = Some (?pb, ?s ?e)"
    proof -
      consider "?n > 0" | "?n < 0" | "?n = 0" by linarith
      then show ?thesis
      proof cases
        case 1
        have t: "in_table (?PT + nat (?f + ?aux - 1))"
          unfolding lp using False by (intro grow_in_table [OF pt(2) 1 r']) simp
        have "sbrk_grow ?PT ?i (?f + ?aux) (?i + ?aux) s = Some (True, s)"
        proof (rule sbrk_grow_absent, intro allI impI)
          fix p assume p: "?i \<le> p \<and> p < ?f + ?aux"
          then have "p \<le> ?f + ?aux - 1" "284 \<le> p" "p \<le> 1024" using i(1) aux False by linarith+
          then have "284 \<le> p" "p \<le> 1024" "in_table (?PT + nat p)" using in_table_mono [OF t, of p] by simp_all
          then show "in_table (?PT + nat p) \<and> \<not> pte_present (pagusr_table s (?PT + nat p))"
            using zero [of p] by (simp add: pte_present_def)
        qed
        then show ?thesis using 1 False pt upd by (simp add: sys_sbrk_unfold Let_def)
      next
        case 2
        have "284 \<le> ?f + ?aux" using e by simp
        moreover have "in_table (?PT + nat p) \<and> pagusr_table s (?PT + nat p) = 0" if p: "?f + ?aux < p \<and> p \<le> ?i" for p
        proof -
          have "in_table (?PT + nat ?i)" using p unfolding lp by (intro shrink_in_table [OF pt(2) b 2 r']) simp
          then have "in_table (?PT + nat p)" by (rule in_table_mono) (use p in linarith)
          moreover have "284 \<le> p" "p \<le> 1024" using p e i(2) aux by linarith+
          ultimately show ?thesis using zero [of p] by blast
        qed
        ultimately have "sbrk_shrink ?PT ?i (?f + ?aux) s = Some (True, s)"
          by (intro sbrk_shrink_absent) blast+
        moreover have "s\<lparr>cr3 := get_DIR s (cur s)\<rparr> = s" using o by (simp add: own_space_def get_DIR_def)
        ultimately show ?thesis using 2 False pt upd by (simp add: sys_sbrk_unfold Let_def)
      next
        case 3
        then show ?thesis using False pt upd by (simp add: sys_sbrk_unfold Let_def)
      qed
    qed
    then show ?thesis using be by blast
  qed
qed

lemma cur_table:
  assumes i: "kernel_inv s Q" and n: "idle_task s \<noteq> Some (cur s)"
  obtains d where "d < 15" "PT_of s (cur s) = Some (d * 1024)" "break_ok (processBreak (tasks s (cur s)))"
proof -
  obtain d where d: "space_of s (cur s) d" using kernel_inv_cur_space [OF i n] by blast
  have "PT_of s (cur s) = Some (d * 1024)"
    using d i by (intro PT_of_dir) (simp_all add: space_of_def tables_inv_def kernel_inv_def)
  moreover have "break_ok (processBreak (tasks s (cur s)))"
    using i cur_user [OF n] by (auto simp: users_inv_def kernel_inv_def)
  ultimately show ?thesis using that d by (simp add: space_of_def)
qed

lemma sbrk_kernel_inv:
  assumes i: "kernel_inv s Q" and n: "idle_task s \<noteq> Some (cur s)" and r: "\<not> sbrk_past_table s incr"
  shows "\<exists>r pb. sys_sbrk incr s = Some (r, upd_task (cur s) (processBreak_update (\<lambda>_. pb)) s) \<and>
    kernel_inv (upd_task (cur s) (processBreak_update (\<lambda>_. pb)) s) Q"
proof -
  obtain d where d: "d < 15" "PT_of s (cur s) = Some (d * 1024)" "break_ok (processBreak (tasks s (cur s)))"
    using cur_table [OF i n] by blast
  have ii: "tables_inv s" "own_space s" "kinv s Q" "sem_inv s Q" "quanta_ok s Q" "users_inv s (users s Q)"
    "counts_inv s (length (Q FreeQ))" using i by (simp_all add: kernel_inv_def)
  obtain r pb where b: "sys_sbrk incr s = Some (r, upd_task (cur s) (processBreak_update (\<lambda>_. pb)) s)" "break_ok pb"
    using sbrk_only_break [OF ii(1) d(2,1) ii(2) d(3) r] by blast
  let ?s = "upd_task (cur s) (processBreak_update (\<lambda>_. pb)) s"
  have v: "same_view s ?s" by (simp add: same_view_def upd_task_def)
  note vi = same_view_invs [OF v]
  have u: "users ?s Q = users s Q" using vi(4) by (simp add: users_def)
  have "users_inv ?s (users s Q)"
    by (rule users_inv_cong [OF ii(6) subset_refl]) (auto simp: space_of_def frame_of_def upd_task_def b(2))
  moreover have "tables_inv ?s" "counts_inv ?s (length (Q FreeQ))" "own_space ?s"
    using ii by (simp_all add: tables_inv_def counts_inv_def own_space_def upd_task_def)
  ultimately have "kernel_inv ?s Q" using ii vi u by (simp add: kernel_inv_def)
  then show ?thesis using b(1) by blast
qed

lemma sbrk_past_table_faults:
  assumes i: "kernel_inv s Q" and n: "idle_task s \<noteq> Some (cur s)" and r: "sbrk_past_table s incr"
  shows "sys_sbrk incr s = None"
proof (rule sys_sbrk_faults [OF r])
  show "break_ok (processBreak (tasks s (cur s)))" using cur_table [OF i n] by blast
  have "pagusr_table s (14 * 1024 + p) = 0" if "284 \<le> p" "p < 1024" for p
  proof -
    have "\<forall>d<15. \<forall>p. 284 \<le> p \<and> p < 1024 \<longrightarrow> pagusr_table s (d * 1024 + p) = 0"
      using i by (simp add: kernel_inv_def tables_inv_def)
    from this [rule_format, of 14 p] that show ?thesis by simp
  qed
  then show "\<forall>p. 284 \<le> p \<and> p < 1024 \<longrightarrow> \<not> pte_present (pagusr_table s (14 * 1024 + p))"
    by (simp add: pte_present_def)
qed

text \<open>A call of \<open>sbrk\<close> that comes back has moved the break.\<close>

lemma sbrk_returned:
  assumes i: "kernel_inv s Q" and n: "idle_task s \<noteq> Some (cur s)" and c: "sys_sbrk incr s = Some (r, s')"
  shows "kernel_inv s' Q \<and> (\<exists>pb. s' = upd_task (cur s) (processBreak_update (\<lambda>_. pb)) s)"
proof -
  have "\<not> sbrk_past_table s incr" using sbrk_past_table_faults [OF i n, of incr] c by auto
  then show ?thesis using sbrk_kernel_inv [OF i n, of incr] c by auto
qed

end
