(* ===== verification/Kernel.thy ===== *)
theory Kernel
  imports Isolation Sample
begin

text \<open>
  The kernel as a transition system over its state: the steps are the interrupt routines, the system
  calls and the stores of the running process. The invariant of \<open>Isolation\<close> holds after the boot and
  is kept by every step, so it holds in every reachable state.
\<close>

section \<open>The kernel as a transition system\<close>

text \<open>
  One step of the machine in kernel terms: an interrupt or the accounting around it, a system call
  of the running process, a reader going on after it was woken, the idle process printing its line, or
  an instruction of the running process that stores a byte in its data pages. \<open>exit\<close> is not a step: it breaks the free queue.
\<close>

inductive kernel_step :: "kstate \<Rightarrow> kstate \<Rightarrow> bool" where
  tick: "clock_rutine draw s = Some s' \<Longrightarrow> kernel_step s s'"
| key: "bit e 7 \<or> unat e < length char_map \<Longrightarrow> buf_wf (keyboardBuff s) \<Longrightarrow> keyboard_rutine e s = Some s' \<Longrightarrow>
    kernel_step s s'"
| entry: "statsEntrySys s = Some s' \<Longrightarrow> kernel_step s s'"
| leave: "statsLeaveSys s = Some s' \<Longrightarrow> kernel_step s s'"
| sem_init: "int_range n \<Longrightarrow> sys_sem_init n v s = Some (r, s') \<Longrightarrow> kernel_step s s'"
| sem_destroy: "sys_sem_destroy n s = Some (r, s') \<Longrightarrow> kernel_step s s'"
| sem_signal: "sys_sem_signal n s = Some (r, s') \<Longrightarrow> kernel_step s s'"
| sem_wait: "idle_task s \<noteq> Some (cur s) \<Longrightarrow> sys_sem_wait n s = Some (out, s') \<Longrightarrow> kernel_step s s'"
| fork: "idle_task s \<noteq> Some (cur s) \<Longrightarrow> sys_fork ebp s = Some (r, s') \<Longrightarrow> kernel_step s s'"
| clone: "idle_task s \<noteq> Some (cur s) \<Longrightarrow> sys_clone ebp fn stack s = Some (r, s') \<Longrightarrow> kernel_step s s'"
| sbrk: "idle_task s \<noteq> Some (cur s) \<Longrightarrow> sys_sbrk incr s = Some (w, s') \<Longrightarrow> kernel_step s s'"
| read: "idle_task s \<noteq> Some (cur s) \<Longrightarrow> int_range c \<Longrightarrow> sys_read fd buf c s = Some (out, s') \<Longrightarrow> kernel_step s s'"
| read_resumed: "idle_task s \<noteq> Some (cur s) \<Longrightarrow> read_keyboard_body buf s = Some (out, s') \<Longrightarrow> kernel_step s s'"
| write_call: "sys_write kbuf fd ubuf c s = Some (r, s') \<Longrightarrow> kernel_step s s'"
| get_stats: "sys_get_stats pid st s = Some (r, s') \<Longrightarrow> kernel_step s s'"
| idle: "idle_task s = Some (cur s) \<Longrightarrow> cpu_idle s = Some s' \<Longrightarrow> kernel_step s s'"
| store: "idle_task s \<noteq> Some (cur s) \<Longrightarrow> i < 20 \<Longrightarrow> k < 4096 \<Longrightarrow>
    kernel_step s (s\<lparr>memory := (memory s)(faddr (frame_of s (cur s) i) k := b)\<rparr>)"

inductive_cases kernel_stepE: "kernel_step s s'"

lemma cpu_idle_io: "cpu_idle s = Some s' \<Longrightarrow> io_only s s'"
  using io_onlyI [where m = "memory s" and b = "keyboardBuff s" and s = s] by (auto simp: cpu_idle_def)

text \<open>A step keeps the invariant and writes no stack of a process that has been started.\<close>

lemma kernel_step_keeps:
  assumes st: "kernel_step s s'" and i: "kernel_inv s Q"
  shows "\<exists>Q'. kernel_inv s' Q' \<and> set (Q' FreeQ) \<subseteq> set (Q FreeQ) \<and>
    (\<forall>u. u \<notin> set (Q FreeQ) \<longrightarrow> kstack s' u = kstack s u)"
    (is "\<exists>Q'. ?P Q'")
proof -
  have k: "kinv s Q" "sem_inv s Q" "quanta_ok s Q" using i by (simp_all add: kernel_inv_def)
  have step: "\<exists>Q'. ?P Q'" if "keeps s Q s'" "mem_step s s'"
  proof -
    have "kstack s' = kstack s" using that(2) by (simp add: mem_step_def mem_frame_def)
    then show ?thesis using keeps_kernel_inv [OF i that] by auto
  qed
  have view: "\<exists>Q'. ?P Q'" if "same_view s s'" "mem_step s s'"
    using step same_view_keeps [OF that(1) k] that(2) by blast
  from st show ?thesis
  proof cases
    case (tick draw)
    then show ?thesis using step clock_rutine_keeps [OF k, of draw] mem_step_clock_rutine by fastforce
  next
    case (key e)
    then show ?thesis using step keyboard_rutine_keeps [OF k key(2,1)] mem_step_keyboard_rutine by fastforce
  next
    case entry
    then have "stats_only s s'" using charge_Some [of user_ticks_update "cur s" s] by (auto simp: statsEntrySys_def)
    then show ?thesis using view same_view_stats mem_step_stats by blast
  next
    case leave
    then have "stats_only s s'" using charge_Some [of system_ticks_update "cur s" s] by (auto simp: statsLeaveSys_def)
    then show ?thesis using view same_view_stats mem_step_stats by blast
  next
    case (sem_init n v r)
    then show ?thesis using step sys_sem_init_keeps [OF k, of n v] mem_step_sem_init by fastforce
  next
    case (sem_destroy n r)
    then show ?thesis using step sys_sem_destroy_keeps [OF k, of n] mem_step_sem_destroy by fastforce
  next
    case (sem_signal n r)
    then show ?thesis using step sys_sem_signal_keeps [OF k, of n] mem_step_sem_signal by fastforce
  next
    case (sem_wait n out)
    then show ?thesis using step sys_sem_wait_keeps [OF k sem_wait(1), of n] mem_step_sem_wait by fastforce
  next
    case (fork ebp r)
    then show ?thesis using fork_kernel_inv [OF i fork(1), of ebp] by (fastforce simp: stacks_kept_def)
  next
    case (clone ebp fn stack r)
    then show ?thesis using clone_kernel_inv [OF i clone(1), of ebp fn stack] by (fastforce simp: stacks_kept_def)
  next
    case (sbrk incr w)
    obtain pb where "s' = upd_task (cur s) (processBreak_update (\<lambda>_. pb)) s" "kernel_inv s' Q"
      using sbrk_returned [OF i sbrk] by blast
    then show ?thesis by (intro exI [of _ Q]) (simp add: upd_task_def)
  next
    case (read fd buf c out)
    then show ?thesis using step sys_read_keeps [OF k read(1,3)] mem_step_sys_read by blast
  next
    case (read_resumed buf out)
    then show ?thesis using step read_keyboard_body_keeps [OF k read_resumed] mem_step_read_keyboard_body by blast
  next
    case (write_call kbuf fd ubuf c r)
    then show ?thesis using view io_only_view sys_write_io mem_step_sys_write by blast
  next
    case (get_stats pid st r)
    then show ?thesis using view io_only_view sys_get_stats_io mem_step_sys_get_stats by blast
  next
    case idle
    then show ?thesis using view io_only_view cpu_idle_io mem_step_io by blast
  next
    case (store i k b)
    then show ?thesis using view io_only_view mem_step_io io_only_simps(2) by blast
  qed
qed

lemma kernel_step_inv: "kernel_step s s' \<Longrightarrow> kernel_inv s Q \<Longrightarrow> \<exists>Q'. kernel_inv s' Q'"
  using kernel_step_keeps by blast

lemma kernel_steps_inv: "kernel_step\<^sup>*\<^sup>* s s' \<Longrightarrow> kernel_inv s Q \<Longrightarrow> \<exists>Q'. kernel_inv s' Q'"
proof (induction rule: rtranclp_induct)
  case base
  then show ?case by blast
next
  case (step s1 s2)
  then show ?case using kernel_step_inv by blast
qed

section \<open>Boot\<close>

text \<open>The tables after \<open>set_user_pages\<close> for directory 1.\<close>

lemma boot_tables_inv:
  assumes u: "set_user_pages 1024 (init_table_pages (\<lambda>_. 0)) (init_frames (\<lambda>_. 0)) = (pagusr_table s, pm)"
    and a: "table_addr_ok (pagusr_addr s)" and d: "dir_pages s = init_dir_pages (pagusr_addr s) (\<lambda>_. 0)"
  shows "tables_inv s"
proof -
  have z: "pagusr_table s k = 0" if "k mod 1024 = 0 \<or> 284 \<le> k mod 1024" for k
  proof -
    have "k < 1280 \<or> 1308 \<le> k"
    proof (rule ccontr)
      assume n: "\<not> (k < 1280 \<or> 1308 \<le> k)"
      then have "k div 1024 = 1" by linarith
      then have "k mod 1024 = k - 1024" by (metis div_mult_mod_eq diff_add_inverse mult_1)
      then show False using that n by linarith
    qed
    then have "pagusr_table s k = (if k div 1024 < 15 then kernel_entry (k mod 1024) else 0)"
      using boot_page_table(5) [OF u] by blast
    then show ?thesis using that by (auto simp: kernel_entry_def)
  qed
  have "pagusr_table s (d * 1024) = 0" for d by (rule z) simp
  moreover have "pagusr_table s (d * 1024 + p) = 0" if "284 \<le> p" "p < 1024" for d p
    by (rule z) (use that in simp)
  ultimately show ?thesis using a d by (simp add: tables_inv_def init_dir_pages_apply)
qed

lemma boot_kernel_inv:
  assumes a: "table_addr_ok a"
  shows "\<exists>s. start_kernel ((reset_state a m clk)\<lparr>con := con0\<rparr>) = Some s \<and> kernel_inv (enter_by_interrupt s) boot_queues"
proof -
  obtain s where k: "start_kernel ((reset_state a m clk)\<lparr>con := con0\<rparr>) = Some s" "boot_facts (enter_by_interrupt s)"
    using start_kernel_establishes [OF a, of con0 m clk] by blast
  obtain s1 where s1: "start_kernel ((reset_state a m clk)\<lparr>con := con0\<rparr>) = Some s1"
    and sm: "\<forall>i<20. sem_state (semaphores s1 i) = FREE_SEM \<and> counter (semaphores s1 i) = 0"
    and c: "tss_esp0 s1 = 13" "msr_esp s1 = 13" "cr3 s1 = Some 1" "idle_task s1 = Some 14"
    and t: "tasks s1 13 = task1_struct"
    and r: "refs_DIR s1 = (\<lambda>_. 0)(0 := 2, 1 := 2)" "pagusr_addr s1 = a" "dir_pages s1 = init_dir_pages a (\<lambda>_. 0)"
    and u: "set_user_pages 1024 (init_table_pages (\<lambda>_. 0)) (init_frames (\<lambda>_. 0)) = (pagusr_table s1, phys_mem s1)"
    and p: "incrementalPID s1 = 2"
    using start_kernel_runs [OF a, of con0 m clk] by blast
  have e: "s1 = s" using s1 k(1) by simp
  let ?s = "enter_by_interrupt s"
  note pt = boot_page_table [OF u, unfolded e]
  have f [simp]: "cur ?s = 13" "tasks ?s = tasks s" "refs_DIR ?s = refs_DIR s" "dir_pages ?s = dir_pages s"
    "pagusr_table ?s = pagusr_table s" "pagusr_addr ?s = pagusr_addr s" "phys_mem ?s = phys_mem s"
    "cr3 ?s = cr3 s" "idle_task ?s = idle_task s" "tss_esp0 ?s = tss_esp0 s" "msr_esp ?s = msr_esp s" "incrementalPID ?s = incrementalPID s" "semaphores ?s = semaphores s"
    using c(1) by (simp_all add: enter_by_interrupt_def e)
  have st: "quantum task1_struct = 15" "PID task1_struct = 1" "dir_pages_baseAddr task1_struct = Some 1"
    "n_directorio task1_struct = 1" "processBreak task1_struct = of_nat HEAP_START"
    by (simp_all add: task1_struct_def zero_task_def)
  have q: "boot_queues FreeQ = rev [0..<13]" "boot_queues ReadyQ = []" "boot_queues KeyQ = []"
    by (simp_all add: boot_queues_def no_queues_def del: upt_rec_numeral)
  have h: "heads ?s = {FreeQ, ReadyQ, KeyQ}" using sm by (auto simp: heads_def e)
  have us: "users ?s boot_queues = {13}"
    using c(4) by (auto simp: users_def active_def h q e simp del: upt_rec_numeral)
  have "tables_inv ?s"
    by (rule boot_tables_inv [where pm = "phys_mem s1"]) (use u a r in \<open>simp_all add: e\<close>)
  moreover have "users_inv ?s {13}"
  proof -
    have "space_of ?s 13 1" using t st r pt(3) by (simp add: space_of_def e)
    moreover have "separate ?s {13}" using t st pt(4) by (simp add: separate_def frame_of_def e)
    moreover have "break_ok (of_nat HEAP_START)" by (simp add: break_ok_def unat_of_nat_u32)
    ultimately show ?thesis using t st p by (auto simp: users_inv_def pids_inv_def e)
  qed
  moreover have "counts_inv ?s (length (boot_queues FreeQ))"
    using r p by (simp add: counts_inv_def q e)
  moreover have "own_space ?s" using c t st by (simp add: own_space_def e)
  ultimately have "kernel_inv ?s boot_queues"
    using k(2) us by (simp add: kernel_inv_def boot_facts_def)
  then show ?thesis using k(1) by blast
qed


text \<open>The sample state: five processes with one directory.\<close>

lemma sample_kernel_inv: "kernel_inv sample sample_queues"
proof -
  have u: "users sample sample_queues = {13, 1, 2, 5, 6}"
    by (auto simp: users_def active_def sample_heads)
  have "tables_inv sample"
    by (rule boot_tables_inv [where pm = "snd sample_memory"]) (simp_all add: sample_table_addr flip: sample_memory_def)
  moreover have "users_inv sample {13, 1, 2, 5, 6}"
  proof -
    have t: "dir_pages_baseAddr (sample_tasks t) = Some 1" "n_directorio (sample_tasks t) = 1"
      "processBreak (sample_tasks t) = of_nat HEAP_START" if "t \<in> {13, 1, 2, 5, 6}" for t
      using that by auto
    have "space_of sample t 1" if "t \<in> {13, 1, 2, 5, 6}" for t
      using t [OF that] sample_pages(1) by (simp add: space_of_def)
    moreover have "separate sample {13, 1, 2, 5, 6}"
    proof (rule separateI)
      fix v w i j
      assume "v \<in> {13, 1, 2, 5, 6}" "w \<in> {13, 1, 2, 5, 6}" "i < 20" "j < 20" "frame_of sample v i = frame_of sample w j"
      then show "n_directorio (tasks sample v) = n_directorio (tasks sample w) \<and> i = j"
        using t(2) sample_pages(2) by (simp add: frame_of_def)
    qed
    moreover have "pids_inv sample {13, 1, 2, 5, 6}" by (simp add: pids_inv_def)
    moreover have "break_ok (of_nat HEAP_START)" by (simp add: break_ok_def unat_of_nat_u32)
    ultimately show ?thesis using t(3) unfolding users_inv_def by auto
  qed
  moreover have "counts_inv sample (length (sample_queues FreeQ))" by (simp add: counts_inv_def)
  moreover have "own_space sample" by (simp add: own_space_def) (simp add: sample_def)
  ultimately show ?thesis
    using sample_kinv sample_sem_inv sample_quanta_ok u by (simp add: kernel_inv_def)
qed

section \<open>What holds in a reachable state\<close>

text \<open>Page 0 is not mapped and no address above the first table is, so no key is the address of a mapped byte.\<close>

lemma kernel_no_key_pages:
  assumes i: "kernel_inv s Q" and n: "idle_task s \<noteq> Some (cur s)"
  shows "no_key_pages (kmmu s)"
proof -
  obtain d where d: "space_of s (cur s) d" using kernel_inv_cur_space [OF i n] by blast
  then have "d < 15" "cr3 s = Some d" using i by (simp_all add: space_of_def kernel_inv_def own_space_def)
  moreover have "table_addr_ok (pagusr_addr s)" "dir_pages s (d * 1024) = dir_entry (pagusr_addr s) d"
    "dir_pages s (d * 1024 + 1023) = 0" "pagusr_table s (d * 1024) = 0"
    using i \<open>d < 15\<close> by (simp_all add: kernel_inv_def tables_inv_def)
  moreover have "kmmu s = mmu_walk (pagusr_addr s) (dir_pages s) (pagusr_table s) d"
    using \<open>cr3 s = Some d\<close> by (simp add: kmmu_def fun_eq_iff)
  ultimately show ?thesis using no_key_pages_walk [of "pagusr_addr s" d "dir_pages s" "pagusr_table s"]
    by (simp add: pte_present_def)
qed

text \<open>The states the machine can get to from the reset.\<close>

definition reachable :: "u32 \<Rightarrow> mem \<Rightarrow> (nat \<Rightarrow> u64) \<Rightarrow> kstate \<Rightarrow> bool" where
  "reachable a m clk s \<longleftrightarrow>
     (\<exists>s0. start_kernel (reset_state a m clk) = Some s0 \<and> kernel_step\<^sup>*\<^sup>* (enter_by_interrupt s0) s)"

lemma reachable_inv: "table_addr_ok a \<Longrightarrow> reachable a m clk s \<Longrightarrow> \<exists>Q. kernel_inv s Q"
  using boot_kernel_inv [of a console_init m clk] kernel_steps_inv by (fastforce simp: reachable_def)

lemma reachable_boot: "table_addr_ok a \<Longrightarrow> \<exists>s. reachable a m clk s \<and> kernel_inv s boot_queues \<and> cur s = 13 \<and>
    idle_task s = Some 14"
proof -
  assume a: "table_addr_ok a"
  obtain s where s: "start_kernel (reset_state a m clk) = Some s" "kernel_inv (enter_by_interrupt s) boot_queues"
    using boot_kernel_inv [OF a, of console_init m clk] by auto
  moreover have "cur (enter_by_interrupt s) = 13 \<and> idle_task (enter_by_interrupt s) = Some 14"
    using start_kernel_establishes [OF a, of console_init m clk] s(1) by (auto simp: boot_facts_def)
  ultimately show ?thesis unfolding reachable_def by blast
qed

lemma data_pages_mapped:
  assumes i: "kernel_inv s Q" and t: "t \<in> users s Q" and x: "j < 20" "l < 4096"
  shows "data_byte s (n_directorio (tasks s t)) j l \<noteq> None"
proof -
  obtain d where "space_of s t d" using users_inv_space [of s "users s Q" t] i t by (auto simp: kernel_inv_def)
  then show ?thesis
    using data_byte_mapped [of s d j l] i x by (auto simp: space_of_def kernel_inv_def tables_inv_def)
qed


text \<open>A store into the data pages of one process is not seen by one with another directory.\<close>

lemma store_not_seen:
  assumes i: "kernel_inv s Q" and t: "t \<in> users s Q" "u \<in> users s Q"
    and d: "n_directorio (tasks s t) \<noteq> n_directorio (tasks s u)"
    and x: "i < 20" "k < 4096" "j < 20" "l < 4096"
  shows "data_byte (s\<lparr>memory := (memory s)(faddr (frame_of s t i) k := b)\<rparr>) (n_directorio (tasks s u)) j l =
    data_byte s (n_directorio (tasks s u)) j l"
proof -
  let ?s = "s\<lparr>memory := (memory s)(faddr (frame_of s t i) k := b)\<rparr>"
  let ?d = "n_directorio (tasks s u)"
  have ui: "users_inv s (users s Q)" and ti: "tables_inv s" using i by (simp_all add: kernel_inv_def)
  have sp: "space_of s v (n_directorio (tasks s v))" if v: "v \<in> users s Q" for v
    using users_inv_space [OF ui v] by (auto simp: space_of_def)
  have f: "frame_of s v y < 1024" if "v \<in> users s Q" "y < 20" for v y
    using sp [OF that(1)] that(2) by (simp add: space_of_def frame_of_def)
  have fr: "frame_of s u j \<noteq> frame_of s t i"
    using separateD(1) [of s "users s Q" t u i j] ui t x d by (auto simp: users_inv_def)
  then have ne: "faddr (frame_of s u j) l \<noteq> faddr (frame_of s t i) k"
    using faddr_inj [of "frame_of s u j" "frame_of s t i" l k] f [OF t(2) x(3)] f [OF t(1) x(1)] x by auto
  have b: "data_byte s' ?d j l = Some (memory s' (faddr (frame_of s u j) l))"
    if "pagusr_addr s' = pagusr_addr s" "dir_pages s' = dir_pages s" "pagusr_table s' = pagusr_table s" for s'
    unfolding frame_of_def
    using data_byte_mapped [of s' ?d j l] sp [OF t(2)] ti that x by (simp add: space_of_def tables_inv_def)
  show ?thesis using b [of ?s] b [of s] ne by simp
qed

end
