(* ===== verification/StepInv.thy ===== *)
theory StepInv
  imports Kernel
begin

text \<open>
  Invariants of the values the kernel computes with, as opposed to those of its data structures: the
  quantum left and the quanta of the tasks stay between 0 and the default, the result a process gets
  from a wait is 0 or -1, and the accounts of a process add up. They follow the same course through the
  kernel, so the locale \<open>step_invariant\<close> states what such an invariant has to satisfy and carries it
  through every routine; the two invariants are its interpretations.
\<close>

section \<open>The variables of type int\<close>

definition task_ints :: "task_struct \<Rightarrow> bool" where
  "task_ints t \<longleftrightarrow> int_range (PID t) \<and> int_range (sem_ret t) \<and> int_range (quantum t) \<and> int_range (readKeys t) \<and>
     int_range (requiredKeys t)"

definition sem_ints :: "semaphore \<Rightarrow> bool" where
  "sem_ints x \<longleftrightarrow> int_range (n_sem x) \<and> int_range (owner x) \<and> int_range (counter x)"

definition well_typed :: "kstate \<Rightarrow> bool" where
  "well_typed s \<longleftrightarrow> (\<forall>t. task_ints (tasks s t)) \<and> (\<forall>i. sem_ints (semaphores s i)) \<and> (\<forall>d. int_range (refs_DIR s d)) \<and>
     int_range (qLeft s) \<and> int_range (incrementalPID s) \<and> int_range (zeos_ticks s)"

text \<open>The accounts and the clock, the quanta and the results of waits are as they were.\<close>

definition same_values :: "kstate \<Rightarrow> kstate \<Rightarrow> bool" where
  "same_values s s' \<longleftrightarrow> (\<forall>t. estadisticas (tasks s' t) = estadisticas (tasks s t) \<and>
       quantum (tasks s' t) = quantum (tasks s t) \<and> sem_ret (tasks s' t) = sem_ret (tasks s t)) \<and>
     tsc s' = tsc s \<and> tsc_reads s' = tsc_reads s \<and> qLeft s' = qLeft s"

lemma int_range_small [simp]: "int_range 0" "int_range 1" "int_range 15" "int_range 16" "int_range (- 1)" "int_range 2"
  by (simp_all add: int_range_def)

declare i32_range [simp] int_range_sint [simp]

text \<open>Updates of single variables.\<close>

named_theorems typed_upds

lemma well_typed_fields [typed_upds]:
  "well_typed s \<Longrightarrow> well_typed (s\<lparr>links := h\<rparr>)" "well_typed s \<Longrightarrow> well_typed (s\<lparr>memory := m\<rparr>)"
  "well_typed s \<Longrightarrow> well_typed (s\<lparr>con := c\<rparr>)" "well_typed s \<Longrightarrow> well_typed (s\<lparr>keyboardBuff := b\<rparr>)"
  "well_typed s \<Longrightarrow> well_typed (s\<lparr>pagusr_table := pt\<rparr>)" "well_typed s \<Longrightarrow> well_typed (s\<lparr>phys_mem := pm\<rparr>)"
  "well_typed s \<Longrightarrow> well_typed (s\<lparr>dir_pages := dp\<rparr>)" "well_typed s \<Longrightarrow> well_typed (s\<lparr>cr3 := cr\<rparr>)"
  "well_typed s \<Longrightarrow> well_typed (s\<lparr>cur := u\<rparr>)" "well_typed s \<Longrightarrow> well_typed (s\<lparr>tss_esp0 := u\<rparr>)"
  "well_typed s \<Longrightarrow> well_typed (s\<lparr>msr_esp := u\<rparr>)" "well_typed s \<Longrightarrow> well_typed (s\<lparr>idle_task := u'\<rparr>)"
  "well_typed s \<Longrightarrow> well_typed (s\<lparr>kstack := k\<rparr>)" "well_typed s \<Longrightarrow> well_typed (s\<lparr>tsc_reads := n\<rparr>)"
  "well_typed s \<Longrightarrow> int_range x \<Longrightarrow> well_typed (s\<lparr>qLeft := x\<rparr>)"
  "well_typed s \<Longrightarrow> int_range x \<Longrightarrow> well_typed (s\<lparr>incrementalPID := x\<rparr>)"
  "well_typed s \<Longrightarrow> int_range x \<Longrightarrow> well_typed (s\<lparr>zeos_ticks := x\<rparr>)"
  "well_typed s \<Longrightarrow> int_range x \<Longrightarrow> well_typed (s\<lparr>refs_DIR := (refs_DIR s)(d := x)\<rparr>)"
  by (simp_all add: well_typed_def)

lemma well_typed_upd_task: "well_typed s \<Longrightarrow> task_ints (f (tasks s t)) \<Longrightarrow> well_typed (upd_task t f s)"
  by (simp add: well_typed_def upd_task_def)

lemma well_typed_upd_sem: "well_typed s \<Longrightarrow> sem_ints (f (semaphores s i)) \<Longrightarrow> well_typed (upd_sem i f s)"
  by (simp add: well_typed_def upd_sem_def)

lemma well_typed_tasks:
  "well_typed s \<Longrightarrow> int_range (PID (tasks s t))" "well_typed s \<Longrightarrow> int_range (quantum (tasks s t))"
  "well_typed s \<Longrightarrow> int_range (incrementalPID s)"
  by (simp_all add: well_typed_def task_ints_def)

section \<open>The page loops\<close>

definition paging_only :: "kstate \<Rightarrow> kstate \<Rightarrow> bool" where
  "paging_only s s' \<longleftrightarrow> (\<exists>m pt pm. s' = s\<lparr>memory := m, pagusr_table := pt, phys_mem := pm\<rparr>)"

lemma paging_onlyI: "s' = s\<lparr>memory := m, pagusr_table := pt, phys_mem := pm\<rparr> \<Longrightarrow> paging_only s s'"
  unfolding paging_only_def by blast

lemma fork_data_pages_paging:
  "fork_data_pages new parent fs i s = Some (ok, s') \<Longrightarrow> paging_only s s'"
proof (induction "NUM_PAG_DATA - i" arbitrary: fs i s)
  case 0
  then have "s' = s" by (simp add: fork_data_pages.simps [of new parent fs i s])
  then show ?case
    using paging_onlyI [where m = "memory s" and pt = "pagusr_table s" and pm = "phys_mem s" and s = s] by simp
next
  case (Suc n)
  then have i: "i < NUM_PAG_DATA" by simp
  note r = Suc.prems [unfolded fork_data_pages.simps [of new parent fs i s]]
  obtain f pm where a: "alloc_frame (phys_mem s) = (f, pm)" by fastforce
  show ?case
  proof (cases "f < 0")
    case True
    then obtain pm' where "s' = s\<lparr>phys_mem := pm'\<rparr>" using r a i by auto
    then show ?thesis using paging_onlyI [where m = "memory s" and pt = "pagusr_table s" and pm = pm' and s = s] by simp
  next
    case False
    obtain m pt where "fork_data_pages new parent (fs @ [f]) (Suc i) (s\<lparr>phys_mem := pm, memory := m, pagusr_table := pt\<rparr>) = Some (ok, s')"
      using r a i False by (auto simp: bind_eq_Some_iff Let_def)
    moreover have "n = NUM_PAG_DATA - Suc i" using Suc.hyps(2) by simp
    ultimately obtain m' pt' pm' where "s' = s\<lparr>phys_mem := pm, memory := m, pagusr_table := pt,
        memory := m', pagusr_table := pt', phys_mem := pm'\<rparr>"
      using Suc.hyps(1) unfolding paging_only_def by blast
    then have "s' = s\<lparr>memory := m', pagusr_table := pt', phys_mem := pm'\<rparr>" by simp
    then show ?thesis by (rule paging_onlyI)
  qed
qed

text \<open>What \<open>sys_fork\<close> does once the pages are copied.\<close>

definition fork_rest :: "nat \<Rightarrow> nat \<Rightarrow> ptr \<Rightarrow> kstate \<Rightarrow> (int \<times> kstate) option" where
  "fork_rest ebp new l s5 =
     do {
       let s6 = s5\<lparr>cr3 := get_DIR s5 (cur s5)\<rparr>;
       let s7 = upd_task new (PID_update (\<lambda>_. incrementalPID s6)) s6;
       let s8 = s7\<lparr>incrementalPID := i32 (incrementalPID s7 + 1)\<rparr>;
       let s9 = upd_task new (estado_update (\<lambda>_. ST_READY)) s8;
       let s10 = upd_stats new init_stats s9;
       let s11 = s10\<lparr>kstack := (kstack s10)(new :=
         (kstack s10 new)(ebp := Code Ret_from_fork, ebp - 1 := Data 0))\<rparr>;
       let s12 = upd_task new (kernel_esp_update (\<lambda>_. StackIx (ebp - 1))) s11;
       h2 \<leftarrow> list_add_tail (links s12) l ReadyQ;
       let s13 = s12\<lparr>links := h2\<rparr>;
       Some (PID (tasks s13 new), s13)
     }"

lemma sys_fork_steps:
  "sys_fork ebp s =
     (if list_empty (links s) FreeQ then Some (- ENOMEM, s)
      else
        do {
          l \<leftarrow> list_first (links s) FreeQ;
          h1 \<leftarrow> list_del (links s) l;
          new \<leftarrow> list_head_to_task_struct l;
          let (r, s2) = allocate_DIR (copy_union (cur s) new (s\<lparr>links := h1\<rparr>)) new;
          if r < 0 then Some (- ENOMEM, s2)
          else
            do {
              pn \<leftarrow> PT_of s2 new;
              pp \<leftarrow> PT_of s2 (cur s2);
              (ok, s5) \<leftarrow> fork_data_pages pn pp [] 0 (s2\<lparr>pagusr_table := share_pages pn pp 1 NUM_PAG_KERNEL (pagusr_table s2),
                pagusr_table := share_pages pn pp PAG_LOG_INIT_CODE NUM_PAG_CODE
                  (pagusr_table (s2\<lparr>pagusr_table := share_pages pn pp 1 NUM_PAG_KERNEL (pagusr_table s2)\<rparr>))\<rparr>);
              if \<not> ok then Some (- ENOMEM, s5) else fork_rest ebp new l s5
            }
        })"
  unfolding sys_fork_def fork_rest_def Let_def ..

section \<open>The locale\<close>

locale step_invariant =
  fixes P :: "kstate \<Rightarrow> bool"
  assumes typed: "P s \<Longrightarrow> well_typed s"
    and kept: "P s \<Longrightarrow> well_typed s' \<Longrightarrow> same_values s s' \<Longrightarrow> P s'"
    and given: "P s \<Longrightarrow> P (upd_task t (quantum_update (\<lambda>_. DEFAULT_QUANTUM)) s)"
    and renewed: "P s \<Longrightarrow> P (s\<lparr>qLeft := quantum (tasks s t)\<rparr>)"
    and counted_down: "P s \<Longrightarrow> 1 \<le> qLeft s \<Longrightarrow> P (s\<lparr>qLeft := i32 (qLeft s - 1)\<rparr>)"
    and answered: "P s \<Longrightarrow> x \<in> {0, - 1} \<Longrightarrow> P (upd_task t (sem_ret_update (\<lambda>_. x)) s)"
    and copied: "P s \<Longrightarrow> P (copy_union a b s)"
    and started: "P s \<Longrightarrow> P (upd_stats t init_stats s)"
    and counted: "P s \<Longrightarrow> P (upd_stats t (total_trans_update g) s)"
    and charged: "P s \<Longrightarrow> f \<in> {user_ticks_update, system_ticks_update, ready_ticks_update} \<Longrightarrow>
      charge f t s = Some s' \<Longrightarrow> P s'"
begin

lemma fields:
  "P s \<Longrightarrow> P (s\<lparr>links := h\<rparr>)" "P s \<Longrightarrow> P (s\<lparr>memory := m\<rparr>)" "P s \<Longrightarrow> P (s\<lparr>con := c\<rparr>)"
  "P s \<Longrightarrow> P (s\<lparr>keyboardBuff := b\<rparr>)" "P s \<Longrightarrow> P (s\<lparr>pagusr_table := pt\<rparr>)" "P s \<Longrightarrow> P (s\<lparr>phys_mem := pm\<rparr>)"
  "P s \<Longrightarrow> P (s\<lparr>dir_pages := dp\<rparr>)" "P s \<Longrightarrow> P (s\<lparr>cr3 := cr\<rparr>)" "P s \<Longrightarrow> P (s\<lparr>cur := u\<rparr>)"
  "P s \<Longrightarrow> P (s\<lparr>tss_esp0 := u\<rparr>)" "P s \<Longrightarrow> P (s\<lparr>msr_esp := u\<rparr>)" "P s \<Longrightarrow> P (s\<lparr>idle_task := u'\<rparr>)"
  "P s \<Longrightarrow> P (s\<lparr>kstack := k\<rparr>)"
  "P s \<Longrightarrow> int_range x \<Longrightarrow> P (s\<lparr>incrementalPID := x\<rparr>)" "P s \<Longrightarrow> int_range x \<Longrightarrow> P (s\<lparr>zeos_ticks := x\<rparr>)"
  by (rule kept, assumption, rule typed_upds, erule typed, (assumption)?, simp add: same_values_def)+

lemma refs: "P s \<Longrightarrow> r = refs_DIR s \<Longrightarrow> int_range x \<Longrightarrow> P (s\<lparr>refs_DIR := r(d := x)\<rparr>)"
  by (rule kept, assumption, simp only:, rule typed_upds, erule typed, assumption, simp add: same_values_def)

lemma task_update:
  assumes "P s" "task_ints (tasks s t) \<Longrightarrow> task_ints (f (tasks s t))" "\<And>x. estadisticas (f x) = estadisticas x"
    "\<And>x. quantum (f x) = quantum x" "\<And>x. sem_ret (f x) = sem_ret x"
  shows "P (upd_task t f s)"
proof -
  have "task_ints (tasks s t)" using typed [OF assms(1)] by (simp add: well_typed_def)
  then have "well_typed (upd_task t f s)" using well_typed_upd_task [OF typed] assms(1,2) by blast
  then show ?thesis using kept [OF assms(1)] assms(3-5) by (simp add: same_values_def upd_task_def)
qed

lemma task_fields:
  "P s \<Longrightarrow> P (upd_task t (estado_update e) s)" "P s \<Longrightarrow> P (upd_task t (kernel_esp_update k) s)"
  "P s \<Longrightarrow> P (upd_task t (dir_pages_baseAddr_update d) s)" "P s \<Longrightarrow> P (upd_task t (n_directorio_update n) s)"
  "P s \<Longrightarrow> P (upd_task t (processBreak_update b) s)"
  "P s \<Longrightarrow> int_range x \<Longrightarrow> P (upd_task t (PID_update (\<lambda>_. x)) s)"
  "P s \<Longrightarrow> int_range x \<Longrightarrow> P (upd_task t (requiredKeys_update (\<lambda>_. x)) s)"
  "P s \<Longrightarrow> (\<And>r. int_range (g r)) \<Longrightarrow> P (upd_task t (readKeys_update g) s)"
  by (rule task_update; simp add: task_ints_def)+

lemma sem_update:
  assumes "P s" "sem_ints (semaphores s i) \<Longrightarrow> sem_ints (f (semaphores s i))"
  shows "P (upd_sem i f s)"
proof -
  have "sem_ints (semaphores s i)" using typed [OF assms(1)] by (simp add: well_typed_def)
  then have "well_typed (upd_sem i f s)" using well_typed_upd_sem [OF typed] assms by blast
  then show ?thesis using kept [OF assms(1)] by (simp add: same_values_def upd_sem_def)
qed

lemma sem_fields:
  "P s \<Longrightarrow> P (upd_sem i (sem_state_update e) s)"
  "P s \<Longrightarrow> int_range x \<Longrightarrow> P (upd_sem i (n_sem_update (\<lambda>_. x)) s)"
  "P s \<Longrightarrow> int_range x \<Longrightarrow> P (upd_sem i (owner_update (\<lambda>_. x)) s)"
  "P s \<Longrightarrow> (\<And>c. int_range (g c)) \<Longrightarrow> P (upd_sem i (counter_update g) s)"
  by (rule sem_update; simp add: sem_ints_def)+

lemmas updates = fields refs task_fields sem_fields given renewed answered

text \<open>The scheduler.\<close>

lemma process_state: "P s \<Longrightarrow> update_process_state_rr t q s = Some s' \<Longrightarrow> P s'"
  by (erule process_state_shape) (simp add: updates)

lemma switch: "P s \<Longrightarrow> P (task_switch k t s)"
  unfolding task_switch_def inner_task_switch_def Let_def by (intro updates)

lemma io: "P s \<Longrightarrow> io_only s s' \<Longrightarrow> P s'"
  unfolding io_only_def by (elim exE) (simp add: updates)

lemma sched_next:
  assumes "P s" "sched_next_rr k s = Some s'"
  shows "P s'"
proof (cases "list_empty (links s) ReadyQ")
  case True
  then show ?thesis using assms switch by (auto simp: sched_next_rr_def bind_eq_Some_iff)
next
  case False
  then obtain t s2 s3 s5 where "charge system_ticks_update t (s\<lparr>qLeft := get_quantum s t\<rparr>) = Some s2"
      "charge ready_ticks_update t s2 = Some s3"
      "update_process_state_rr t None (upd_stats t (total_trans_update (\<lambda>v. v + 1)) s3) = Some s5"
      "s' = task_switch k t s5"
    using assms(2) by (auto simp: sched_next_rr_def bind_eq_Some_iff Let_def)
  note step = this
  have "P (s\<lparr>qLeft := get_quantum s t\<rparr>)" using renewed [OF assms(1)] by (simp add: get_quantum_def)
  from charged [OF this _ step(1)] have "P s2" by simp
  from charged [OF this _ step(2)] have "P s3" by simp
  from process_state [OF counted [OF this] step(3)] show ?thesis by (simp add: step(4) switch)
qed

lemma exit_run: "P s \<Longrightarrow> exitRunCurrent q s = Some s' \<Longrightarrow> P s'"
  unfolding exitRunCurrent_def bind_eq_Some_iff using charged [of s system_ticks_update "cur s"] process_state by blast

lemma scheduled:
  assumes "P s" "1 \<le> qLeft s" "schedule s = Some s'"
  shows "P s'"
proof -
  obtain r s2 where n: "needs_sched_rr (update_sched_data_rr s) = (r, s2)" by fastforce
  have 1: "P (update_sched_data_rr s)" unfolding update_sched_data_rr_def using counted_down [OF assms(1,2)] .
  let ?s1 = "upd_stats (cur (update_sched_data_rr s)) (total_trans_update (\<lambda>v. v + 1)) (update_sched_data_rr s)"
  have "s2 = update_sched_data_rr s \<or> s2 = ?s1\<lparr>qLeft := get_quantum ?s1 (cur ?s1)\<rparr>"
    using n unfolding needs_sched_rr_def Let_def by (simp split: if_splits)
  moreover have "P (?s1\<lparr>qLeft := get_quantum ?s1 (cur ?s1)\<rparr>)" using renewed [OF counted [OF 1]] by (simp add: get_quantum_def)
  ultimately have 2: "P s2" using 1 by blast
  consider "s' = s2" | s3 where "exitRunCurrent ReadyQ s2 = Some s3" "sched_next_rr K_schedule s3 = Some s'"
    using assms(3) n by (auto simp: schedule_def bind_eq_Some_iff split: if_splits)
  then show ?thesis using exit_run [OF 2] sched_next 2 by cases blast+
qed

lemma ticked: "P s \<Longrightarrow> 1 \<le> qLeft s \<Longrightarrow> clock_rutine draw s = Some s' \<Longrightarrow> P s'"
  unfolding clock_rutine_def Let_def by (rule scheduled) (simp_all add: updates)

lemma key_pressed:
  assumes "P s" "keyboard_rutine e s = Some s'"
  shows "P s'"
proof -
  have io: "P (s\<lparr>con := c, keyboardBuff := b\<rparr>)" for c b using assms(1) by (intro updates)
  from assms(2) show ?thesis
    by (cases rule: keyboard_rutine_shape) (use assms(1) io process_state [OF io] in simp_all)
qed

text \<open>Semaphores.\<close>

lemma unblocked:
  assumes "P s" "unblock_all i s = Some s'"
  shows "P s'"
proof -
  have "P s \<longrightarrow> P s'"
  proof (rule unblock_all.raw_induct [where P = "\<lambda>_ s s'. P s \<longrightarrow> P s'", OF _ assms(2)])
    fix rec i s r
    assume 1: "\<And>i s s'. rec i s = Some s' \<Longrightarrow> P s \<longrightarrow> P s'"
      "(if \<not> list_empty (links s) (SemQ i) then
          do {
            l \<leftarrow> list_first (links s) (SemQ i);
            t \<leftarrow> list_head_to_task_struct l;
            let s1 = upd_task t (sem_ret_update (\<lambda>_. - 1)) s;
            s2 \<leftarrow> update_process_state_rr t (Some ReadyQ) s1;
            rec i s2
          }
        else Some s) = Some r"
    show "P s \<longrightarrow> P r"
    proof (cases "list_empty (links s) (SemQ i)")
      case True
      then show ?thesis using 1(2) by simp
    next
      case False
      then obtain t s2 where "update_process_state_rr t (Some ReadyQ) (upd_task t (sem_ret_update (\<lambda>_. - 1)) s) = Some s2"
        "rec i s2 = Some r"
        using 1(2) by (auto simp: bind_eq_Some_iff Let_def)
      note run = this
      show ?thesis
      proof
        assume "P s"
        then have "P (upd_task t (sem_ret_update (\<lambda>_. - 1)) s)" by (intro updates) simp_all
        then show "P r" using process_state [OF _ run(1)] 1(1) [OF run(2)] by blast
      qed
    qed
  qed
  then show ?thesis using assms(1) by blast
qed

lemma sem_inited: "P s \<Longrightarrow> int_range n \<Longrightarrow> sys_sem_init n v s = Some (r, s') \<Longrightarrow> P s'"
  unfolding sys_sem_init_def Let_def
  by (auto split: if_splits intro!: updates well_typed_tasks(1) typed)

lemma sem_destroyed: "P s \<Longrightarrow> sys_sem_destroy n s = Some (r, s') \<Longrightarrow> P s'"
  unfolding sys_sem_destroy_def Let_def
  by (auto simp: bind_eq_Some_iff split: if_splits intro!: updates intro: unblocked)

lemma sem_signalled: "P s \<Longrightarrow> sys_sem_signal n s = Some (r, s') \<Longrightarrow> P s'"
  unfolding sys_sem_signal_def Let_def
  by (auto simp: bind_eq_Some_iff split: if_splits intro!: updates intro: process_state)

lemma sem_waited:
  assumes "P s" "sys_sem_wait n s = Some (out, s')"
  shows "P s'"
proof -
  let ?s = "upd_task (cur s) (sem_ret_update (\<lambda>_. 0)) s"
  have s: "P ?s" using assms(1) by (intro updates) simp_all
  consider "s' = s" | s2 q where "exitRunCurrent q ?s = Some s2" "sched_next_rr K_sem_wait s2 = Some s'"
    | i where "s' = upd_sem i (counter_update (\<lambda>c. i32 (c - 1))) ?s"
    using assms(2) unfolding sys_sem_wait_def Let_def by (auto simp: bind_eq_Some_iff split: if_splits)
  then show ?thesis
  proof cases
    case 2
    then show ?thesis using exit_run [OF s] sched_next by blast
  qed (use assms(1) s in \<open>simp_all add: updates\<close>)
qed

text \<open>Processes.\<close>

lemma allocated: "P s \<Longrightarrow> allocate_DIR_from i s p = (r, s') \<Longrightarrow> P s'"
proof (induction i s p rule: allocate_DIR_from.induct)
  case (1 i s p)
  show ?case
    using "1.prems" "1.IH" unfolding allocate_DIR_from.simps [of i s p]
    by (auto simp: Let_def split: if_splits intro!: updates)
qed

lemma paging: "P s \<Longrightarrow> paging_only s s' \<Longrightarrow> P s'"
  unfolding paging_only_def by (elim exE) (simp add: updates)

lemma fork_finished: "P s \<Longrightarrow> fork_rest ebp new l s = Some (r, s') \<Longrightarrow> P s'"
  unfolding fork_rest_def Let_def
  by (auto simp: bind_eq_Some_iff intro!: updates started well_typed_tasks(3) typed)

lemma forked:
  assumes p: "P s" and f: "sys_fork ebp s = Some (r, s')"
  shows "P s'"
proof (cases "list_empty (links s) FreeQ")
  case True
  then show ?thesis using p f by (simp add: sys_fork_def)
next
  case False
  then obtain l h1 new where h: "list_first (links s) FreeQ = Some l" "list_del (links s) l = Some h1"
    "list_head_to_task_struct l = Some new"
    using f by (auto simp: sys_fork_def bind_eq_Some_iff)
  obtain a s2 where a: "allocate_DIR_from 0 (copy_union (cur s) new (s\<lparr>links := h1\<rparr>)) new = (a, s2)" by fastforce
  have f: "(if a < 0 then Some (- ENOMEM, s2)
      else do {
        pn \<leftarrow> PT_of s2 new;
        pp \<leftarrow> PT_of s2 (cur s2);
        (ok, s5) \<leftarrow> fork_data_pages pn pp [] 0 (s2\<lparr>pagusr_table := share_pages pn pp 1 NUM_PAG_KERNEL (pagusr_table s2),
          pagusr_table := share_pages pn pp PAG_LOG_INIT_CODE NUM_PAG_CODE
            (pagusr_table (s2\<lparr>pagusr_table := share_pages pn pp 1 NUM_PAG_KERNEL (pagusr_table s2)\<rparr>))\<rparr>);
        if \<not> ok then Some (- ENOMEM, s5) else fork_rest ebp new l s5 }) = Some (r, s')"
    using f unfolding sys_fork_steps allocate_DIR_def if_not_P [OF False] h bind.bind_lunit a Let_def prod.case .
  have "P (copy_union (cur s) new (s\<lparr>links := h1\<rparr>))" using p by (intro copied updates)
  from allocated [OF this a] have p2: "P s2" .
  show ?thesis
  proof (cases "a < 0")
    case True
    then show ?thesis using f p2 by simp
  next
    case False
    obtain pn pp pt ok s5 where d: "fork_data_pages pn pp [] 0 (s2\<lparr>pagusr_table := pt\<rparr>) = Some (ok, s5)"
      and r: "(if \<not> ok then Some (- ENOMEM, s5) else fork_rest ebp new l s5) = Some (r, s')"
      using f False by (auto simp: bind_eq_Some_iff)
    have "P (s2\<lparr>pagusr_table := pt\<rparr>)" using p2 by (intro updates)
    from paging [OF this fork_data_pages_paging [OF d]] have "P s5" .
    then show ?thesis using r fork_finished by (cases ok) auto
  qed
qed

lemma cloned:
  assumes p: "P s" and c: "sys_clone ebp fn stack s = Some (r, s')"
  shows "P s'"
  using assms unfolding sys_clone_def Let_def
  by (auto simp: bind_eq_Some_iff split: if_splits intro!: updates started copied well_typed_tasks(3) typed)

text \<open>Input.\<close>

lemma keys_read:
  assumes "P s" "read_keys n buff s = Some (b, s1)"
  shows "P (upd_task (cur s1) (readKeys_update (\<lambda>r. i32 (r + k))) s1)"
  using io [OF assms(1) read_keys_io [OF assms(2)]] by (intro updates) simp_all

lemma keyboard_blocked:
  assumes "P s" "block_on_keyboard buff s = Some (out, s')"
  shows "P s'"
proof -
  obtain h where h: "sched_next_rr (K_read buff) (upd_task (cur s) (estado_update (\<lambda>_. ST_BLOCKED)) (s\<lparr>links := h\<rparr>)) = Some s'"
    using assms(2) by (auto simp: block_on_keyboard_def bind_eq_Some_iff Let_def)
  have "P (upd_task (cur s) (estado_update (\<lambda>_. ST_BLOCKED)) (s\<lparr>links := h\<rparr>))" using assms(1) by (intro updates)
  from sched_next [OF this h] show ?thesis .
qed

lemma reader_resumed:
  assumes p: "P s" and r: "read_keyboard_body buff s = Some (out, s')"
  shows "P s'"
proof -
  consider n b s1 k where "read_keys n buff s = Some (b, s1)" "s' = upd_task (cur s1) (readKeys_update (\<lambda>r. i32 (r + k))) s1"
    | n b s1 k where "read_keys n buff s = Some (b, s1)"
        "block_on_keyboard b (upd_task (cur s1) (readKeys_update (\<lambda>r. i32 (r + k))) s1) = Some (out, s')"
    | "block_on_keyboard buff s = Some (out, s')"
    using r unfolding read_keyboard_body_def Let_def by (auto simp: bind_eq_Some_iff split: if_splits)
  then show ?thesis
  proof cases
    case 1
    show ?thesis unfolding 1(2) by (rule keys_read [OF p 1(1)])
  next
    case 2
    show ?thesis by (rule keyboard_blocked [OF keys_read [OF p 2(1)] 2(2)])
  next
    case 3
    show ?thesis by (rule keyboard_blocked [OF p 3])
  qed
qed

lemma keyboard_read:
  assumes p: "P s" and n: "int_range n" and r: "sys_read_keyboard buff n s = Some (out, s')"
  shows "P s'"
proof -
  let ?s = "upd_task (cur s) (requiredKeys_update (\<lambda>_. n)) (upd_task (cur s) (readKeys_update (\<lambda>_. 0)) s)"
  have s: "P ?s" using p n by (intro updates) simp_all
  consider s3 where "update_process_state_rr (cur s) (Some KeyQ) ?s = Some s3" "sched_next_rr (K_read buff) s3 = Some s'"
    | "read_keyboard_body buff ?s = Some (out, s')"
    using r unfolding sys_read_keyboard_def Let_def by (auto simp: bind_eq_Some_iff split: if_splits)
  then show ?thesis
  proof cases
    case 1
    show ?thesis by (rule sched_next [OF process_state [OF s 1(1)] 1(2)])
  next
    case 2
    show ?thesis by (rule reader_resumed [OF s 2])
  qed
qed

lemma read_done: "P s \<Longrightarrow> int_range n \<Longrightarrow> sys_read fd buf n s = Some (out, s') \<Longrightarrow> P s'"
  unfolding sys_read_def using keyboard_read by (auto split: if_splits)

text \<open>Every step of the kernel.\<close>

lemma stepped:
  assumes st: "kernel_step s s'" and p: "P s" and i: "kernel_inv s Q"
  shows "P s'"
  using st
proof cases
  case (sbrk incr w)
  obtain pb where "s' = upd_task (cur s) (processBreak_update (\<lambda>_. pb)) s"
    using sbrk_returned [OF i sbrk] by blast
  then show ?thesis using p by (simp add: updates)
next
  case entry
  then show ?thesis using charged [OF p, of user_ticks_update] by (simp add: statsEntrySys_def)
next
  case leave
  then show ?thesis using charged [OF p, of system_ticks_update] by (simp add: statsLeaveSys_def)
next
  case (store i k b)
  then show ?thesis using p by (simp add: updates)
next
  case idle
  show ?thesis by (rule io [OF p cpu_idle_io [OF idle(2)]])
next
  case (tick draw)
  have "1 \<le> qLeft s" using i by (simp add: kernel_inv_def quanta_ok_def)
  from ticked [OF p this tick] show ?thesis .
next
  case (key e)
  show ?thesis by (rule key_pressed [OF p key(3)])
next
  case (sem_init n v r)
  show ?thesis by (rule sem_inited [OF p sem_init])
next
  case (sem_destroy n r)
  show ?thesis by (rule sem_destroyed [OF p sem_destroy])
next
  case (sem_signal n r)
  show ?thesis by (rule sem_signalled [OF p sem_signal])
next
  case (sem_wait n out)
  show ?thesis by (rule sem_waited [OF p sem_wait(2)])
next
  case (fork ebp r)
  show ?thesis by (rule forked [OF p fork(2)])
next
  case (clone ebp fn stack r)
  show ?thesis by (rule cloned [OF p clone(2)])
next
  case (read fd buf c out)
  show ?thesis by (rule read_done [OF p read(2,3)])
next
  case (read_resumed buf out)
  show ?thesis by (rule reader_resumed [OF p read_resumed(2)])
next
  case (write_call kbuf fd ubuf c r)
  show ?thesis by (rule io [OF p sys_write_io [OF write_call]])
next
  case (get_stats pid st r)
  show ?thesis by (rule io [OF p sys_get_stats_io [OF get_stats]])
qed

lemma all_steps:
  assumes "kernel_step\<^sup>*\<^sup>* s s'" "P s" "kernel_inv s Q"
  shows "P s'"
proof -
  have "P s' \<and> (\<exists>Q. kernel_inv s' Q)"
    using assms(1)
  proof (induction rule: rtranclp_induct)
    case base
    then show ?case using assms by blast
  next
    case (step s1 s2)
    then show ?case using stepped kernel_step_inv by blast
  qed
  then show ?thesis by blast
qed

text \<open>The start of the kernel.\<close>

lemma mm_started: "P s \<Longrightarrow> P (init_mm s)"
  unfolding init_mm_def Let_def allocate_DIR_def
  by (auto split: prod.split intro!: updates elim!: allocated [rotated])

lemma free_tasks: "P s \<Longrightarrow> init_free_tasks is s = Some s' \<Longrightarrow> P s'"
proof (induction "is" arbitrary: s)
  case Nil
  then show ?case by simp
next
  case (Cons i "is")
  then obtain h where h: "init_free_tasks is ((upd_task i (PID_update (\<lambda>_. - 1)) s)\<lparr>links := h\<rparr>) = Some s'"
    by (auto simp: bind_eq_Some_iff Let_def)
  have "P ((upd_task i (PID_update (\<lambda>_. - 1)) s)\<lparr>links := h\<rparr>)" using Cons.prems(1) by (intro updates) simp_all
  then show ?case using Cons.IH h by blast
qed

lemma refs_cleared: "P s \<Longrightarrow> P (s\<lparr>refs_DIR := foldl (\<lambda>r i. r(i := 0)) (refs_DIR s) is\<rparr>)"
proof -
  assume p: "P s"
  have "foldl (\<lambda>r i. r(i := 0)) r is d = (if d \<in> set is then 0 else r d)" for r :: "nat \<Rightarrow> int" and d
    by (induction "is" arbitrary: r) auto
  then have w: "well_typed (s\<lparr>refs_DIR := foldl (\<lambda>r i. r(i := 0)) (refs_DIR s) is\<rparr>)"
    using typed [OF p] by (simp add: well_typed_def)
  show ?thesis by (rule kept [OF p w]) (simp add: same_values_def)
qed

lemma sems_cleared: "P s \<Longrightarrow> P (foldl (\<lambda>s i. upd_sem i (\<lambda>x. x\<lparr>counter := 0, sem_state := FREE_SEM\<rparr>) s) s is)"
proof (induction "is" arbitrary: s)
  case (Cons i "is")
  have "P (upd_sem i (\<lambda>x. x\<lparr>counter := 0, sem_state := FREE_SEM\<rparr>) s)"
    using Cons.prems by (rule sem_update) (simp add: sem_ints_def)
  then show ?case using Cons.IH by simp
qed simp

lemma sched_started:
  assumes p: "P s" and i: "init_sched s = Some s'"
  shows "P s'"
proof -
  let ?s2 = "s\<lparr>links := INIT_LIST_HEAD (INIT_LIST_HEAD (links s) KeyQ) FreeQ\<rparr>"
  obtain s3 where s3: "init_free_tasks [0..<NR_TASKS] ?s2 = Some s3"
    and s': "s' = foldl (\<lambda>s i. upd_sem i (\<lambda>x. x\<lparr>counter := 0, sem_state := FREE_SEM\<rparr>) s)
      (s3\<lparr>links := INIT_LIST_HEAD (links s3) ReadyQ, refs_DIR :=
        foldl (\<lambda>r i. r(i := 0)) (refs_DIR (s3\<lparr>links := INIT_LIST_HEAD (links s3) ReadyQ\<rparr>)) [0..<NR_TASKS]\<rparr>) [0..<20]"
    using i unfolding init_sched_def Let_def by (auto simp: bind_eq_Some_iff simp del: upt_rec_numeral)
  have "P ?s2" using p by (intro updates)
  from free_tasks [OF this s3] have "P (s3\<lparr>links := INIT_LIST_HEAD (links s3) ReadyQ\<rparr>)" by (intro updates)
  then show ?thesis unfolding s' by (intro sems_cleared refs_cleared)
qed

lemma refs_incremented: "P s \<Longrightarrow> P (incr_refs t s)"
  unfolding incr_refs_def Let_def by (intro updates) simp_all

lemma idle_started:
  assumes p: "P s" and i: "init_idle s = Some s'"
  shows "P s'"
proof -
  obtain l h ts where l: "list_first (links s) FreeQ = Some l" "list_del (links s) l = Some h"
    "list_head_to_task_struct l = Some ts"
    using i by (auto simp: init_idle_def bind_eq_Some_iff)
  let ?s4 = "upd_stats ts init_stats (upd_task ts (quantum_update (\<lambda>_. DEFAULT_QUANTUM))
      (upd_task ts (PID_update (\<lambda>_. 0)) (s\<lparr>links := h\<rparr>)))"
  obtain a s5 where a: "allocate_DIR_from 0 ?s4 ts = (a, s5)" by fastforce
  have "P ?s4" using p by (intro started updates) simp_all
  from allocated [OF this a] have r: "P (incr_refs ts s5)" by (rule refs_incremented)
  show ?thesis
    using i [unfolded init_idle_def Let_def allocate_DIR_def l bind.bind_lunit a prod.case] r
    by (auto intro!: updates)
qed

lemma task1_started:
  assumes p: "P s" and i: "init_task1 s = Some s'"
  shows "P s'"
proof -
  obtain l h ts where l: "list_first (links s) FreeQ = Some l" "list_del (links s) l = Some h"
    "list_head_to_task_struct l = Some ts"
    using i by (auto simp: init_task1_def bind_eq_Some_iff)
  let ?s5 = "upd_task ts (processBreak_update (\<lambda>_. of_nat HEAP_START)) (upd_task ts (estado_update (\<lambda>_. ST_RUN))
      (upd_task ts (quantum_update (\<lambda>_. DEFAULT_QUANTUM)) (upd_task ts (PID_update (\<lambda>_. 1)) (s\<lparr>links := h\<rparr>))))"
  let ?s7 = "upd_stats ts init_stats (?s5\<lparr>qLeft := quantum (tasks ?s5 ts)\<rparr>)"
  obtain a s8 where a: "allocate_DIR_from 0 ?s7 ts = (a, s8)" by fastforce
  have s5: "P ?s5" using p by (intro updates) simp_all
  from started [OF renewed [OF s5]] have "P ?s7" .
  from allocated [OF this a] have r: "P (incr_refs ts s8)" by (rule refs_incremented)
  obtain PT where PT: "PT_of (incr_refs ts s8) ts = Some PT"
    using i [unfolded init_task1_def Let_def allocate_DIR_def l bind.bind_lunit a prod.case] by (auto simp: bind_eq_Some_iff)
  obtain pt pm where u: "set_user_pages PT (pagusr_table (incr_refs ts s8)) (phys_mem (incr_refs ts s8)) = (pt, pm)"
    by fastforce
  show ?thesis
    using i [unfolded init_task1_def Let_def allocate_DIR_def l bind.bind_lunit a prod.case PT u] r
    by (auto intro!: updates)
qed

lemma kernel_started: "P s \<Longrightarrow> start_kernel s = Some s' \<Longrightarrow> P s'"
  unfolding start_kernel_def Let_def bind_eq_Some_iff
  using mm_started sched_started idle_started task1_started by blast

lemma reached:
  assumes "table_addr_ok a" "reachable a m clk s" "P (reset_state a m clk)"
  shows "P s"
proof -
  obtain s0 where s0: "start_kernel (reset_state a m clk) = Some s0" "kernel_step\<^sup>*\<^sup>* (enter_by_interrupt s0) s"
    using assms(2) by (auto simp: reachable_def)
  have "kernel_inv (enter_by_interrupt s0) boot_queues"
    using boot_kernel_inv [OF assms(1), of console_init m clk] s0(1) by auto
  moreover have "P (enter_by_interrupt s0)"
    using kernel_started [OF assms(3) s0(1)] unfolding enter_by_interrupt_def by (intro updates)
  ultimately show ?thesis using all_steps s0(2) by blast
qed

end

section \<open>Quanta and results of waits\<close>

lemma init_stats_ints: "task_ints (estadisticas_update f t) = task_ints t"
  by (simp add: task_ints_def)

lemma well_typed_stats: "well_typed s \<Longrightarrow> well_typed (upd_stats t f s)"
  unfolding upd_stats_def by (rule well_typed_upd_task) (simp_all add: init_stats_ints well_typed_def)

lemma charge_steps:
  obtains now now' where "get_ticks (tsc s (tsc_reads s)) = Some now" "get_ticks (tsc s (Suc (tsc_reads s))) = Some now'"
    "charge f t s = Some (upd_stats t (elapsed_total_ticks_update (\<lambda>_. now'))
      ((upd_stats t (f (\<lambda>v. v + (now - elapsed_total_ticks (estadisticas (tasks s t))))) s)
        \<lparr>tsc_reads := Suc (Suc (tsc_reads s))\<rparr>))"
proof -
  obtain now where n: "get_ticks (tsc s (tsc_reads s)) = Some now" using get_ticks_correct by blast
  obtain now' where n': "get_ticks (tsc s (Suc (tsc_reads s))) = Some now'" using get_ticks_correct by blast
  show ?thesis by (rule that [OF n n']) (simp add: charge_def read_ticks_def n n' upd_stats_def upd_task_def)
qed

lemma well_typed_charge: "well_typed s \<Longrightarrow> charge f t s = Some s' \<Longrightarrow> well_typed s'"
  by (rule charge_steps [of s f t]) (auto intro!: well_typed_stats typed_upds)

lemma well_typed_copy: "well_typed s \<Longrightarrow> well_typed (copy_union a b s)"
  by (simp add: well_typed_def copy_union_def)

lemma well_typed_values:
  "well_typed s \<Longrightarrow> well_typed (upd_task t (quantum_update (\<lambda>_. DEFAULT_QUANTUM)) s)"
  "well_typed s \<Longrightarrow> well_typed (s\<lparr>qLeft := quantum (tasks s t)\<rparr>)"
  "well_typed s \<Longrightarrow> well_typed (s\<lparr>qLeft := i32 x\<rparr>)"
  "well_typed s \<Longrightarrow> y \<in> {0, - 1} \<Longrightarrow> well_typed (upd_task t (sem_ret_update (\<lambda>_. y)) s)"
  by (auto simp: well_typed_def upd_task_def task_ints_def)

definition values_ok :: "kstate \<Rightarrow> bool" where
  "values_ok s \<longleftrightarrow> well_typed s \<and> 0 \<le> qLeft s \<and> qLeft s \<le> DEFAULT_QUANTUM \<and>
     (\<forall>t. quantum (tasks s t) \<in> {0, DEFAULT_QUANTUM} \<and> sem_ret (tasks s t) \<in> {0, - 1})"

lemma values_quantum:
  "values_ok s \<Longrightarrow> 0 \<le> quantum (tasks s t) \<and> quantum (tasks s t) \<le> DEFAULT_QUANTUM"
  "values_ok s \<Longrightarrow> 1 \<le> quantum (tasks s t) \<Longrightarrow> quantum (tasks s t) = DEFAULT_QUANTUM"
  unfolding values_ok_def by (elim conjE allE [of _ t]; auto)+

lemma values_charge:
  assumes v: "values_ok s" and c: "charge f t s = Some s'"
  shows "values_ok s'"
proof -
  have "well_typed s'" using well_typed_charge [OF _ c] v by (simp add: values_ok_def)
  moreover have "qLeft s' = qLeft s \<and> quantum (tasks s' u) = quantum (tasks s u) \<and> sem_ret (tasks s' u) = sem_ret (tasks s u)" for u
    by (rule charge_steps [of s f t]) (use c in \<open>auto simp: upd_stats_def upd_task_def\<close>)
  ultimately show ?thesis using v by (simp add: values_ok_def)
qed

interpretation ranges: step_invariant values_ok
proof
  show "values_ok s \<Longrightarrow> well_typed s" for s by (simp add: values_ok_def)
  show "values_ok s \<Longrightarrow> well_typed s' \<Longrightarrow> same_values s s' \<Longrightarrow> values_ok s'" for s s'
    by (simp add: values_ok_def same_values_def)
  show "values_ok s \<Longrightarrow> values_ok (upd_task t (quantum_update (\<lambda>_. DEFAULT_QUANTUM)) s)" for s t
    using well_typed_values(1) [of s t] unfolding values_ok_def by (simp add: upd_task_def)
  show "values_ok s \<Longrightarrow> values_ok (s\<lparr>qLeft := quantum (tasks s t)\<rparr>)" for s t
    using well_typed_values(2) [of s t] values_quantum(1) [of s t] by (simp add: values_ok_def)
  show "values_ok s \<Longrightarrow> 1 \<le> qLeft s \<Longrightarrow> values_ok (s\<lparr>qLeft := i32 (qLeft s - 1)\<rparr>)" for s
    using well_typed_values(3) [of s "qLeft s - 1"] by (simp add: values_ok_def i32_id int_range_def)
  show "values_ok s \<Longrightarrow> x \<in> {0, - 1} \<Longrightarrow> values_ok (upd_task t (sem_ret_update (\<lambda>_. x)) s)" for s x t
    using well_typed_values(4) [of s x t] unfolding values_ok_def by (simp add: upd_task_def)
  show "values_ok s \<Longrightarrow> values_ok (copy_union a b s)" for a b s
    using well_typed_copy by (auto simp: values_ok_def copy_union_def)
  show "values_ok s \<Longrightarrow> values_ok (upd_stats t init_stats s)" for s t
    using well_typed_stats [of s t init_stats] unfolding values_ok_def by (simp add: upd_stats_def upd_task_def)
  show "values_ok s \<Longrightarrow> values_ok (upd_stats t (total_trans_update g) s)" for s t g
    using well_typed_stats [of s t "total_trans_update g"] unfolding values_ok_def
    by (simp add: upd_stats_def upd_task_def)
qed (rule values_charge)

lemma reached_values:
  assumes a: "table_addr_ok a" and r: "reachable a m clk s"
  shows "values_ok s"
  by (rule ranges.reached [OF a r])
    (simp add: values_ok_def well_typed_def reset_state_def task_ints_def sem_ints_def zero_task_def)

section \<open>The accounts\<close>

text \<open>
  The accounting code reads the clock twice for one charge. When the two reads give the same tick, no
  time is lost in between, and the accounts of a process add up to the time of its last charge.
\<close>

definition reads_agree :: "(nat \<Rightarrow> u64) \<Rightarrow> bool" where
  "reads_agree clk \<longleftrightarrow> (\<forall>n. get_ticks (clk (2 * n)) = get_ticks (clk (Suc (2 * n))))"

definition balanced :: "stats \<Rightarrow> bool" where
  "balanced st \<longleftrightarrow> blocked_ticks st = 0 \<and> user_ticks st + system_ticks st + ready_ticks st = elapsed_total_ticks st"

definition accounts_ok :: "kstate \<Rightarrow> bool" where
  "accounts_ok s \<longleftrightarrow> well_typed s \<and> reads_agree (tsc s) \<and> even (tsc_reads s) \<and> (\<forall>t. balanced (estadisticas (tasks s t)))"

lemma balanced_charge:
  assumes "balanced st" "f \<in> {user_ticks_update, system_ticks_update, ready_ticks_update}"
  shows "balanced (elapsed_total_ticks_update (\<lambda>_. now) (f (\<lambda>v. v + (now - elapsed_total_ticks st)) st))"
  using assms by (auto simp: balanced_def algebra_simps)

lemma accounts_charge:
  assumes p: "accounts_ok s" and f: "f \<in> {user_ticks_update, system_ticks_update, ready_ticks_update}"
    and c: "charge f t s = Some s'"
  shows "accounts_ok s'"
proof (rule charge_steps [of s f t])
  fix now now'
  assume n: "get_ticks (tsc s (tsc_reads s)) = Some now" "get_ticks (tsc s (Suc (tsc_reads s))) = Some now'"
    and r: "charge f t s = Some (upd_stats t (elapsed_total_ticks_update (\<lambda>_. now'))
      ((upd_stats t (f (\<lambda>v. v + (now - elapsed_total_ticks (estadisticas (tasks s t))))) s)
        \<lparr>tsc_reads := Suc (Suc (tsc_reads s))\<rparr>))"
  have "even (tsc_reads s)" "reads_agree (tsc s)" using p by (simp_all add: accounts_ok_def)
  then have e: "now' = now" using n by (auto simp: reads_agree_def elim!: evenE)
  have "balanced (estadisticas (tasks s t))" using p by (simp add: accounts_ok_def)
  from balanced_charge [OF this f, of now] show ?thesis
    using p c r well_typed_charge [OF _ c] unfolding e by (auto simp: accounts_ok_def upd_stats_def upd_task_def)
qed

interpretation accounts: step_invariant accounts_ok
proof
  show "accounts_ok s \<Longrightarrow> well_typed s" for s by (simp add: accounts_ok_def)
  show "accounts_ok s \<Longrightarrow> well_typed s' \<Longrightarrow> same_values s s' \<Longrightarrow> accounts_ok s'" for s s'
    by (simp add: accounts_ok_def same_values_def)
  show "accounts_ok s \<Longrightarrow> accounts_ok (upd_task t (quantum_update (\<lambda>_. DEFAULT_QUANTUM)) s)" for s t
    using well_typed_values(1) by (auto simp: accounts_ok_def) (simp_all add: upd_task_def)
  show "accounts_ok s \<Longrightarrow> accounts_ok (s\<lparr>qLeft := quantum (tasks s t)\<rparr>)" for s t
    using well_typed_values(2) by (simp add: accounts_ok_def)
  show "accounts_ok s \<Longrightarrow> 1 \<le> qLeft s \<Longrightarrow> accounts_ok (s\<lparr>qLeft := i32 (qLeft s - 1)\<rparr>)" for s
    using well_typed_values(3) by (simp add: accounts_ok_def)
  show "accounts_ok s \<Longrightarrow> x \<in> {0, - 1} \<Longrightarrow> accounts_ok (upd_task t (sem_ret_update (\<lambda>_. x)) s)" for s x t
    using well_typed_values(4) [of s x t] unfolding accounts_ok_def by (simp add: upd_task_def)
  show "accounts_ok s \<Longrightarrow> accounts_ok (copy_union a b s)" for a b s
    using well_typed_copy by (auto simp: accounts_ok_def copy_union_def)
  show "accounts_ok s \<Longrightarrow> accounts_ok (upd_stats t init_stats s)" for s t
    using well_typed_stats by (auto simp: accounts_ok_def upd_stats_def upd_task_def balanced_def init_stats_def)
  show "accounts_ok s \<Longrightarrow> accounts_ok (upd_stats t (total_trans_update g) s)" for s t g
    using well_typed_stats by (auto simp: accounts_ok_def upd_stats_def upd_task_def balanced_def)
qed (rule accounts_charge)

lemma reset_well_typed: "well_typed (reset_state a m clk)"
  by (simp add: well_typed_def reset_state_def task_ints_def sem_ints_def zero_task_def)

lemma reset_accounts: "reads_agree clk \<Longrightarrow> accounts_ok (reset_state a m clk)"
  using reset_well_typed [of a m clk]
  by (simp add: accounts_ok_def balanced_def reset_state_def zero_task_def zero_stats_def)

end
