(* ===== verification/Hardware.thy ===== *)
theory Hardware
  imports MemCopy
begin

text \<open>
  The processor as \<open>hardware.c\<close> and the tables of \<open>include/types.h\<close> see it: the segment and
  control registers, the table registers, the model-specific registers and the mask of the interrupt
  controller, with one definition per routine of inline assembly, \<open>set_seg_regs\<close> of \<open>system.c\<close> and
  \<open>writeMsr\<close> of \<open>entry.S\<close>; the layouts of segment descriptors, gates and the task state segment,
  and the fields the processor decodes from them.
\<close>

section \<open>Selectors\<close>

text \<open>include/segment.h.\<close>

definition KERNEL_CS :: Word16 where [simp]: "KERNEL_CS = 0x10"
definition KERNEL_DS :: Word16 where [simp]: "KERNEL_DS = 0x18"
definition USER_CS :: Word16 where [simp]: "USER_CS = 0x23"
definition USER_DS :: Word16 where [simp]: "USER_DS = 0x2B"
definition KERNEL_TSS :: Word16 where [simp]: "KERNEL_TSS = 0x30"
definition GDT_START :: u32 where [simp]: "GDT_START = 0x901b3"

definition INITIAL_EFLAGS :: u32 where [simp]: "INITIAL_EFLAGS = 0x00000200"

text \<open>\<open>USER_ESP\<close> of include/mm_address.h: 16 bytes below the end of the data pages.\<close>

definition USER_ESP :: u32 where
  "USER_ESP = of_nat (L_USER_START + (NUM_PAG_CODE + NUM_PAG_DATA) * 0x1000 - 16)"

definition selector_rpl :: "Word16 \<Rightarrow> Word16" where
  "selector_rpl s = s AND 3"

definition selector_index :: "Word16 \<Rightarrow> nat" where
  "selector_index s = unat (drop_bit 3 s)"

section \<open>Tables of include/types.h\<close>

text \<open>The macros that take an address apart.\<close>

definition highWord :: "u32 \<Rightarrow> Word16" where "highWord a = ucast (drop_bit 16 a AND 0xFFFF)"
definition lowWord :: "u32 \<Rightarrow> Word16" where "lowWord a = ucast (a AND 0xFFFF)"
definition midByte :: "u32 \<Rightarrow> Byte" where "midByte a = ucast (drop_bit 16 a AND 0xFF)"
definition highByte :: "u32 \<Rightarrow> Byte" where "highByte a = ucast (drop_bit (16 + 8) a AND 0xFF)"
definition high4Bits :: "u32 \<Rightarrow> Byte" where "high4Bits l = ucast (drop_bit 16 l AND 0x0F)"

record Descriptor =
  limit :: Word16
  lowBase :: Word16
  midBase :: Byte
  flags1 :: Byte
  flags2 :: Byte
  highBase :: Byte

record Gate =
  lowOffset :: Word16
  segmentSelector :: Word16
  gate_flags :: Word16
  highOffset :: Word16

text \<open>The named fields of the task state segment (the others are padding).\<close>

record TSS =
  TSS_PreviousTaskLink :: Word16
  TSS_esp0 :: DWord
  TSS_ss0 :: Word16
  TSS_esp1 :: DWord
  TSS_ss1 :: Word16
  TSS_esp2 :: DWord
  TSS_ss2 :: Word16
  TSS_cr3 :: DWord
  TSS_eip :: DWord
  TSS_eFlags :: DWord
  TSS_eax :: DWord
  TSS_ecx :: DWord
  TSS_edx :: DWord
  TSS_ebx :: DWord
  TSS_esp :: DWord
  TSS_ebp :: DWord
  TSS_esi :: DWord
  TSS_edi :: DWord
  TSS_es :: Word16
  TSS_cs :: Word16
  TSS_ss :: Word16
  TSS_ds :: Word16
  TSS_fs :: Word16
  TSS_gs :: Word16
  TSS_LDTSegmentSelector :: Word16
  TSS_debugTrap :: Word16
  TSS_IOMapBaseAddress :: Word16

record Register =
  reg_limit :: Word16
  reg_base :: DWord

definition sizeof_Descriptor :: nat where [simp]: "sizeof_Descriptor = 8"
definition sizeof_Gate :: nat where [simp]: "sizeof_Gate = 8"

text \<open>What the processor reads in them.\<close>

definition descriptor_base :: "Descriptor \<Rightarrow> u32" where
  "descriptor_base d =
     push_bit 24 (ucast (highBase d)) OR push_bit 16 (ucast (midBase d)) OR ucast (lowBase d)"

definition gate_offset :: "Gate \<Rightarrow> u32" where
  "gate_offset g = push_bit 16 (ucast (highOffset g)) OR ucast (lowOffset g)"

definition gate_present :: "Gate \<Rightarrow> bool" where "gate_present g = bit (gate_flags g) 15"

definition gate_dpl :: "Gate \<Rightarrow> Word16" where "gate_dpl g = drop_bit 13 (gate_flags g) AND 3"

text \<open>Type 1110 is a 32-bit interrupt gate: the processor clears the interrupt flag on entry.\<close>

definition gate_type :: "Gate \<Rightarrow> Word16" where "gate_type g = drop_bit 8 (gate_flags g) AND 0x1F"

lemma word_masks: "(0xFF :: u32) = mask 8" "(0xFFFF :: u32) = mask 16"
  by (simp_all add: mask_eq_exp_minus_1)

lemma join_words: "push_bit 16 (ucast (highWord a)) OR ucast (lowWord a) = (a :: u32)"
  unfolding highWord_def lowWord_def word_masks by (rule bit_word_eqI) (auto simp: bit_simps)

lemma join_bytes:
  "push_bit 24 (ucast (highByte a)) OR push_bit 16 (ucast (midByte a)) OR ucast (lowWord a) = (a :: u32)"
  unfolding highByte_def midByte_def lowWord_def word_masks
proof (rule bit_word_eqI)
  fix n :: nat
  assume "n < LENGTH(32)"
  then show "bit (push_bit 24 (ucast (ucast (drop_bit (16 + 8) a AND mask 8) :: Byte)) OR
      push_bit 16 (ucast (ucast (drop_bit 16 a AND mask 8) :: Byte)) OR
      ucast (ucast (a AND mask 16) :: Word16) :: u32) n = bit a n"
    by (cases "n < 24") (auto simp: bit_simps)
qed

section \<open>The processor\<close>

record cpu =
  eflags :: u32
  seg_cs :: Word16
  seg_ds :: Word16
  seg_es :: Word16
  seg_fs :: Word16
  seg_gs :: Word16
  seg_ss :: Word16
  reg_esp :: u32
  reg_eip :: u32
  idtr :: Register
  gdtr :: Register
  ldtr :: Word16
  tr :: Word16
  msr :: "u32 \<Rightarrow> u64"
  int_mask :: u8
  cr0 :: u32

text \<open>Bit 9 of the flags: external interrupts are taken.\<close>

definition interrupts_on :: "cpu \<Rightarrow> bool" where
  "interrupts_on c \<longleftrightarrow> bit (eflags c) 9"

definition get_eflags :: "cpu \<Rightarrow> u32" where
  "get_eflags c = eflags c"

definition set_eflags :: "cpu \<Rightarrow> cpu" where
  "set_eflags c = c\<lparr>eflags := 0\<rparr>"

definition set_idt_reg :: "Register \<Rightarrow> cpu \<Rightarrow> cpu" where
  "set_idt_reg r c = c\<lparr>idtr := r\<rparr>"

definition set_gdt_reg :: "Register \<Rightarrow> cpu \<Rightarrow> cpu" where
  "set_gdt_reg r c = c\<lparr>gdtr := r\<rparr>"

definition set_ldt_reg :: "Word16 \<Rightarrow> cpu \<Rightarrow> cpu" where
  "set_ldt_reg s c = c\<lparr>ldtr := s\<rparr>"

definition set_task_reg :: "Word16 \<Rightarrow> cpu \<Rightarrow> cpu" where
  "set_task_reg s c = c\<lparr>tr := s\<rparr>"

text \<open>\<open>set_pe_flag\<close> of \<open>mm.c\<close> with its macros \<open>read_cr0\<close> and \<open>write_cr0\<close>: bit 31 turns paging on.\<close>

definition set_pe_flag :: "cpu \<Rightarrow> cpu" where
  "set_pe_flag c = (let v = cr0 c in c\<lparr>cr0 := v OR 0x80000000\<rparr>)"

text \<open>\<open>wrmsr\<close> writes \<open>edx:eax\<close>; \<open>writeMsr\<close> clears \<open>edx\<close>.\<close>

definition writeMsr :: "u32 \<Rightarrow> u32 \<Rightarrow> cpu \<Rightarrow> cpu" where
  "writeMsr i v c = c\<lparr>msr := (msr c)(i := ucast v)\<rparr>"

definition enable_int :: "cpu \<Rightarrow> cpu" where
  "enable_int c = c\<lparr>int_mask := 0xFC, eflags := set_bit 9 (eflags c)\<rparr>"

text \<open>\<open>set_seg_regs\<close> also clears the direction flag (bit 10, \<open>cld\<close>).\<close>

definition set_seg_regs :: "Word16 \<Rightarrow> Word16 \<Rightarrow> u32 \<Rightarrow> cpu \<Rightarrow> cpu" where
  "set_seg_regs data_sel stack_sel esp c =
     c\<lparr>eflags := unset_bit 10 (eflags c), seg_ds := data_sel, seg_es := data_sel,
       seg_fs := data_sel, seg_gs := data_sel, seg_ss := stack_sel, reg_esp := esp - 5 * 4\<rparr>"

text \<open>
  \<open>return_gate\<close>: a double word (\<open>rdtr\<close>) is stored 12 bytes above the new stack pointer, and the
  far return takes the instruction pointer and code segment, then, going to an outer level, the
  stack. \<open>tr\<close> is the translation in force.
\<close>

definition return_gate ::
    "mmu \<Rightarrow> u32 \<Rightarrow> Word16 \<Rightarrow> Word16 \<Rightarrow> u32 \<Rightarrow> Word16 \<Rightarrow> u32 \<Rightarrow> mem \<Rightarrow> cpu \<Rightarrow> (mem \<times> cpu) option" where
  "return_gate mt rdtr ds ss esp cs eip m c =
     do {
       m' \<leftarrow> store32 mt m (esp + 12) rdtr;
       Some (m', c\<lparr>seg_es := ds, seg_ds := ds, seg_ss := ss, reg_esp := esp, seg_cs := cs, reg_eip := eip\<rparr>)
     }"

end
