(* ===== verification/Descriptors.thy ===== *)
theory Descriptors
  imports Hardware
begin

text \<open>
  The descriptor tables: \<open>setGdt\<close> and \<open>setTSS\<close> of \<open>mm.c\<close>, \<open>setInterruptHandler\<close>,
  \<open>setTrapHandler\<close> and \<open>setIdt\<close> of \<open>interrupt.c\<close>. The addresses the linker gives to the tables
  and handlers are the record \<open>symbols\<close>. \<open>set_handlers\<close>, which installs the exception handlers, is
  part of \<open>libzeos.a\<close>: it is a parameter of \<open>setIdt\<close>. The lemmas say what the processor decodes
  from what the code encodes.
\<close>

section \<open>The code\<close>

record symbols =
  sym_idt :: u32
  sym_tss :: u32
  sym_initial_esp :: u32
  sym_keyboard_handler :: u32
  sym_system_call_handler :: u32
  sym_clock_handler :: u32
  sym_syscall_handler_sysenter :: u32

record desc_tables =
  gdt :: "nat \<Rightarrow> Descriptor"
  gdtR :: Register
  idt :: "Gate list"
  idtR :: Register
  tss :: TSS

definition IDT_ENTRIES :: nat where [simp]: "IDT_ENTRIES = 256"

text \<open>
  \<open>gdtR.limit\<close> is a 16-bit field; the product is stored without the minus one that \<open>idtR.limit\<close> has.
\<close>

definition setGdt :: "symbols \<Rightarrow> desc_tables \<Rightarrow> cpu \<Rightarrow> desc_tables \<times> cpu" where
  "setGdt y t c =
     (let i = unat (drop_bit 3 KERNEL_TSS);
          g1 = (gdt t)(i := (gdt t i)\<lparr>lowBase := lowWord (sym_tss y)\<rparr>);
          g2 = g1(i := (g1 i)\<lparr>midBase := midByte (sym_tss y)\<rparr>);
          g3 = g2(i := (g2 i)\<lparr>highBase := highByte (sym_tss y)\<rparr>);
          r = \<lparr>reg_limit = of_nat (256 * sizeof_Descriptor), reg_base = GDT_START\<rparr>
      in (t\<lparr>gdt := g3, gdtR := r\<rparr>, set_gdt_reg r c))"

definition setTSS :: "symbols \<Rightarrow> desc_tables \<Rightarrow> cpu \<Rightarrow> desc_tables \<times> cpu" where
  "setTSS y t c =
     (t\<lparr>tss := (tss t)\<lparr>
        TSS_PreviousTaskLink := 0,
        TSS_esp0 := sym_initial_esp y,
        TSS_ss0 := KERNEL_DS,
        TSS_esp1 := 0,
        TSS_ss1 := 0,
        TSS_esp2 := 0,
        TSS_ss2 := 0,
        TSS_cr3 := 0,
        TSS_eip := 0,
        TSS_eFlags := INITIAL_EFLAGS,
        TSS_eax := 0,
        TSS_ecx := 0,
        TSS_edx := 0,
        TSS_ebx := 0,
        TSS_esp := USER_ESP,
        TSS_ebp := USER_ESP,
        TSS_esi := 0,
        TSS_edi := 0,
        TSS_es := USER_DS,
        TSS_cs := USER_CS,
        TSS_ss := USER_DS,
        TSS_ds := USER_DS,
        TSS_fs := 0,
        TSS_gs := 0,
        TSS_LDTSegmentSelector := KERNEL_TSS,
        TSS_debugTrap := 0,
        TSS_IOMapBaseAddress := 0\<rparr>\<rparr>,
      set_task_reg KERNEL_TSS c)"

text \<open>An index outside the table is \<open>None\<close>. The flags are computed as a C \<open>int\<close> and truncated.\<close>

definition setInterruptHandler :: "int \<Rightarrow> u32 \<Rightarrow> int \<Rightarrow> desc_tables \<Rightarrow> desc_tables option" where
  "setInterruptHandler vector handler maxAccessibleFromPL t =
     (let flags = word_of_int (push_bit 13 maxAccessibleFromPL) OR 0x8E00; v = nat vector in
      if 0 \<le> vector \<and> v < length (idt t) then
        Some (t\<lparr>idt := (idt t)[v := (idt t ! v)\<lparr>lowOffset := lowWord handler,
          segmentSelector := KERNEL_CS, gate_flags := flags, highOffset := highWord handler\<rparr>]\<rparr>)
      else None)"

definition setTrapHandler :: "int \<Rightarrow> u32 \<Rightarrow> int \<Rightarrow> desc_tables \<Rightarrow> desc_tables option" where
  "setTrapHandler vector handler maxAccessibleFromPL t =
     (let flags = word_of_int (push_bit 13 maxAccessibleFromPL) OR 0x8E00; v = nat vector in
      if 0 \<le> vector \<and> v < length (idt t) then
        Some (t\<lparr>idt := (idt t)[v := (idt t ! v)\<lparr>lowOffset := lowWord handler,
          segmentSelector := KERNEL_CS, gate_flags := flags, highOffset := highWord handler\<rparr>]\<rparr>)
      else None)"

definition setIdt ::
    "(desc_tables \<Rightarrow> desc_tables) \<Rightarrow> symbols \<Rightarrow> desc_tables \<Rightarrow> cpu \<Rightarrow> (desc_tables \<times> cpu) option" where
  "setIdt set_handlers y t c =
     do {
       let t1 = t\<lparr>idtR := (idtR t)\<lparr>reg_base := sym_idt y\<rparr>\<rparr>;
       let t2 = t1\<lparr>idtR := (idtR t1)\<lparr>reg_limit := of_nat (IDT_ENTRIES * sizeof_Gate - 1)\<rparr>\<rparr>;
       let t3 = set_handlers t2;
       let c1 = writeMsr 0x174 (ucast KERNEL_CS) c;
       let c2 = writeMsr 0x175 (sym_initial_esp y) c1;
       let c3 = writeMsr 0x176 (sym_syscall_handler_sysenter y) c2;
       t4 \<leftarrow> setInterruptHandler 33 (sym_keyboard_handler y) 0 t3;
       t5 \<leftarrow> setInterruptHandler 0x80 (sym_system_call_handler y) 3 t4;
       t6 \<leftarrow> setInterruptHandler 32 (sym_clock_handler y) 3 t5;
       Some (t6, set_idt_reg (idtR t6) c3)
     }"

section \<open>Interrupt gates\<close>

text \<open>
  What the processor does with vector \<open>v\<close>: the entry point and whether a program at privilege level
  \<open>pl\<close> may raise the vector with \<open>int\<close>. A vector outside the limit of the register, an absent gate
  or one of another type faults.
\<close>

definition idt_entry :: "desc_tables \<Rightarrow> Register \<Rightarrow> nat \<Rightarrow> u32 option" where
  "idt_entry t r v =
     (if v * sizeof_Gate + 7 \<le> unat (reg_limit r) \<and> v < length (idt t) \<and>
        gate_present (idt t ! v) \<and> gate_type (idt t ! v) = 0xE \<and> segmentSelector (idt t ! v) = KERNEL_CS
      then Some (gate_offset (idt t ! v)) else None)"

definition int_allowed :: "desc_tables \<Rightarrow> nat \<Rightarrow> nat \<Rightarrow> bool" where
  "int_allowed t v pl \<longleftrightarrow> pl \<le> unat (gate_dpl (idt t ! v))"

lemma interrupt_gate_flags:
  assumes "0 \<le> pl" "pl < 4"
  shows "bit (word_of_int (push_bit 13 pl) OR 0x8E00 :: Word16) 15"
    "drop_bit 13 (word_of_int (push_bit 13 pl) OR 0x8E00 :: Word16) AND 3 = word_of_int pl"
    "drop_bit 8 (word_of_int (push_bit 13 pl) OR 0x8E00 :: Word16) AND 0x1F = 0xE"
proof -
  have "pl \<in> {0, 1, 2, 3}" using assms by auto
  then show "bit (word_of_int (push_bit 13 pl) OR 0x8E00 :: Word16) 15"
    "drop_bit 13 (word_of_int (push_bit 13 pl) OR 0x8E00 :: Word16) AND 3 = word_of_int pl"
    "drop_bit 8 (word_of_int (push_bit 13 pl) OR 0x8E00 :: Word16) AND 0x1F = 0xE"
    by (auto simp: push_bit_eq_mult)
qed

text \<open>A gate the processor takes to \<open>h\<close> with interrupts off, open to levels up to \<open>pl\<close>.\<close>

definition gate_to :: "u32 \<Rightarrow> int \<Rightarrow> Gate \<Rightarrow> bool" where
  "gate_to h pl g \<longleftrightarrow> gate_present g \<and> gate_type g = 0xE \<and> segmentSelector g = KERNEL_CS \<and>
     gate_offset g = h \<and> gate_dpl g = word_of_int pl"

lemma setInterruptHandler_gate:
  assumes "0 \<le> v" "nat v < length (idt t)" "0 \<le> pl" "pl < 4"
  shows "\<exists>g. setInterruptHandler v h pl t = Some (t\<lparr>idt := (idt t)[nat v := g]\<rparr>) \<and> gate_to h pl g"
proof -
  let ?fl = "word_of_int (push_bit 13 pl) OR 0x8E00 :: Word16"
  let ?g = "(idt t ! nat v)\<lparr>lowOffset := lowWord h, segmentSelector := KERNEL_CS, gate_flags := ?fl,
    highOffset := highWord h\<rparr>"
  have "setInterruptHandler v h pl t = Some (t\<lparr>idt := (idt t)[nat v := ?g]\<rparr>)"
    unfolding setInterruptHandler_def Let_def using assms by simp
  moreover have "gate_to h pl ?g"
    using interrupt_gate_flags [OF assms(3,4)] join_words [of h]
    by (simp add: gate_to_def gate_present_def gate_type_def gate_dpl_def gate_offset_def)
  ultimately show ?thesis by blast
qed

lemma idt_entry_gate:
  assumes "gate_to h pl (idt t ! v)" "v < 256" "length (idt t) = 256" "reg_limit r = 2047"
  shows "idt_entry t r v = Some h"
  using assms by (simp add: idt_entry_def gate_to_def)

lemma int_allowed_gate:
  assumes "gate_to h pl (idt t ! v)" "0 \<le> pl" "pl < 4"
  shows "int_allowed t v k \<longleftrightarrow> int k \<le> pl"
proof -
  have "pl \<in> {0, 1, 2, 3}" using assms(2,3) by auto
  then show ?thesis using assms(1) by (auto simp: int_allowed_def gate_to_def)
qed

text \<open>The trap handlers are installed as interrupt gates too.\<close>

lemma setTrapHandler_is_interrupt: "setTrapHandler v h pl t = setInterruptHandler v h pl t"
  by (simp add: setTrapHandler_def setInterruptHandler_def)

section \<open>The interrupt table\<close>

text \<open>
  What \<open>setIdt\<close> relies on: \<open>set_handlers\<close> writes gates of the table and nothing else.
\<close>

definition only_gates :: "(desc_tables \<Rightarrow> desc_tables) \<Rightarrow> bool" where
  "only_gates f \<longleftrightarrow> (\<forall>t. length (idt (f t)) = length (idt t) \<and> idtR (f t) = idtR t)"

lemma setIdt_gates:
  assumes "only_gates set_handlers" "length (idt t) = 256"
  shows "\<exists>t' c'. setIdt set_handlers y t c = Some (t', c') \<and>
    idt_entry t' (idtr c') 32 = Some (sym_clock_handler y) \<and>
    idt_entry t' (idtr c') 33 = Some (sym_keyboard_handler y) \<and>
    idt_entry t' (idtr c') 128 = Some (sym_system_call_handler y) \<and>
    (\<forall>v \<ge> 256. idt_entry t' (idtr c') v = None) \<and>
    int_allowed t' 128 3 \<and> int_allowed t' 32 3 \<and> \<not> int_allowed t' 33 3 \<and>
    reg_base (idtr c') = sym_idt y \<and>
    msr c' 0x176 = ucast (sym_syscall_handler_sysenter y) \<and> msr c' 0x174 = 0x10 \<and>
    msr c' 0x175 = ucast (sym_initial_esp y) \<and> eflags c' = eflags c"
proof -
  let ?t2 = "t\<lparr>idtR := (idtR t)\<lparr>reg_base := sym_idt y, reg_limit := 2047\<rparr>\<rparr>"
  let ?t3 = "set_handlers ?t2"
  have 3: "length (idt ?t3) = 256" "idtR ?t3 = (idtR t)\<lparr>reg_base := sym_idt y, reg_limit := 2047\<rparr>"
    using assms by (simp_all add: only_gates_def)
  obtain g1 where g1: "setInterruptHandler 33 (sym_keyboard_handler y) 0 ?t3 = Some (?t3\<lparr>idt := (idt ?t3)[33 := g1]\<rparr>)"
    "gate_to (sym_keyboard_handler y) 0 g1"
    using setInterruptHandler_gate [of 33 ?t3 0] 3(1) by auto
  let ?t4 = "?t3\<lparr>idt := (idt ?t3)[33 := g1]\<rparr>"
  obtain g2 where g2: "setInterruptHandler 0x80 (sym_system_call_handler y) 3 ?t4 = Some (?t4\<lparr>idt := (idt ?t4)[128 := g2]\<rparr>)"
    "gate_to (sym_system_call_handler y) 3 g2"
    using setInterruptHandler_gate [of "0x80" ?t4 3] 3(1) by auto
  let ?t5 = "?t4\<lparr>idt := (idt ?t4)[128 := g2]\<rparr>"
  obtain g3 where g3: "setInterruptHandler 32 (sym_clock_handler y) 3 ?t5 = Some (?t5\<lparr>idt := (idt ?t5)[32 := g3]\<rparr>)"
    "gate_to (sym_clock_handler y) 3 g3"
    using setInterruptHandler_gate [of 32 ?t5 3] 3(1) by auto
  let ?t6 = "?t5\<lparr>idt := (idt ?t5)[32 := g3]\<rparr>"
  have len: "length (idt ?t6) = 256" and reg: "reg_limit (idtR ?t6) = 2047" using 3 by simp_all
  have gates: "gate_to (sym_clock_handler y) 3 (idt ?t6 ! 32)" "gate_to (sym_keyboard_handler y) 0 (idt ?t6 ! 33)"
    "gate_to (sym_system_call_handler y) 3 (idt ?t6 ! 128)"
    using g1(2) g2(2) g3(2) 3(1) by simp_all
  have run: "setIdt set_handlers y t c = Some (?t6, set_idt_reg (idtR ?t6)
      (writeMsr 0x176 (sym_syscall_handler_sysenter y) (writeMsr 0x175 (sym_initial_esp y)
        (writeMsr 0x174 (ucast KERNEL_CS) c))))"
    using g1(1) g2(1) g3(1) by (simp add: setIdt_def Let_def)
  have "idt_entry ?t6 (idtR ?t6) v = None" if "256 \<le> v" for v
    using that len by (simp add: idt_entry_def)
  note out = this
  show ?thesis
    by (intro exI conjI, rule run)
      (use out idt_entry_gate [OF gates(1) _ len reg] idt_entry_gate [OF gates(2) _ len reg]
        idt_entry_gate [OF gates(3) _ len reg] int_allowed_gate [OF gates(1)] int_allowed_gate [OF gates(2)]
        int_allowed_gate [OF gates(3)] 3(2) in \<open>simp_all add: set_idt_reg_def writeMsr_def\<close>)
qed

text \<open>
  C36. After setIdt the processor takes vectors 32, 33 and 0x80 to the handlers of clock,
  keyboard and system calls with interrupts off; user mode may raise 0x80 (and, unlike the
  keyboard, also 32) with int; no vector from 256 on has an entry; sysenter is set up with the
  kernel segment, the stack of task 1 and its own handler.
\<close>

theorem setIdt_routes:
  assumes "only_gates set_handlers" "length (idt t) = 256"
  shows "\<exists>t' c'. setIdt set_handlers y t c = Some (t', c') \<and>
    idt_entry t' (idtr c') 32 = Some (sym_clock_handler y) \<and>
    idt_entry t' (idtr c') 33 = Some (sym_keyboard_handler y) \<and>
    idt_entry t' (idtr c') 128 = Some (sym_system_call_handler y) \<and>
    (\<forall>v \<ge> 256. idt_entry t' (idtr c') v = None) \<and>
    int_allowed t' 128 3 \<and> int_allowed t' 32 3 \<and> \<not> int_allowed t' 33 3 \<and>
    reg_base (idtr c') = sym_idt y \<and>
    msr c' 0x176 = ucast (sym_syscall_handler_sysenter y) \<and> msr c' 0x174 = 0x10 \<and>
    msr c' 0x175 = ucast (sym_initial_esp y) \<and> eflags c' = eflags c"
  by (rule setIdt_gates [OF assms])

text \<open>Tables and processor before the kernel sets them up: everything is zero.\<close>

definition zero_tables :: desc_tables where
  "zero_tables =
     \<lparr>gdt = (\<lambda>_. \<lparr>limit = 0, lowBase = 0, midBase = 0, flags1 = 0, flags2 = 0, highBase = 0\<rparr>),
       gdtR = \<lparr>reg_limit = 0, reg_base = 0\<rparr>,
       idt = replicate 256 \<lparr>lowOffset = 0, segmentSelector = 0, gate_flags = 0, highOffset = 0\<rparr>,
       idtR = \<lparr>reg_limit = 0, reg_base = 0\<rparr>,
       tss = \<lparr>TSS_PreviousTaskLink = 0, TSS_esp0 = 0, TSS_ss0 = 0, TSS_esp1 = 0, TSS_ss1 = 0, TSS_esp2 = 0,
         TSS_ss2 = 0, TSS_cr3 = 0, TSS_eip = 0, TSS_eFlags = 0, TSS_eax = 0, TSS_ecx = 0, TSS_edx = 0,
         TSS_ebx = 0, TSS_esp = 0, TSS_ebp = 0, TSS_esi = 0, TSS_edi = 0, TSS_es = 0, TSS_cs = 0, TSS_ss = 0,
         TSS_ds = 0, TSS_fs = 0, TSS_gs = 0, TSS_LDTSegmentSelector = 0, TSS_debugTrap = 0,
         TSS_IOMapBaseAddress = 0\<rparr>\<rparr>"

definition zero_cpu :: cpu where
  "zero_cpu =
     \<lparr>eflags = 0, seg_cs = 0x10, seg_ds = 0, seg_es = 0, seg_fs = 0, seg_gs = 0, seg_ss = 0, reg_esp = 0,
       reg_eip = 0, idtr = \<lparr>reg_limit = 0, reg_base = 0\<rparr>, gdtr = \<lparr>reg_limit = 0, reg_base = 0\<rparr>,
       ldtr = 0, tr = 0, msr = (\<lambda>_. 0), int_mask = 0xFF, cr0 = 1\<rparr>"

definition sample_symbols :: symbols where
  "sample_symbols =
     \<lparr>sym_idt = 0x13000, sym_tss = 0x14000, sym_initial_esp = 0x1E000, sym_keyboard_handler = 0x10100,
       sym_system_call_handler = 0x10200, sym_clock_handler = 0x10300, sym_syscall_handler_sysenter = 0x10400\<rparr>"

theorem setIdt_routes_witness:
  "\<exists>t' c'. setIdt (\<lambda>t. t) sample_symbols zero_tables zero_cpu = Some (t', c') \<and>
    idt_entry t' (idtr c') 128 = Some 0x10200 \<and> int_allowed t' 32 3 \<and> \<not> int_allowed t' 33 3"
proof -
  have "only_gates (\<lambda>t. t)" by (simp add: only_gates_def)
  from setIdt_routes [OF this, of zero_tables sample_symbols zero_cpu]
  show ?thesis by (simp add: zero_tables_def sample_symbols_def) (elim ex_forward, simp)
qed

end
