(* ===== verification/Build.thy ===== *)
theory Build
  imports MemCopy
begin

text \<open>
  The host tool \<open>build.c\<close>, which writes the disk image from the boot sector, the system and the user
  program. A file is its bytes and the size \<open>fstat\<close> reports; the output is what has been written, the
  file position, the room on the device and whether it can be rewound, so that every \<open>die\<close> but those
  of a device error on reading is a branch. The lemmas give the layout of the image.
\<close>

section \<open>Files\<close>

record infile =
  bytes :: "u8 list"
  st_size :: nat

record outfile =
  written :: "u8 list"
  position :: nat
  room :: nat
  seekable :: bool

datatype build_error =
    Usage
  | Unable_to_open string
  | Unable_to_read_header string
  | Non_Minix_header string
  | Illegal_data_segment string
  | Illegal_bss_segment string
  | Illegal_symbol_table string
  | Boot_block_not_512
  | No_boot_flag
  | Unexpected_EOF string
  | Write_failed
  | Seek_failed

text \<open>\<open>write\<close> puts as many bytes as there is room for at the position, and \<open>lseek\<close> sets it.\<close>

definition put_at :: "nat \<Rightarrow> u8 list \<Rightarrow> u8 list \<Rightarrow> u8 list" where
  "put_at p bs xs = take p (xs @ replicate (p - length xs) 0) @ bs @ drop (p + length bs) xs"

definition write_out :: "u8 list \<Rightarrow> outfile \<Rightarrow> build_error + outfile" where
  "write_out bs out =
     (if position out + length bs \<le> room out then
        Inr (out\<lparr>written := put_at (position out) bs (written out), position := position out + length bs\<rparr>)
      else Inl Write_failed)"

definition lseek_out :: "nat \<Rightarrow> outfile \<Rightarrow> build_error + outfile" where
  "lseek_out p out = (if seekable out then Inr (out\<lparr>position := p\<rparr>) else Inl Seek_failed)"

fun err_bind :: "build_error + 'a \<Rightarrow> ('a \<Rightarrow> build_error + 'b) \<Rightarrow> build_error + 'b" where
  "err_bind (Inl e) f = Inl e"
| "err_bind (Inr a) f = f a"

section \<open>The code\<close>

definition MINIX_HEADER_LEN :: nat where [simp]: "MINIX_HEADER_LEN = 32"

definition BUF_SIZE :: nat where [simp]: "BUF_SIZE = 1024"

definition minix_hdr :: "u8 list" where
  "minix_hdr = [0x01, 0x03, 0x10, 0x04, 0x20, 0x00, 0x00, 0x00]"

text \<open>\<open>lb[i]\<close>: the buffer read as double words.\<close>

definition lb :: "u8 list \<Rightarrow> nat \<Rightarrow> u32" where
  "lb buf i = dword_of (buf ! (4 * i)) (buf ! (4 * i + 1)) (buf ! (4 * i + 2)) (buf ! (4 * i + 3))"

text \<open>The result is what is left to read of the file.\<close>

definition minix_open :: "(string \<Rightarrow> infile option) \<Rightarrow> string \<Rightarrow> build_error + u8 list" where
  "minix_open fs name =
     (case fs name of
        None \<Rightarrow> Inl (Unable_to_open name)
      | Some f \<Rightarrow>
          (let buf = take MINIX_HEADER_LEN (bytes f) in
           if length buf \<noteq> MINIX_HEADER_LEN then Inl (Unable_to_read_header name)
           else if take (length minix_hdr) buf \<noteq> minix_hdr \<or> lb buf 5 \<noteq> 0 then Inl (Non_Minix_header name)
           else if lb buf 3 \<noteq> 0 then Inl (Illegal_data_segment name)
           else if lb buf 4 \<noteq> 0 then Inl (Illegal_bss_segment name)
           else if lb buf 7 \<noteq> 0 then Inl (Illegal_symbol_table name)
           else Inr (drop MINIX_HEADER_LEN (bytes f))))"

text \<open>The loop that copies a file whose reported size is \<open>sz\<close>, a buffer at a time.\<close>

function copy_file :: "string \<Rightarrow> u8 list \<Rightarrow> u32 \<Rightarrow> outfile \<Rightarrow> build_error + outfile" where
  "copy_file name rest sz out =
     (if sz > 0 then
        (let l = (if sz > of_nat BUF_SIZE then BUF_SIZE else unat sz);
             chunk = take l rest
         in if length chunk \<noteq> l then Inl (Unexpected_EOF name)
            else err_bind (write_out chunk out) (copy_file name (drop l rest) (sz - of_nat l)))
      else Inr out)"
  by pat_completeness auto
termination
  by (relation "measure (\<lambda>(name, rest, sz, out). unat sz)")
    (auto simp: word_less_nat_alt unat_sub_if' split: if_splits)

declare copy_file.simps [simp del]

text \<open>The three bytes of a length; the fourth is set to zero.\<close>

definition length_bytes :: "u32 \<Rightarrow> u8 list" where
  "length_bytes n = [ucast (n AND 0xff), ucast (drop_bit 8 n AND 0xff), ucast (drop_bit 16 n AND 0xff), 0]"

definition open_file :: "(string \<Rightarrow> infile option) \<Rightarrow> string \<Rightarrow> build_error + infile" where
  "open_file fs name = (case fs name of None \<Rightarrow> Inl (Unable_to_open name) | Some f \<Rightarrow> Inr f)"

definition patch :: "nat \<Rightarrow> u8 list \<Rightarrow> outfile \<Rightarrow> build_error + outfile" where
  "patch p bs out = err_bind (lseek_out p out) (write_out bs)"

definition build_main ::
    "(string \<Rightarrow> infile option) \<Rightarrow> string list \<Rightarrow> outfile \<Rightarrow> build_error + outfile" where
  "build_main fs args out =
     (if length args \<noteq> 3 then Inl Usage
      else
        err_bind (minix_open fs (args ! 0)) (\<lambda>rest.
        (let buf = take BUF_SIZE rest in
         if length buf \<noteq> 512 then Inl Boot_block_not_512
         else if buf ! 510 \<noteq> 0x55 \<or> buf ! 511 \<noteq> 0xaa then Inl No_boot_flag
         else
           err_bind (write_out (buf[508 := 0, 509 := 0]) out) (\<lambda>o1.
           err_bind (open_file fs (args ! 1)) (\<lambda>sys.
           (let sys_size = of_nat (st_size sys) in
           err_bind (copy_file (args ! 1) (bytes sys) sys_size o1) (\<lambda>o2.
           err_bind (open_file fs (args ! 2)) (\<lambda>usr.
           (let usr_size = of_nat (st_size usr) in
           err_bind (copy_file (args ! 2) (bytes usr) usr_size o2) (\<lambda>o3.
           (let im_size = (sys_size + usr_size + 15) div 16 in
           err_bind (patch 500 [ucast (im_size AND 0xff), ucast (drop_bit 8 im_size AND 0xff)] o3) (\<lambda>o4.
           err_bind (patch 512 (length_bytes sys_size) o4) (\<lambda>o5.
           err_bind (patch 516 (length_bytes usr_size) o5) (\<lambda>o6.
           patch 520 (length_bytes 0x7E2B) o6))))))))))))))"

section \<open>Writing\<close>

lemma put_at_end: "put_at (length xs) bs xs = xs @ bs"
  by (simp add: put_at_def)

lemma put_at_inside:
  "length a = p \<Longrightarrow> length b = length bs \<Longrightarrow> put_at p bs (a @ b @ c) = a @ bs @ c"
  by (simp add: put_at_def)

lemma write_end:
  "position out = length (written out) \<Longrightarrow> length (written out) + length bs \<le> room out \<Longrightarrow>
    write_out bs out = Inr (out\<lparr>written := written out @ bs, position := length (written out @ bs)\<rparr>)"
  by (simp add: write_out_def put_at_end)

text \<open>A copied file is appended whole.\<close>

lemma copy_file_appends:
  assumes "position out = length (written out)" "length (written out) + unat sz \<le> room out"
    and "unat sz \<le> length rest"
  shows "copy_file name rest sz out =
    Inr (out\<lparr>written := written out @ take (unat sz) rest, position := length (written out) + unat sz\<rparr>)"
  using assms
proof (induction name rest sz out rule: copy_file.induct)
  case (1 name rest sz out)
  show ?case
  proof (cases "sz > 0")
    case False
    then have "sz = 0" by (simp add: word_gt_0)
    moreover have "out\<lparr>written := written out @ take 0 rest, position := length (written out)\<rparr> = out"
      using "1.prems"(1) by (cases out) simp
    ultimately show ?thesis by (subst copy_file.simps) simp
  next
    case True
    let ?l = "if sz > of_nat BUF_SIZE then BUF_SIZE else unat sz"
    have l: "?l \<le> unat sz" by (simp add: word_less_nat_alt)
    have u: "unat (sz - of_nat ?l) = unat sz - ?l"
      using l by (auto simp: unat_sub_if' word_less_nat_alt split: if_splits)
    let ?o = "out\<lparr>written := written out @ take ?l rest, position := length (written out @ take ?l rest)\<rparr>"
    have len: "length (take ?l rest) = ?l" using l "1.prems"(3) by simp
    have w: "write_out (take ?l rest) out = Inr ?o"
      using "1.prems" l len by (intro write_end) simp_all
    have "copy_file name (drop ?l rest) (sz - of_nat ?l) ?o =
        Inr (?o\<lparr>written := written ?o @ take (unat (sz - of_nat ?l)) (drop ?l rest),
          position := length (written ?o) + unat (sz - of_nat ?l)\<rparr>)"
      using "1.prems" l len u by (intro "1.IH" [OF True refl refl]) simp_all
    moreover have "take ?l rest @ take (unat sz - ?l) (drop ?l rest) = take (unat sz) rest"
      using l by (metis le_add_diff_inverse take_add)
    moreover have "copy_file name rest sz out = copy_file name (drop ?l rest) (sz - of_nat ?l) ?o"
      using True len w by (subst copy_file.simps) (simp add: Let_def)
    ultimately show ?thesis using l len unfolding u by simp
  qed
qed


text \<open>Overwriting bytes that are there.\<close>

lemma patch_inside:
  assumes "written out = a @ b @ c" "length a = p" "length b = length bs" "seekable out"
    and "length (written out) \<le> room out"
  shows "\<exists>q. patch p bs out = Inr (out\<lparr>written := a @ bs @ c, position := q\<rparr>)"
  using assms put_at_inside [of a p b bs c] by (auto simp: patch_def lseek_out_def write_out_def)

section \<open>The image\<close>

text \<open>The inputs \<open>build\<close> accepts.\<close>

definition minix_ok :: "u8 list \<Rightarrow> bool" where
  "minix_ok h \<longleftrightarrow> length h = 32 \<and> take 8 h = minix_hdr \<and> lb h 3 = 0 \<and> lb h 4 = 0 \<and> lb h 5 = 0 \<and> lb h 7 = 0"

definition boot_ok :: "u8 list \<Rightarrow> bool" where
  "boot_ok b \<longleftrightarrow> length b = 512 \<and> b ! 510 = 0x55 \<and> b ! 511 = 0xaa"

definition blank :: "nat \<Rightarrow> outfile" where
  "blank n = \<lparr>written = [], position = 0, room = n, seekable = True\<rparr>"

lemma minix_open_ok:
  assumes "fs name = Some f" "bytes f = h @ rest" "minix_ok h"
  shows "minix_open fs name = Inr rest"
proof -
  have "take 8 h = minix_hdr" "lb h 3 = 0" "lb h 4 = 0" "lb h 5 = 0" "lb h 7 = 0" "length h = 32"
    using assms(3) by (simp_all add: minix_ok_def)
  moreover have "length minix_hdr = 8" by (simp add: minix_hdr_def)
  ultimately show ?thesis using assms(1,2) by (simp add: minix_open_def)
qed

text \<open>
  The layout: the boot block with its length and drive fields patched, and the system with its first
  twelve bytes replaced by its length, the length of the program and the address of a register area.
\<close>

definition image_boot :: "u8 list \<Rightarrow> u32 \<Rightarrow> u8 list" where
  "image_boot b im_size =
     take 500 b @ [ucast (im_size AND 0xff), ucast (drop_bit 8 im_size AND 0xff)] @
       drop 502 (b[508 := 0, 509 := 0])"

definition image_of :: "u8 list \<Rightarrow> u8 list \<Rightarrow> u8 list \<Rightarrow> u8 list" where
  "image_of b sys usr =
     image_boot b ((of_nat (length sys) + of_nat (length usr) + 15) div 16) @
     length_bytes (of_nat (length sys)) @ length_bytes (of_nat (length usr)) @ length_bytes 0x7E2B @
     drop 12 sys @ usr"

lemma build_main_image:
  assumes f: "fs n1 = Some f1" "bytes f1 = h @ b" "minix_ok h" "boot_ok b"
    and s: "fs n2 = Some \<lparr>bytes = sys, st_size = length sys\<rparr>" "12 \<le> length sys" "length sys < 2 ^ 32"
    and u: "fs n3 = Some \<lparr>bytes = usr, st_size = length usr\<rparr>" "length usr < 2 ^ 32"
    and r: "512 + length sys + length usr \<le> n"
  shows "\<exists>out. build_main fs [n1, n2, n3] (blank n) = Inr out \<and> written out = image_of b sys usr"
proof -
  have b: "length b = 512" "b ! 510 = 0x55" "b ! 511 = 0xaa" using f(4) by (simp_all add: boot_ok_def)
  let ?b = "b[508 := 0, 509 := 0]"
  let ?im = "(of_nat (length sys) + of_nat (length usr) + 15) div 16 :: u32"
  let ?ib = "[ucast (?im AND 0xff), ucast (drop_bit 8 ?im AND 0xff)] :: u8 list"
  let ?o1 = "(blank n)\<lparr>written := ?b, position := 512\<rparr>"
  let ?o2 = "?o1\<lparr>written := ?b @ sys, position := 512 + length sys\<rparr>"
  let ?o3 = "?o2\<lparr>written := ?b @ sys @ usr, position := 512 + length sys + length usr\<rparr>"
  have 1: "write_out ?b (blank n) = Inr ?o1" using write_end [of "blank n" ?b] b r by (simp add: blank_def)
  have 2: "copy_file n2 sys (of_nat (length sys)) ?o1 = Inr ?o2"
    using copy_file_appends [of ?o1 "of_nat (length sys)" sys n2] b r s(3) by (simp add: blank_def unat_of_nat_u32)
  have 3: "copy_file n3 usr (of_nat (length usr)) ?o2 = Inr ?o3"
    using copy_file_appends [of ?o2 "of_nat (length usr)" usr n3] b r u(2) by (simp add: blank_def unat_of_nat_u32)
  have len: "length (written ?o3) \<le> room ?o3" using b r by (simp add: blank_def)
  have bs: "?b @ sys @ usr = take 500 b @ take 2 (drop 500 ?b) @ (drop 502 ?b @ sys @ usr)"
  proof -
    have "?b = take 500 ?b @ take 2 (drop 500 ?b) @ drop 2 (drop 500 ?b)" by (metis append_take_drop_id)
    then show ?thesis by (simp add: take_update_cancel)
  qed
  let ?sy = "take 4 sys @ take 4 (drop 4 sys) @ take 4 (drop 8 sys) @ drop 12 sys"
  have sy: "?sy = sys"
  proof -
    have "drop 8 sys = take 4 (drop 8 sys) @ drop 12 sys" using append_take_drop_id [of 4 "drop 8 sys"] by simp
    then have "drop 4 sys = take 4 (drop 4 sys) @ take 4 (drop 8 sys) @ drop 12 sys"
      using append_take_drop_id [of 4 "drop 4 sys"] by simp
    then show ?thesis using append_take_drop_id [of 4 sys] by simp
  qed
  obtain q4 where 4: "patch 500 ?ib ?o3 = Inr (?o3\<lparr>written := take 500 b @ ?ib @ drop 502 ?b @ sys @ usr, position := q4\<rparr>)"
    using patch_inside [of ?o3 "take 500 b" "take 2 (drop 500 ?b)" "drop 502 ?b @ sys @ usr" 500 ?ib] bs b len
    by (auto simp: blank_def)
  let ?o4 = "?o3\<lparr>written := take 500 b @ ?ib @ drop 502 ?b @ sys @ usr, position := q4\<rparr>"
  let ?w = "image_boot b ?im"
  have w: "take 500 b @ ?ib @ drop 502 ?b = ?w" "length ?w = 512" using b(1) by (simp_all add: image_boot_def)
  have w4: "written ?o4 = ?w @ take 4 sys @ (take 4 (drop 4 sys) @ take 4 (drop 8 sys) @ drop 12 sys @ usr)"
    using sy by (simp add: w(1) [symmetric])
  let ?l1 = "length_bytes (of_nat (length sys))" and ?l2 = "length_bytes (of_nat (length usr))"
  have ll: "length (length_bytes k) = 4" for k by (simp add: length_bytes_def)
  obtain q5 where 5: "patch 512 ?l1 ?o4 = Inr (?o4\<lparr>written := ?w @ ?l1 @ take 4 (drop 4 sys) @ take 4 (drop 8 sys) @ drop 12 sys @ usr, position := q5\<rparr>)"
    using patch_inside [of ?o4 ?w "take 4 sys" "take 4 (drop 4 sys) @ take 4 (drop 8 sys) @ drop 12 sys @ usr" 512 ?l1, OF w4 w(2)] s(2) len b r by (auto simp: blank_def ll)
  let ?o5 = "?o4\<lparr>written := ?w @ ?l1 @ take 4 (drop 4 sys) @ take 4 (drop 8 sys) @ drop 12 sys @ usr, position := q5\<rparr>"
  obtain q6 where 6: "patch 516 ?l2 ?o5 = Inr (?o5\<lparr>written := (?w @ ?l1) @ ?l2 @ take 4 (drop 8 sys) @ drop 12 sys @ usr, position := q6\<rparr>)"
    using patch_inside [of ?o5 "?w @ ?l1" "take 4 (drop 4 sys)" "take 4 (drop 8 sys) @ drop 12 sys @ usr" 516 ?l2] s(2) w(2) len b r
    by (auto simp: blank_def ll)
  let ?o6 = "?o5\<lparr>written := (?w @ ?l1) @ ?l2 @ take 4 (drop 8 sys) @ drop 12 sys @ usr, position := q6\<rparr>"
  obtain q7 where 7: "patch 520 (length_bytes 0x7E2B) ?o6 = Inr (?o6\<lparr>written := ((?w @ ?l1) @ ?l2) @ length_bytes 0x7E2B @ drop 12 sys @ usr, position := q7\<rparr>)"
    using patch_inside [of ?o6 "(?w @ ?l1) @ ?l2" "take 4 (drop 8 sys)" "drop 12 sys @ usr" 520 "length_bytes 0x7E2B"] s(2) w(2) len b r
    by (auto simp: blank_def ll)
  have "build_main fs [n1, n2, n3] (blank n) =
      Inr (?o6\<lparr>written := ((?w @ ?l1) @ ?l2) @ length_bytes 0x7E2B @ drop 12 sys @ usr, position := q7\<rparr>)"
    unfolding build_main_def using minix_open_ok [of fs n1 f1 h b, OF f(1-3)] b 1 2 3 4 5 6 7 s(1) u(1)
    by (simp add: open_file_def Let_def)
  then show ?thesis by (simp add: image_of_def)
qed

text \<open>The lengths read back as the kernel reads them.\<close>

lemma length_bytes_decode:
  assumes "n < 2 ^ 24"
  shows "dword_of (length_bytes (of_nat n) ! 0) (length_bytes (of_nat n) ! 1)
      (length_bytes (of_nat n) ! 2) (length_bytes (of_nat n) ! 3) = of_nat n"
proof -
  have m: "(0xff :: u32) = mask 8" by (simp add: mask_eq_exp_minus_1)
  have hi: "\<not> bit (of_nat n :: u32) k" if k: "24 \<le> k" for k
  proof -
    have "(2 :: nat) ^ 24 \<le> 2 ^ k" using k by (intro power_increasing) simp_all
    then have "n < 2 ^ k" using assms by linarith
    then have "unat (drop_bit k (of_nat n :: u32)) = 0"
      using assms by (subst unat_drop_bit_eq) (simp add: unat_of_nat_u32 drop_bit_eq_div)
    then have "drop_bit k (of_nat n :: u32) = 0" by (simp only: unat_eq_0)
    then show ?thesis by (simp add: bit_iff_odd_drop_bit)
  qed
  have "bit (dword_of (length_bytes (of_nat n) ! 0) (length_bytes (of_nat n) ! 1)
      (length_bytes (of_nat n) ! 2) (length_bytes (of_nat n) ! 3)) k = bit (of_nat n :: u32) k" if "k < 32" for k
  proof -
    consider "k < 8" | "8 \<le> k" "k < 16" | "16 \<le> k" "k < 24" | "24 \<le> k" by linarith
    then show ?thesis
      using that hi by cases (auto simp: length_bytes_def dword_of_def m bit_simps)
  qed
  then show ?thesis by (intro bit_word_eqI) simp
qed

section \<open>Properties\<close>

text \<open>The double word at offset \<open>i\<close> of a file.\<close>

definition dword_at :: "u8 list \<Rightarrow> nat \<Rightarrow> u32" where
  "dword_at xs i = dword_of (xs ! i) (xs ! (i + 1)) (xs ! (i + 2)) (xs ! (i + 3))"

lemma dword_at_append:
  "length a = i \<Longrightarrow> 4 \<le> length b \<Longrightarrow> dword_at (a @ b @ c) i = dword_of (b ! 0) (b ! 1) (b ! 2) (b ! 3)"
  by (cases b) (auto simp: dword_at_def nth_append)

lemma image_of_fields:
  assumes b: "boot_ok b" and s: "12 \<le> length sys" "length sys < 2 ^ 24" and u: "length usr < 2 ^ 24"
  shows "length (image_of b sys usr) = 512 + length sys + length usr"
    "dword_at (image_of b sys usr) 512 = of_nat (length sys)"
    "dword_at (image_of b sys usr) 516 = of_nat (length usr)"
    "12 \<le> i \<Longrightarrow> i < length sys \<Longrightarrow> image_of b sys usr ! (512 + i) = sys ! i"
    "image_of b sys usr ! (512 + length sys + i) = usr ! i"
    "image_of b sys usr ! 510 = 0x55" "image_of b sys usr ! 511 = 0xaa"
proof -
  let ?im = "(of_nat (length sys) + of_nat (length usr) + 15) div 16 :: u32"
  let ?w = "image_boot b ?im"
  let ?l = "\<lambda>n. length_bytes (of_nat n)"
  have b': "length b = 512" "b ! 510 = 0x55" "b ! 511 = 0xaa" using b by (simp_all add: boot_ok_def)
  have w: "length ?w = 512" using b'(1) by (simp add: image_boot_def)
  have l [simp]: "length (length_bytes k) = 4" for k by (simp add: length_bytes_def)
  have img: "image_of b sys usr = ?w @ ?l (length sys) @ ?l (length usr) @ length_bytes 0x7E2B @ drop 12 sys @ usr"
    by (simp add: image_of_def)
  show "length (image_of b sys usr) = 512 + length sys + length usr" using w s(1) by (simp add: img)
  show "dword_at (image_of b sys usr) 512 = of_nat (length sys)"
    unfolding img using dword_at_append [OF w, of "?l (length sys)"] length_bytes_decode [OF s(2)] by simp
  show "dword_at (image_of b sys usr) 516 = of_nat (length usr)"
    unfolding img using dword_at_append [of "?w @ ?l (length sys)" 516 "?l (length usr)"] w
      length_bytes_decode [OF u] by simp
  show "image_of b sys usr ! (512 + i) = sys ! i" if "12 \<le> i" "i < length sys"
  proof -
    let ?k = "i - 12" and ?p = "?w @ ?l (length sys) @ ?l (length usr) @ length_bytes 0x7E2B"
    have k: "12 + ?k = i" using that(1) by simp
    have "?k < length (drop 12 sys)" using that by (simp add: diff_less_mono)
    then have "(drop 12 sys @ usr) ! ?k = drop 12 sys ! ?k" by (simp only: nth_append if_True)
    also have "\<dots> = sys ! i" using s(1) nth_drop [of 12 sys ?k] k by (simp only: simp_thms)
    finally have "(drop 12 sys @ usr) ! ?k = sys ! i" .
    moreover have "image_of b sys usr = ?p @ drop 12 sys @ usr" by (simp add: img)
    moreover have "length ?p + ?k = 512 + i" using w k by simp
    ultimately show ?thesis by (metis nth_append_length_plus)
  qed
  have "image_of b sys usr =
      (?w @ ?l (length sys) @ ?l (length usr) @ length_bytes 0x7E2B @ drop 12 sys) @ usr" by (simp add: img)
  moreover have "length (?w @ ?l (length sys) @ ?l (length usr) @ length_bytes 0x7E2B @ drop 12 sys) =
      512 + length sys" using w s(1) by simp
  ultimately show "image_of b sys usr ! (512 + length sys + i) = usr ! i"
    by (metis nth_append_length_plus)
  show "image_of b sys usr ! 510 = 0x55" "image_of b sys usr ! 511 = 0xaa"
    using w b' by (simp_all add: img image_boot_def nth_append)
qed

text \<open>
  C37. From a valid boot block, a system of at least 12 bytes and a program, build writes the
  image the kernel expects: 512 boot bytes with the boot flag, the lengths of the system and of
  the program as readable double words at its start, then the rest of the system and the
  program.
\<close>

theorem build_lays_out_image:
  assumes "fs n1 = Some f1" "bytes f1 = h @ b" "minix_ok h" "boot_ok b"
    and "fs n2 = Some \<lparr>bytes = sys, st_size = length sys\<rparr>" "12 \<le> length sys" "length sys < 2 ^ 24"
    and "fs n3 = Some \<lparr>bytes = usr, st_size = length usr\<rparr>" "length usr < 2 ^ 24"
    and "512 + length sys + length usr \<le> n"
  shows "\<exists>out img. build_main fs [n1, n2, n3] (blank n) = Inr out \<and> written out = img \<and>
    length img = 512 + length sys + length usr \<and> img ! 510 = 0x55 \<and> img ! 511 = 0xaa \<and>
    dword_at img 512 = of_nat (length sys) \<and> dword_at img 516 = of_nat (length usr) \<and>
    (\<forall>i. 12 \<le> i \<and> i < length sys \<longrightarrow> img ! (512 + i) = sys ! i) \<and>
    (\<forall>i < length usr. img ! (512 + length sys + i) = usr ! i)"
  using build_main_image [OF assms(1-6) _ assms(8) _ assms(10)] image_of_fields [OF assms(4,6,7,9)] assms(7,9)
  by auto

theorem build_lays_out_image_witness:
  "\<exists>out img. build_main [''b'' \<mapsto> \<lparr>bytes = minix_hdr @ replicate 24 0 @ replicate 510 0 @ [0x55, 0xaa], st_size = 544\<rparr>,
      ''s'' \<mapsto> \<lparr>bytes = replicate 20 1, st_size = 20\<rparr>, ''u'' \<mapsto> \<lparr>bytes = replicate 7 2, st_size = 7\<rparr>]
      [''b'', ''s'', ''u''] (blank 2000) = Inr out \<and> written out = img \<and> length img = 539 \<and>
    dword_at img 512 = 20 \<and> dword_at img 516 = 7 \<and> img ! (532 + 3) = 2"
proof -
  let ?f = "\<lparr>bytes = minix_hdr @ replicate 24 0 @ replicate 510 0 @ [0x55, 0xaa], st_size = 544\<rparr>"
  have h: "minix_ok (minix_hdr @ replicate 24 0)"
    by (simp add: minix_ok_def minix_hdr_def lb_def dword_of_def nth_append)
  have b: "boot_ok (replicate 510 0 @ [0x55, 0xaa])" by (simp add: boot_ok_def nth_append)
  from build_lays_out_image [of "[''b'' \<mapsto> ?f, ''s'' \<mapsto> \<lparr>bytes = replicate 20 1, st_size = 20\<rparr>,
      ''u'' \<mapsto> \<lparr>bytes = replicate 7 2, st_size = 7\<rparr>]" "''b''" ?f _ _ "''s''" "replicate 20 1" "''u''" "replicate 7 2" 2000,
      OF _ _ h b]
  obtain out where "build_main [''b'' \<mapsto> ?f, ''s'' \<mapsto> \<lparr>bytes = replicate 20 1, st_size = 20\<rparr>,
      ''u'' \<mapsto> \<lparr>bytes = replicate 7 2, st_size = 7\<rparr>] [''b'', ''s'', ''u''] (blank 2000) = Inr out"
    "length (written out) = 539" "dword_at (written out) 512 = 20" "dword_at (written out) 516 = 7"
    "\<forall>i<7. written out ! (532 + i) = replicate 7 2 ! i"
    by auto
  moreover from this(5) have "written out ! (532 + 3) = replicate 7 2 ! 3" by (elim allE [where x = 3]) simp
  ultimately show ?thesis by auto
qed

end
