(* ===== verification/Libc.thy ===== *)
theory Libc
  imports Prelude
begin

text \<open>
  The user library \<open>libc.c\<close>: \<open>strlen\<close>, \<open>itoa\<close> and the message \<open>perror\<close> writes. A \<open>char *\<close> is the
  array it points to, as a list; an access outside of it is \<open>None\<close>. The lemmas give the decimal
  numeral \<open>itoa\<close> leaves in the buffer, and that reading it back gives the number.
\<close>

section \<open>The code\<close>

text \<open>\<open>while (a[i]!=0) i++;\<close>\<close>

function strlen_from :: "u8 list \<Rightarrow> nat \<Rightarrow> nat option" where
  "strlen_from a i =
     (if i < length a then (if a ! i \<noteq> 0 then strlen_from a (i + 1) else Some i) else None)"
  by pat_completeness auto
termination by (relation "measure (\<lambda>(a, i). length a - i)") auto

declare strlen_from.simps [simp del]

definition strlen :: "u8 list \<Rightarrow> nat option" where
  "strlen a = strlen_from a 0"

definition set_char :: "u8 list \<Rightarrow> nat \<Rightarrow> u8 \<Rightarrow> u8 list option" where
  "set_char b i c = (if i < length b then Some (b[i := c]) else None)"

text \<open>The first loop of \<open>itoa\<close> stores the digits from the last one on.\<close>

function itoa_digits :: "int \<Rightarrow> u8 list \<Rightarrow> nat \<Rightarrow> (u8 list \<times> nat) option" where
  "itoa_digits a b i =
     (if a > 0 then
        do { b1 \<leftarrow> set_char b i (word_of_int (a mod 10 + 48)); itoa_digits (a div 10) b1 (i + 1) }
      else Some (b, i))"
  by pat_completeness auto
termination by (relation "measure (\<lambda>(a, b, i). nat a)") auto

text \<open>The second loop turns them round. The indices are within the first \<open>i\<close> characters.\<close>

function itoa_swap :: "u8 list \<Rightarrow> nat \<Rightarrow> nat \<Rightarrow> u8 list" where
  "itoa_swap b i i1 =
     (if i1 < i div 2 then
        (let c = b ! i1; b1 = b[i1 := b ! (i - i1 - 1)]
         in itoa_swap (b1[i - i1 - 1 := c]) i (i1 + 1))
      else b)"
  by pat_completeness auto
termination by (relation "measure (\<lambda>(b, i, i1). i div 2 - i1)") auto

declare itoa_digits.simps [simp del] itoa_swap.simps [simp del]

definition itoa :: "int \<Rightarrow> u8 list \<Rightarrow> u8 list option" where
  "itoa a b =
     (if a = 0 then do { b1 \<leftarrow> set_char b 0 48; set_char b1 1 0 }
      else do { (b1, i) \<leftarrow> itoa_digits a b 0; set_char (itoa_swap b1 i 0) i 0 })"

definition chars :: "string \<Rightarrow> u8 list" where
  "chars = List.map (\<lambda>c. of_nat (of_char c))"

text \<open>
  The buffer and the length \<open>perror\<close> passes to \<open>write(1, ...)\<close>. The source file is UTF-8, so the
  letter n with tilde of the EFAULT message is two bytes.
\<close>

definition perror :: "int \<Rightarrow> u8 list \<times> int" where
  "perror errno =
     (if errno = ENOSYS then (chars ''No existe syscall'', 17)
      else if errno = EBADF then (chars ''Mal descriptor'', 14)
      else if errno = EACCES then (chars ''No acceso'', 9)
      else if errno = EFAULT then (chars ''Mal tama'' @ [0xC3, 0xB1] @ chars ''o'', 10)
      else if errno = EINVAL then
        (chars ''Malos parametros'', int (the (strlen (chars ''Malos parametros'' @ [0]))))
      else (chars ''No error'', 8))"

section \<open>Strings\<close>

lemma strlen_from_finds:
  "i \<le> n \<Longrightarrow> n < length a \<Longrightarrow> a ! n = 0 \<Longrightarrow> \<forall>j. i \<le> j \<and> j < n \<longrightarrow> a ! j \<noteq> 0 \<Longrightarrow> strlen_from a i = Some n"
proof (induction a i rule: strlen_from.induct)
  case (1 a i)
  then show ?case by (cases "i = n") (subst strlen_from.simps, simp)+
qed

lemma strlen_finds:
  "n < length a \<Longrightarrow> a ! n = 0 \<Longrightarrow> \<forall>j<n. a ! j \<noteq> 0 \<Longrightarrow> strlen a = Some n"
  by (simp add: strlen_def strlen_from_finds)

section \<open>Decimal numerals\<close>

text \<open>The digits of a positive number, the last one first.\<close>

fun digits :: "nat \<Rightarrow> u8 list" where
  "digits n = (if n = 0 then [] else of_nat (n mod 10 + 48) # digits (n div 10))"

declare digits.simps [simp del]

definition numeral_value :: "u8 list \<Rightarrow> nat" where
  "numeral_value ds = foldl (\<lambda>v d. 10 * v + (unat d - 48)) 0 ds"

lemma numeral_value_snoc: "numeral_value (ds @ [d]) = 10 * numeral_value ds + (unat d - 48)"
  by (simp add: numeral_value_def)

lemma digit_value: "n < 10 \<Longrightarrow> unat (of_nat n + 48 :: u8) = n + 48"
  using unat_of_nat [of "n + 48", where 'a = 8] by simp

lemma digits_value: "numeral_value (rev (digits n)) = n"
proof (induction n rule: digits.induct)
  case (1 n)
  then show ?case
    by (subst digits.simps) (simp add: numeral_value_snoc digit_value, simp add: numeral_value_def)
qed

lemma digits_nonzero: "d \<in> set (digits n) \<Longrightarrow> d \<noteq> 0"
proof (induction n rule: digits.induct)
  case (1 n)
  have "unat (of_nat (n mod 10) + 48 :: u8) \<noteq> 0" by (simp add: digit_value)
  then have "of_nat (n mod 10) + 48 \<noteq> (0 :: u8)" by (metis unat_0)
  then show ?case using 1 by (subst (asm) (2) digits.simps) (auto split: if_splits)
qed

lemma digits_length: "n < 10 ^ k \<Longrightarrow> length (digits n) \<le> k"
proof (induction k arbitrary: n)
  case 0
  then show ?case by (simp add: digits.simps)
next
  case (Suc k)
  then have "length (digits (n div 10)) \<le> k" by simp
  then show ?case by (subst digits.simps) simp
qed

section \<open>itoa\<close>

lemma itoa_digits_stores:
  "i + length (digits n) \<le> length b \<Longrightarrow>
    itoa_digits (int n) b i =
      Some (take i b @ digits n @ drop (i + length (digits n)) b, i + length (digits n))"
proof (induction n arbitrary: b i rule: digits.induct)
  case (1 n)
  show ?case
  proof (cases "n = 0")
    case True
    then show ?thesis by (simp add: itoa_digits.simps digits.simps)
  next
    case False
    let ?d = "of_nat (n mod 10 + 48) :: u8"
    have d: "digits n = ?d # digits (n div 10)" using False by (subst digits.simps) simp
    have "int n mod 10 = int (n mod 10)" by (simp add: zmod_int)
    then have e: "word_of_int (int n mod 10) = (of_nat (n mod 10) :: u8)" by (simp only: of_int_of_nat_eq)
    have i: "i < length b" using "1.prems" d by simp
    have "itoa_digits (int (n div 10)) (b[i := ?d]) (i + 1) =
        Some (take (i + 1) (b[i := ?d]) @ digits (n div 10) @
          drop (i + 1 + length (digits (n div 10))) (b[i := ?d]), i + 1 + length (digits (n div 10)))"
      using "1.prems" d False by (intro "1.IH") simp_all
    moreover have "take (i + 1) (b[i := ?d]) = take i b @ [?d]" using i by (simp add: take_Suc_conv_app_nth)
    moreover have "itoa_digits (int n) b i = itoa_digits (int (n div 10)) (b[i := ?d]) (i + 1)"
      using False i by (subst itoa_digits.simps) (simp add: set_char_def e zdiv_int)
    ultimately show ?thesis using d by (simp add: drop_update_cancel)
  qed
qed

text \<open>The invariant of the swapping loop: the outer characters are in their final place.\<close>

lemma itoa_swap_nth:
  "i \<le> length b \<Longrightarrow> i1 \<le> i div 2 \<Longrightarrow> k < i \<Longrightarrow>
    itoa_swap b i i1 ! k = (if i1 \<le> k \<and> k < i - i1 then b ! (i - 1 - k) else b ! k)"
proof (induction b i i1 arbitrary: k rule: itoa_swap.induct)
  case (1 b i i1)
  show ?case
  proof (cases "i1 < i div 2")
    case False
    then have "i1 = i div 2" using "1.prems" by simp
    then have "i1 \<le> k \<and> k < i - i1 \<Longrightarrow> i - 1 - k = k" by linarith
    then show ?thesis using False by (subst itoa_swap.simps) simp
  next
    case True
    let ?b = "b[i1 := b ! (i - i1 - 1), i - i1 - 1 := b ! i1]"
    have "itoa_swap b i i1 = itoa_swap ?b i (i1 + 1)" using True by (subst itoa_swap.simps) (simp add: Let_def)
    moreover have "itoa_swap ?b i (i1 + 1) ! k =
        (if i1 + 1 \<le> k \<and> k < i - (i1 + 1) then ?b ! (i - 1 - k) else ?b ! k)"
      using "1.prems" True by (intro "1.IH" [OF True refl refl]) simp_all
    ultimately show ?thesis using "1.prems" True by (auto simp: nth_list_update)
  qed
qed

lemma itoa_swap_length: "length (itoa_swap b i i1) = length b"
  by (induction b i i1 rule: itoa_swap.induct) (subst itoa_swap.simps, simp add: Let_def)

lemma itoa_swap_rest: "i \<le> length b \<Longrightarrow> i \<le> k \<Longrightarrow> itoa_swap b i i1 ! k = b ! k"
proof (induction b i i1 rule: itoa_swap.induct)
  case (1 b i i1)
  then show ?case by (subst itoa_swap.simps) (simp add: Let_def)
qed

lemma itoa_swap_rev: "i = length ds \<Longrightarrow> itoa_swap (ds @ r) i 0 = rev ds @ r"
  by (intro nth_equalityI)
    (auto simp: itoa_swap_length itoa_swap_nth itoa_swap_rest nth_append rev_nth)

text \<open>The numeral and the terminating zero; the rest of the buffer stays.\<close>

lemma itoa_positive:
  assumes "0 < n" "length (digits n) < length b"
  shows "itoa (int n) b = Some (rev (digits n) @ [0] @ drop (length (digits n) + 1) b)"
proof -
  let ?i = "length (digits n)"
  have "itoa_digits (int n) b 0 = Some (digits n @ drop ?i b, ?i)"
    using itoa_digits_stores [of 0 n b] assms(2) by simp
  moreover have "(drop ?i b)[0 := 0] = 0 # drop (?i + 1) b"
    using assms(2) by (simp add: Cons_nth_drop_Suc [symmetric])
  ultimately show ?thesis
    using assms by (simp add: itoa_def itoa_swap_rev set_char_def list_update_append)
qed

lemma itoa_zero: "2 \<le> length b \<Longrightarrow> itoa 0 b = Some (48 # 0 # drop 2 b)"
  by (cases b; cases "tl b") (auto simp: itoa_def set_char_def)

lemma itoa_negative: "a < 0 \<Longrightarrow> b \<noteq> [] \<Longrightarrow> itoa a b = Some (b[0 := 0])"
  by (simp add: itoa_def itoa_digits.simps itoa_swap.simps set_char_def)

section \<open>Properties\<close>

lemma itoa_writes:
  assumes "0 \<le> a" "a < 2 ^ 31" "11 \<le> length b"
  shows "\<exists>b' k. itoa a b = Some b' \<and> strlen b' = Some k \<and> 1 \<le> k \<and> k \<le> 10 \<and>
    numeral_value (take k b') = nat a \<and> length b' = length b \<and> drop (k + 1) b' = drop (k + 1) b"
proof (cases "a = 0")
  case True
  have "strlen (48 # 0 # drop 2 b) = Some 1" by (rule strlen_finds) simp_all
  moreover have "Suc (Suc (length b - 2)) = length b" using assms(3) by linarith
  ultimately show ?thesis using assms(3) itoa_zero [of b] True
    by (intro exI [of _ "48 # 0 # drop 2 b"] exI [of _ 1]) (simp add: numeral_value_def numeral_2_eq_2)
next
  case False
  let ?n = "nat a" let ?k = "length (digits ?n)"
  have n: "0 < ?n" "?n < 10 ^ 10" using assms False by simp_all
  have k: "?k \<le> 10" using digits_length [OF n(2)] .
  have "1 \<le> ?k" using n(1) by (subst digits.simps) simp
  let ?b = "rev (digits ?n) @ [0] @ drop (?k + 1) b"
  have run: "itoa a b = Some ?b" using itoa_positive [OF n(1), of b] k assms by simp
  have "\<forall>j<?k. ?b ! j \<noteq> 0"
    using digits_nonzero [of _ ?n] by (auto simp: nth_append rev_nth)
  then have "strlen ?b = Some ?k" by (intro strlen_finds) (simp_all add: nth_append)
  then show ?thesis using run k \<open>1 \<le> ?k\<close> assms(3) digits_value [of ?n] by (intro exI [of _ ?b] exI [of _ ?k]) simp
qed

text \<open>
  C39. For a non-negative int and a buffer of at least 11 characters, itoa leaves a terminated
  string of 1 to 10 characters whose value as a decimal numeral is the number, and touches
  nothing after it.
\<close>

theorem itoa_roundtrip:
  assumes "0 \<le> a" "a < 2 ^ 31" "11 \<le> length b"
  shows "\<exists>b' k. itoa a b = Some b' \<and> strlen b' = Some k \<and> 1 \<le> k \<and> k \<le> 10 \<and>
    numeral_value (take k b') = nat a \<and> length b' = length b \<and> drop (k + 1) b' = drop (k + 1) b"
  using assms by (rule itoa_writes)

theorem itoa_roundtrip_witness:
  "\<exists>b' k. itoa 2041 (replicate 12 7) = Some b' \<and> strlen b' = Some k \<and> numeral_value (take k b') = 2041"
  using itoa_roundtrip [of 2041 "replicate 12 7"] by auto

end
