(* ===== verification/UserProg.thy ===== *)
theory UserProg
  imports Libc
begin

text \<open>
  The user program \<open>user.c\<close>. It does nothing but call the library, so it is modelled by the calls it
  makes: a program is a tree that branches on the results of the calls. \<open>runjp\<close> is in \<open>libauxjp.a\<close> and
  is one of the calls. \<open>MODE_USER\<close> is a constant of the source that chooses one of the tests in \<open>main\<close>;
  it is a parameter here.
\<close>

section \<open>Programs\<close>

text \<open>A call with the array its pointer argument points to. \<open>Clone\<close> always starts \<open>doStuff\<close> on \<open>stackClone\<close>.\<close>

datatype ucall = Write int "u8 list" int | Writefast int "u8 list" int | Read int int | Getpid | Fork | Clone
  | Exit | Get_stats int | Sem_init int int | Perror | Runjp

text \<open>\<open>Spin\<close> is \<open>while(1)\<close>; \<open>Undefined\<close> is an access outside an array, or what follows \<open>exit\<close>.\<close>

datatype uprog = Call ucall "int \<Rightarrow> uprog" | Spin | Undefined

definition do_call :: "ucall \<Rightarrow> uprog \<Rightarrow> uprog" where
  "do_call c p = Call c (\<lambda>_. p)"

definition lit :: "string \<Rightarrow> u8 list" where
  "lit cs = chars cs @ [0]"

text \<open>\<open>write(1, a, strlen(a))\<close> and \<open>writefast(1, a, strlen(a))\<close>.\<close>

definition write_str :: "u8 list \<Rightarrow> uprog \<Rightarrow> uprog" where
  "write_str a p = (case strlen a of Some n \<Rightarrow> do_call (Write 1 a (int n)) p | None \<Rightarrow> Undefined)"

definition writefast_str :: "u8 list \<Rightarrow> uprog \<Rightarrow> uprog" where
  "writefast_str a p = (case strlen a of Some n \<Rightarrow> do_call (Writefast 1 a (int n)) p | None \<Rightarrow> Undefined)"

text \<open>\<open>itoa(n, b);\<close> the rest of the program goes on with the new contents of the array.\<close>

definition itoa_then :: "int \<Rightarrow> u8 list \<Rightarrow> (u8 list \<Rightarrow> uprog) \<Rightarrow> uprog" where
  "itoa_then n b p = (case itoa n b of Some b' \<Rightarrow> p b' | None \<Rightarrow> Undefined)"

section \<open>The code\<close>

text \<open>The thread function; \<open>buffS\<close> is its local array of 12 characters.\<close>

definition doStuff :: "u8 list \<Rightarrow> uprog" where
  "doStuff buffS =
     write_str (lit ''\<newline>'') (write_str (lit ''PID ACTUAL: '')
       (Call Getpid (\<lambda>pid. itoa_then pid buffS (\<lambda>b. writefast_str b
         ((write_str (lit ''-doStuff-'') ^^ 10) (do_call Exit Undefined))))))"

text \<open>
  The branches of \<open>main\<close>. \<open>buff\<close> is the global array of 24 characters, \<open>readBuff\<close> the local array after
  the call of \<open>read\<close>. Mind \<open>strlen("hijo\n")\<close> and \<open>strlen("padre\n")\<close> for strings without the newline.
\<close>

definition main_fork :: "u8 list \<Rightarrow> uprog" where
  "main_fork buff =
     Call Fork (\<lambda>i.
       if i = 0 then
         do_call (Writefast 1 (lit ''hijo'') 5)
           (Call Getpid (\<lambda>p. do_call (Get_stats p) (writefast_str (lit ''saliendo hijo\<newline>'') (do_call Exit Spin))))
       else
         do_call (Writefast 1 (lit ''padre'') 6)
           (itoa_then i buff (\<lambda>b. do_call (Write 1 (lit ''PID hijo: '') 10) (write_str b
             (Call Getpid (\<lambda>p. do_call (Get_stats p) (write_str (lit ''\<newline>'') Spin)))))))"

definition main_clone :: "u8 list \<Rightarrow> uprog" where
  "main_clone buff =
     Call Clone (\<lambda>pidClone. itoa_then pidClone buff (\<lambda>b1. writefast_str b1
       (write_str (lit ''Escrito con write \<newline>'') (writefast_str (lit ''Escrito con write fast \<newline>'')
         (Call Getpid (\<lambda>pid. itoa_then pid b1 (\<lambda>b2. write_str (lit ''PID ACTUAL: '')
           (writefast_str b2 (write_str (lit ''\<newline>'') (main_fork b2))))))))))"

definition main :: "int \<Rightarrow> u8 list \<Rightarrow> u8 list \<Rightarrow> uprog" where
  "main MODE_USER buff readBuff =
     (if MODE_USER = 1 then main_clone buff
      else if MODE_USER = 2 then
        do_call (Sem_init (- 1) 2) (do_call Perror (do_call (Sem_init 2 0) (do_call (Sem_init 2 0) Spin)))
      else if MODE_USER = 4 then
        Call (Read 0 1) (\<lambda>r. itoa_then r buff (\<lambda>b. writefast_str b (writefast_str readBuff Spin)))
      else do_call Runjp Spin)"

section \<open>Runs\<close>

text \<open>The calls a program makes when they have the results \<open>as\<close>.\<close>

fun calls :: "uprog \<Rightarrow> int list \<Rightarrow> ucall list" where
  "calls (Call c k) (a # as) = c # calls (k a) as"
| "calls (Call c k) [] = [c]"
| "calls Spin as = []"
| "calls Undefined as = []"

lemma strlen_lit: "0 \<notin> set (chars cs) \<Longrightarrow> strlen (lit cs) = Some (length cs)"
proof -
  assume z: "0 \<notin> set (chars cs)"
  have l: "length (chars cs) = length cs" by (simp add: chars_def)
  have "chars cs ! j \<noteq> 0" if "j < length cs" for j using z nth_mem [of j "chars cs"] that l by metis
  then show ?thesis unfolding lit_def using l by (intro strlen_finds) (simp_all add: nth_append)
qed

lemma calls_do_call: "as \<noteq> [] \<Longrightarrow> calls (do_call c p) as = c # calls p (tl as)"
  by (cases as) (simp_all add: do_call_def)

lemma calls_write_str: "0 \<notin> set (chars cs) \<Longrightarrow> as \<noteq> [] \<Longrightarrow>
    calls (write_str (lit cs) p) as = Write 1 (lit cs) (int (length cs)) # calls p (tl as)"
  by (simp add: write_str_def strlen_lit calls_do_call)

lemma calls_repeat:
  assumes "0 \<notin> set (chars cs)" "n < length as"
  shows "calls ((write_str (lit cs) ^^ n) p) as = replicate n (Write 1 (lit cs) (int (length cs))) @ calls p (drop n as)"
  using assms(2)
proof (induction n arbitrary: as)
  case (Suc n)
  then show ?case using assms(1) by (cases as) (simp_all add: calls_write_str)
qed simp

text \<open>
  C38. The thread of the user program, whatever PID getpid gives it, makes exactly these calls:
  it writes its heading, the decimal of the PID with the length of the string itoa made, ten
  markers, and exits; its array of 12 characters is large enough and no access is outside of it.
\<close>

theorem doStuff_calls:
  assumes "0 \<le> pid" "pid < 2 ^ 31" "length buffS = 12" "length as = 12"
  shows "\<exists>b k. strlen b = Some k \<and> numeral_value (take k b) = nat pid \<and>
    calls (doStuff buffS) ([r1, r2, pid] @ as) =
      [Write 1 (lit ''\<newline>'') 1, Write 1 (lit ''PID ACTUAL: '') 12, Getpid, Writefast 1 b (int k)] @
      replicate 10 (Write 1 (lit ''-doStuff-'') 9) @ [Exit]"
proof -
  obtain b k where b: "itoa pid buffS = Some b" "strlen b = Some k" "numeral_value (take k b) = nat pid"
    using itoa_writes [of pid buffS] assms by auto
  have z: "0 \<notin> set (chars ''\<newline>'')" "0 \<notin> set (chars ''PID ACTUAL: '')" "0 \<notin> set (chars ''-doStuff-'')"
    by (simp_all add: chars_def)
  have t: "tl as \<noteq> []" "as \<noteq> []" "10 < length (tl as)" using assms(4) by (auto simp: tl_Nil)
  have e: "calls (do_call Exit Undefined) (drop 10 (tl as)) = [Exit]"
    using assms(4) by (subst calls_do_call) simp_all
  have "calls (writefast_str b ((write_str (lit ''-doStuff-'') ^^ 10) (do_call Exit Undefined))) as =
      Writefast 1 b (int k) # replicate 10 (Write 1 (lit ''-doStuff-'') 9) @ [Exit]"
    using calls_repeat [OF z(3) t(3), of "do_call Exit Undefined"] e t(2) b(2)
    by (simp add: writefast_str_def calls_do_call)
  then show ?thesis
    using b by (intro exI [of _ b] exI [of _ k]) (simp add: doStuff_def calls_write_str z itoa_then_def)
qed

theorem doStuff_calls_witness:
  "\<exists>b k. strlen b = Some k \<and> numeral_value (take k b) = 45 \<and>
    last (calls (doStuff (replicate 12 0)) ([1, 12, 45] @ replicate 12 9)) = Exit"
proof -
  obtain b k where "strlen b = Some k" "numeral_value (take k b) = 45"
    "calls (doStuff (replicate 12 0)) ([1, 12, 45] @ replicate 12 9) =
      [Write 1 (lit ''\<newline>'') 1, Write 1 (lit ''PID ACTUAL: '') 12, Getpid, Writefast 1 b (int k)] @
      replicate 10 (Write 1 (lit ''-doStuff-'') 9) @ [Exit]"
    using doStuff_calls [of 45 "replicate 12 0" "replicate 12 9" 1 12] by auto
  moreover have "last (xs @ replicate 10 x @ [Exit]) = Exit" for xs x by simp
  ultimately show ?thesis by metis
qed

text \<open>As configured (\<open>MODE_USER\<close> is 455) the program calls \<open>runjp\<close> and loops.\<close>

lemma main_configured: "calls (main 455 buff readBuff) (r # as) = [Runjp]"
  by (simp add: main_def do_call_def)

end
