(* ===== verification/Entry.thy ===== *)
theory Entry
  imports Kernel
begin

text \<open>
  The entries to the kernel in assembly: the register frame \<open>SAVE_ALL\<close> and the processor build on the
  kernel stack, the table of \<open>sys_call_table.S\<close>, the dispatch of \<open>system_call_handler\<close> and
  \<open>syscall_handler_sysenter\<close> in \<open>entry.S\<close>, and the handlers of clock and keyboard. The frame fills
  the words 1008 to 1023 of the stack of the running process; the C functions find their arguments
  in its first words, because \<open>SAVE_ALL\<close> pushes \<open>ebx\<close> last. When the call switches to another process
  nothing returns to the user here. The results: the user gets its registers back, at once or after
  any run of the machine during which its process is suspended (\<open>suspended_run\<close>).
\<close>

section \<open>The frame\<close>

record regs =
  r_ebx :: u32
  r_ecx :: u32
  r_edx :: u32
  r_esi :: u32
  r_edi :: u32
  r_ebp :: u32
  r_eax :: u32
  r_ds :: u32
  r_es :: u32
  r_fs :: u32
  r_gs :: u32
  r_eip :: u32
  r_cs :: u32
  r_eflags :: u32
  r_esp :: u32
  r_ss :: u32

definition frame_words :: "regs \<Rightarrow> u32 list" where
  "frame_words r = [r_ebx r, r_ecx r, r_edx r, r_esi r, r_edi r, r_ebp r, r_eax r, r_ds r, r_es r, r_fs r,
     r_gs r, r_eip r, r_cs r, r_eflags r, r_esp r, r_ss r]"

text \<open>What the processor and \<open>SAVE_ALL\<close> push.\<close>

definition save_frame :: "regs \<Rightarrow> kstate \<Rightarrow> kstate" where
  "save_frame r s = s\<lparr>kstack := (kstack s)(cur s := (\<lambda>i. if 1008 \<le> i \<and> i < 1024
     then Data (frame_words r ! (i - 1008)) else kstack s (cur s) i))\<rparr>"

text \<open>\<open>4 * i\<close>(\<open>%esp\<close>) after \<open>SAVE_ALL\<close>.\<close>

definition frame_word :: "kstate \<Rightarrow> nat \<Rightarrow> u32 option" where
  "frame_word s i = (case kstack s (cur s) (1008 + i) of Data w \<Rightarrow> Some w | Code _ \<Rightarrow> None)"

text \<open>\<open>movl %eax, 0x18(%esp)\<close>.\<close>

definition set_frame_eax :: "u32 \<Rightarrow> kstate \<Rightarrow> kstate" where
  "set_frame_eax v s = s\<lparr>kstack := (kstack s)(cur s := (kstack s (cur s))(1014 := Data v))\<rparr>"

text \<open>\<open>RESTORE_ALL\<close> and \<open>iret\<close>.\<close>

definition restore_frame :: "kstate \<Rightarrow> regs option" where
  "restore_frame s =
     do {
       b \<leftarrow> frame_word s 0; c \<leftarrow> frame_word s 1; d \<leftarrow> frame_word s 2; si \<leftarrow> frame_word s 3;
       di \<leftarrow> frame_word s 4; bp \<leftarrow> frame_word s 5; a \<leftarrow> frame_word s 6; ds \<leftarrow> frame_word s 7;
       es \<leftarrow> frame_word s 8; fs \<leftarrow> frame_word s 9; gs \<leftarrow> frame_word s 10; ip \<leftarrow> frame_word s 11;
       cs \<leftarrow> frame_word s 12; fl \<leftarrow> frame_word s 13; sp \<leftarrow> frame_word s 14; ss \<leftarrow> frame_word s 15;
       Some \<lparr>r_ebx = b, r_ecx = c, r_edx = d, r_esi = si, r_edi = di, r_ebp = bp, r_eax = a, r_ds = ds,
         r_es = es, r_fs = fs, r_gs = gs, r_eip = ip, r_cs = cs, r_eflags = fl, r_esp = sp, r_ss = ss\<rparr>
     }"

section \<open>The table\<close>

datatype syscall = Sys_ni | Sys_exit | Sys_fork | Sys_write | Sys_gettime | Sys_clone | Sys_getpid
  | Sys_sem_init | Sys_sem_wait | Sys_sem_signal | Sys_sem_destroy | Sys_read | Sys_sbrk | Sys_get_stats

definition sys_call_table :: "syscall list" where
  "sys_call_table =
     [Sys_ni, Sys_exit, Sys_fork, Sys_ni, Sys_write, Sys_ni, Sys_ni, Sys_ni, Sys_ni, Sys_ni,
      Sys_gettime, Sys_ni, Sys_ni, Sys_ni, Sys_ni, Sys_ni, Sys_ni, Sys_ni, Sys_ni, Sys_clone,
      Sys_getpid, Sys_sem_init, Sys_sem_wait, Sys_sem_signal, Sys_sem_destroy, Sys_ni, Sys_ni, Sys_ni, Sys_ni, Sys_ni,
      Sys_read, Sys_sbrk, Sys_ni, Sys_ni, Sys_ni, Sys_get_stats]"

definition MAX_SYSCALL :: int where
  "MAX_SYSCALL = int (length sys_call_table)"

text \<open>A function that returns.\<close>

definition returning :: "(int \<times> kstate) option \<Rightarrow> (outcome \<times> kstate) option" where
  "returning m = map_option (\<lambda>(r, s). (Ret r, s)) m"

text \<open>
  \<open>call *sys_call_table(,%eax,4)\<close> with up to three arguments. The return address is word 1007 and the
  \<open>ebp\<close> pushed by the function is word 1006. \<open>kbuf\<close> is the address of the local buffer of \<open>sys_write\<close>.
\<close>

fun call_sys :: "u32 \<Rightarrow> syscall \<Rightarrow> u32 \<Rightarrow> u32 \<Rightarrow> u32 \<Rightarrow> kstate \<Rightarrow> (outcome \<times> kstate) option" where
  "call_sys kbuf Sys_ni a b c s = Some (Ret sys_ni_syscall, s)"
| "call_sys kbuf Sys_exit a b c s = map_option (\<lambda>s'. (Switched, s')) (sys_exit s)"
| "call_sys kbuf Sys_fork a b c s = returning (sys_fork 1006 s)"
| "call_sys kbuf Sys_write a b c s = returning (sys_write kbuf (sint a) b (sint c) s)"
| "call_sys kbuf Sys_gettime a b c s = Some (Ret (sys_gettime s), s)"
| "call_sys kbuf Sys_clone a b c s = returning (sys_clone 1006 a b s)"
| "call_sys kbuf Sys_getpid a b c s = Some (Ret (sys_getpid s), s)"
| "call_sys kbuf Sys_sem_init a b c s = returning (sys_sem_init (sint a) b s)"
| "call_sys kbuf Sys_sem_wait a b c s = sys_sem_wait (sint a) s"
| "call_sys kbuf Sys_sem_signal a b c s = returning (sys_sem_signal (sint a) s)"
| "call_sys kbuf Sys_sem_destroy a b c s = returning (sys_sem_destroy (sint a) s)"
| "call_sys kbuf Sys_read a b c s = sys_read (sint a) b (sint c) s"
| "call_sys kbuf Sys_sbrk a b c s = returning (map_option (\<lambda>(w, s'). (sint w, s')) (sys_sbrk (sint a) s))"
| "call_sys kbuf Sys_get_stats a b c s = returning (sys_get_stats (sint a) b s)"

section \<open>The handlers\<close>

text \<open>The end of a handler: the result, and the registers the user gets back.\<close>

definition return_to_user :: "u32 \<Rightarrow> kstate \<Rightarrow> (regs option \<times> kstate) option" where
  "return_to_user v s =
     do { let s1 = set_frame_eax v s; r \<leftarrow> restore_frame s1; Some (Some r, s1) }"

text \<open>The end of \<open>system_call_handler\<close>, also for a call that was suspended.\<close>

definition system_call_end :: "int \<Rightarrow> kstate \<Rightarrow> (regs option \<times> kstate) option" where
  "system_call_end v s = do { s1 \<leftarrow> statsLeaveSys s; return_to_user (word_of_int v) s1 }"

text \<open>
  \<open>int 0x80\<close>. The comparison is \<open>jg\<close>, so the number \<open>MAX_SYSCALL\<close> goes through and calls the word
  after the table, which is \<^term>\<open>None\<close>. The error path leaves out \<open>statsLeaveSys\<close>.
\<close>

definition system_call_handler :: "u32 \<Rightarrow> regs \<Rightarrow> kstate \<Rightarrow> (regs option \<times> kstate) option" where
  "system_call_handler kbuf r s =
     do {
       let s1 = save_frame r (enter_by_interrupt s);
       s2 \<leftarrow> statsEntrySys s1;
       let eax = sint (r_eax r);
       if eax < 0 \<or> eax > MAX_SYSCALL then return_to_user (word_of_int (- ENOSYS)) s2
       else if eax = MAX_SYSCALL then None
       else do {
         a \<leftarrow> frame_word s2 0; b \<leftarrow> frame_word s2 1; c \<leftarrow> frame_word s2 2;
         (out, s3) \<leftarrow> call_sys kbuf (sys_call_table ! nat eax) a b c s2;
         (case out of
            Ret v \<Rightarrow> system_call_end v s3
          | Switched \<Rightarrow> Some (None, s3))
       }
     }"

text \<open>
  \<open>sysenter\<close>: the processor gives no frame; the handler builds it from the stack pointer the wrapper
  left in \<open>ebp\<close> and the return address above it.
\<close>

definition sysenter_frame :: "u32 \<Rightarrow> regs \<Rightarrow> regs" where
  "sysenter_frame ip r =
     r\<lparr>r_ss := 0x2B, r_esp := r_ebp r, r_eflags := unset_bit 9 (r_eflags r), r_cs := 0x23, r_eip := ip\<rparr>"

text \<open>
  The part after \<open>sysenter_fin\<close>, also for a call that was suspended. \<open>sysexit\<close> takes \<open>eip\<close> from \<open>edx\<close>, \<open>esp\<close>
  from \<open>ecx\<close>, and \<open>cs\<close> and \<open>ss\<close> from the register that \<open>setIdt\<close> loads with the selector of the kernel. Nothing
  restores the flags of the user: he gets \<open>kflags\<close>, what the code of the kernel leaves in them, after \<open>sti\<close>.
\<close>

definition sysenter_end :: "u32 \<Rightarrow> int \<Rightarrow> kstate \<Rightarrow> (regs option \<times> kstate) option" where
  "sysenter_end kflags v s =
     do {
       let s1 = set_frame_eax (word_of_int v) s;
       s2 \<leftarrow> statsLeaveSys s1;
       r \<leftarrow> restore_frame s2;
       Some (Some (r\<lparr>r_edx := r_eip r, r_ecx := r_esp r, r_cs := 0x23, r_ss := 0x2B, r_eflags := set_bit 9 kflags\<rparr>), s2)
     }"

definition syscall_handler_sysenter :: "u32 \<Rightarrow> u32 \<Rightarrow> regs \<Rightarrow> kstate \<Rightarrow> (regs option \<times> kstate) option" where
  "syscall_handler_sysenter kbuf kflags r s =
     do {
       ip \<leftarrow> load32 (kmmu s) (memory s) (r_ebp r + 4);
       let s1 = save_frame (sysenter_frame ip r) (enter_by_sysenter s);
       s2 \<leftarrow> statsEntrySys s1;
       let eax = sint (r_eax r);
       (out, s3) \<leftarrow>
         (if eax < 0 \<or> eax > MAX_SYSCALL then Some (Ret (- ENOSYS), s2)
          else if eax = MAX_SYSCALL then None
          else do {
            a \<leftarrow> frame_word s2 0; b \<leftarrow> frame_word s2 1; c \<leftarrow> frame_word s2 2;
            call_sys kbuf (sys_call_table ! nat eax) a b c s2
          });
       (case out of
          Ret v \<Rightarrow> sysenter_end kflags v s3
        | Switched \<Rightarrow> Some (None, s3))
     }"

text \<open>
  The handlers of the interrupts; \<open>EOI\<close> only tells the interrupt controller. The clock has switched
  when another process runs, and the interrupted one goes on here when it gets the processor back.
\<close>

definition interrupt_end :: "kstate \<Rightarrow> (regs option \<times> kstate) option" where
  "interrupt_end s = do { s1 \<leftarrow> statsLeaveSys s; r \<leftarrow> restore_frame s1; Some (Some r, s1) }"

definition clock_handler :: "(console \<Rightarrow> console) \<Rightarrow> regs \<Rightarrow> kstate \<Rightarrow> (regs option \<times> kstate) option" where
  "clock_handler zeos_show_clock r s =
     do {
       let s1 = save_frame r (enter_by_interrupt s);
       s2 \<leftarrow> statsEntrySys s1;
       s3 \<leftarrow> clock_rutine zeos_show_clock s2;
       if cur s3 = cur s2 then interrupt_end s3 else Some (None, s3)
     }"

definition keyboard_handler :: "u8 \<Rightarrow> regs \<Rightarrow> kstate \<Rightarrow> (regs option \<times> kstate) option" where
  "keyboard_handler entrada r s =
     do {
       let s1 = save_frame r (enter_by_interrupt s);
       s2 \<leftarrow> statsEntrySys s1;
       s3 \<leftarrow> keyboard_rutine entrada s2;
       interrupt_end s3
     }"

section \<open>Frames\<close>

text \<open>The frame of process \<open>t\<close> holds the registers \<open>r\<close>.\<close>

definition holds_frame :: "kstate \<Rightarrow> nat \<Rightarrow> regs \<Rightarrow> bool" where
  "holds_frame s t r \<longleftrightarrow> (\<forall>i<16. kstack s t (1008 + i) = Data (frame_words r ! i))"

lemma holds_frame_cong: "kstack s' t = kstack s t \<Longrightarrow> holds_frame s' t r = holds_frame s t r"
  by (simp add: holds_frame_def)

lemma holds_frame_saved [simp]: "holds_frame (save_frame r s) (cur s) r"
  by (simp add: holds_frame_def save_frame_def)

lemma frame_word_held: "holds_frame s (cur s) r \<Longrightarrow> i < 16 \<Longrightarrow> frame_word s i = Some (frame_words r ! i)"
  by (simp add: holds_frame_def frame_word_def)

lemma restore_frame_held: "holds_frame s (cur s) r \<Longrightarrow> restore_frame s = Some r"
  by (simp add: restore_frame_def frame_word_held) (simp add: frame_words_def)

lemma holds_frame_set_eax:
  assumes "holds_frame s (cur s) r"
  shows "holds_frame (set_frame_eax v s) (cur s) (r\<lparr>r_eax := v\<rparr>)"
proof -
  have "frame_words (r\<lparr>r_eax := v\<rparr>) ! i = (if i = 6 then v else frame_words r ! i)" if "i < 16" for i
    using that by (auto simp: frame_words_def nth_Cons' less_Suc_eq numeral_nat)
  then show ?thesis using assms by (simp add: holds_frame_def set_frame_eax_def)
qed

lemma return_to_user_held:
  "holds_frame s (cur s) r \<Longrightarrow> return_to_user v s = Some (Some (r\<lparr>r_eax := v\<rparr>), set_frame_eax v s)"
  using restore_frame_held [of "set_frame_eax v s" "r\<lparr>r_eax := v\<rparr>"] holds_frame_set_eax [of s r v]
  by (simp add: return_to_user_def) (simp add: set_frame_eax_def)

lemma charge_frame:
  assumes "holds_frame s t r"
  shows "\<exists>s'. charge f u s = Some s' \<and> stats_only s s' \<and> cur s' = cur s \<and> holds_frame s' t r"
  using charge_Some [of f u s] assms stats_only_fields(1,2) holds_frame_cong by metis

lemma system_call_end_held:
  assumes "holds_frame s (cur s) r"
  shows "\<exists>s'. system_call_end v s = Some (Some (r\<lparr>r_eax := word_of_int v\<rparr>), set_frame_eax (word_of_int v) s') \<and>
    stats_only s s'"
  using charge_frame [OF assms, of system_ticks_update "cur s"] return_to_user_held
  by (auto simp: system_call_end_def statsLeaveSys_def)

lemma interrupt_end_held:
  assumes "holds_frame s (cur s) r"
  shows "\<exists>s'. interrupt_end s = Some (Some r, s') \<and> stats_only s s'"
  using charge_frame [OF assms, of system_ticks_update "cur s"] restore_frame_held
  by (auto simp: interrupt_end_def statsLeaveSys_def)

section \<open>The machine\<close>

text \<open>Writing a kernel stack is nothing to the invariant.\<close>

lemma kernel_inv_kstack: "kernel_inv s Q \<Longrightarrow> kernel_inv (s\<lparr>kstack := k\<rparr>) Q"
proof -
  assume i: "kernel_inv s Q"
  let ?s = "s\<lparr>kstack := k\<rparr>"
  have v: "same_view s ?s" by (simp add: same_view_def)
  note vi = same_view_invs [OF v]
  have u: "users ?s Q = users s Q" using vi(4) by (simp add: users_def)
  have ii: "tables_inv s" "own_space s" "kinv s Q" "sem_inv s Q" "quanta_ok s Q" "users_inv s (users s Q)"
    "counts_inv s (length (Q FreeQ))" using i by (simp_all add: kernel_inv_def)
  have "users_inv ?s (users s Q)"
    by (rule users_inv_cong [OF ii(6) subset_refl]) (simp_all add: space_of_def frame_of_def)
  moreover have "tables_inv ?s" "counts_inv ?s (length (Q FreeQ))" "own_space ?s"
    using ii by (simp_all add: tables_inv_def counts_inv_def own_space_def)
  ultimately show ?thesis using ii vi u by (simp add: kernel_inv_def)
qed

lemma kernel_inv_view:
  assumes i: "kernel_inv s Q" and v: "same_view s s'" and m: "mem_step s s'"
  shows "kernel_inv s' Q"
proof -
  note vi = same_view_invs [OF v]
  have f: "mem_frame s s'" "own_space s'" using m i by (simp_all add: mem_step_def kernel_inv_def)
  have "users s' Q = users s Q" using v vi(4) by (simp add: users_def same_view_def)
  then show ?thesis
    using i f vi mem_frame_users [OF f(1)] mem_frame_tables [OF f(1)] mem_frame_counts [OF f(1)]
    by (simp add: kernel_inv_def)
qed

lemma kernel_inv_stats: "kernel_inv s Q \<Longrightarrow> stats_only s s' \<Longrightarrow> kernel_inv s' Q"
  by (rule kernel_inv_view [OF _ same_view_stats mem_step_stats])

lemma enter_own: "own_space s \<Longrightarrow> enter_by_interrupt s = s" "own_space s \<Longrightarrow> enter_by_sysenter s = s"
  by (simp_all add: own_space_def enter_by_interrupt_def enter_by_sysenter_def)

text \<open>A step of the kernel, or what the entry code does to the stack of the running process.\<close>

inductive machine_step :: "kstate \<Rightarrow> kstate \<Rightarrow> bool" where
  kernel: "kernel_step s s' \<Longrightarrow> machine_step s s'"
| enter: "machine_step s (save_frame r (enter_by_interrupt s))"
| enter_fast: "machine_step s (save_frame r (enter_by_sysenter s))"
| result: "machine_step s (set_frame_eax v s)"

inductive_cases machine_stepE: "machine_step s s'"

lemma machine_step_keeps:
  assumes st: "machine_step s s'" and i: "kernel_inv s Q"
  shows "\<exists>Q'. kernel_inv s' Q' \<and> set (Q' FreeQ) \<subseteq> set (Q FreeQ) \<and>
    (\<forall>u. u \<notin> set (Q FreeQ) \<and> u \<noteq> cur s \<longrightarrow> kstack s' u = kstack s u)"
proof -
  have e: "enter_by_interrupt s = s" "enter_by_sysenter s = s"
    using enter_own i by (simp_all add: kernel_inv_def)
  from st show ?thesis
  proof cases
    case kernel
    then show ?thesis using kernel_step_keeps [OF kernel i] by blast
  qed (use kernel_inv_kstack [OF i] e in \<open>fastforce simp: save_frame_def set_frame_eax_def\<close>)+
qed

text \<open>The machine from the moment process \<open>t\<close> loses the processor to a moment before it runs again.\<close>

definition suspended_run :: "nat \<Rightarrow> kstate \<Rightarrow> kstate \<Rightarrow> bool" where
  "suspended_run t = (\<lambda>s s'. cur s \<noteq> t \<and> machine_step s s')\<^sup>*\<^sup>*"

lemma suspended_run_keeps:
  assumes "suspended_run t s s'" "kernel_inv s Q" "t \<notin> set (Q FreeQ)"
  shows "\<exists>Q'. kernel_inv s' Q' \<and> t \<notin> set (Q' FreeQ) \<and> kstack s' t = kstack s t"
  using assms unfolding suspended_run_def
proof (induction rule: rtranclp_induct)
  case base
  then show ?case by blast
next
  case (step s1 s2)
  then obtain Q1 where Q1: "kernel_inv s1 Q1" "t \<notin> set (Q1 FreeQ)" "kstack s1 t = kstack s t" by blast
  have "machine_step s1 s2" "cur s1 \<noteq> t" using step.hyps by simp_all
  then show ?case using machine_step_keeps [of s1 s2 Q1] Q1 by (metis subset_iff)
qed

section \<open>The calls behind the table\<close>

lemma process_state_memory: "update_process_state_rr t q s = Some s' \<Longrightarrow> memory s' = memory s"
  by (erule process_state_shape) (simp add: upd_task_def)

lemma unblock_all_same:
  assumes "unblock_all i s = Some s'"
  shows "cur s' = cur s \<and> memory s' = memory s"
proof (rule unblock_all.raw_induct [where P = "\<lambda>_ s s'. cur s' = cur s \<and> memory s' = memory s", OF _ assms])
  fix rec i s r
  assume 1: "\<And>i s s'. rec i s = Some s' \<Longrightarrow> cur s' = cur s \<and> memory s' = memory s"
    "(if \<not> list_empty (links s) (SemQ i) then
        do {
          l \<leftarrow> list_first (links s) (SemQ i);
          t \<leftarrow> list_head_to_task_struct l;
          let s1 = upd_task t (sem_ret_update (\<lambda>_. - 1)) s;
          s2 \<leftarrow> update_process_state_rr t (Some ReadyQ) s1;
          rec i s2
        }
      else Some s) = Some r"
  show "cur r = cur s \<and> memory r = memory s"
  proof (cases "list_empty (links s) (SemQ i)")
    case True
    then show ?thesis using 1(2) by simp
  next
    case False
    then obtain t s2 where "update_process_state_rr t (Some ReadyQ) (upd_task t (sem_ret_update (\<lambda>_. - 1)) s) = Some s2"
      "rec i s2 = Some r"
      using 1(2) by (auto simp: bind_eq_Some_iff Let_def)
    then show ?thesis using 1(1) [of i s2 r] process_state_cur process_state_memory by (fastforce simp: upd_task_def)
  qed
qed

lemma io_only_cur: "io_only s s' \<Longrightarrow> cur s' = cur s"
  by (auto simp: io_only_def)

lemma sem_calls_cur:
  "sys_sem_init n v s = Some (r, s') \<Longrightarrow> cur s' = cur s"
  "sys_sem_signal n s = Some (r, s') \<Longrightarrow> cur s' = cur s"
  "sys_sem_destroy n s = Some (r, s') \<Longrightarrow> cur s' = cur s"
  "sys_sem_wait n s = Some (Ret w, s') \<Longrightarrow> cur s' = cur s"
  unfolding sys_sem_init_def sys_sem_signal_def sys_sem_destroy_def sys_sem_wait_def Let_def
  by (auto simp: bind_eq_Some_iff upd_sem_def upd_task_def process_state_cur unblock_all_same split: if_splits)

lemma sem_calls_memory:
  "sys_sem_signal n s = Some (r, s') \<Longrightarrow> memory s' = memory s"
  "sys_sem_destroy n s = Some (r, s') \<Longrightarrow> memory s' = memory s"
  unfolding sys_sem_signal_def sys_sem_destroy_def Let_def
  by (auto simp: bind_eq_Some_iff upd_sem_def process_state_memory unblock_all_same split: if_splits)

lemma sys_read_cur:
  assumes "sys_read fd buf n s = Some (Ret w, s')"
  shows "cur s' = cur s"
proof -
  have b: "cur s2 = cur s1" if "read_keyboard_body buf s1 = Some (Ret w, s2)" for s1 s2
    using that unfolding read_keyboard_body_def Let_def
    by (auto simp: bind_eq_Some_iff block_on_keyboard_def upd_task_def io_only_cur [OF read_keys_io] split: if_splits)
  show ?thesis
    using assms b unfolding sys_read_def sys_read_keyboard_def Let_def
    by (fastforce simp: bind_eq_Some_iff upd_task_def split: if_splits)
qed

text \<open>Every call but \<open>exit\<close> is one step of the kernel, and one that returns stays with its process.\<close>

lemma call_sys_step:
  assumes n: "idle_task s \<noteq> Some (cur s)" and x: "sc \<noteq> Sys_exit" and c: "call_sys kbuf sc a b d s = Some (out, s')"
  shows "s' = s \<or> kernel_step s s'"
  using n x c by (cases sc) (auto simp: returning_def intro: kernel_step.intros int_range_sint)

lemma call_sys_cur:
  assumes i: "kernel_inv s Q" and n: "idle_task s \<noteq> Some (cur s)" and x: "sc \<noteq> Sys_exit"
    and c: "call_sys kbuf sc a b d s = Some (Ret v, s')"
  shows "cur s' = cur s"
proof (cases sc)
  case Sys_exit
  then show ?thesis using x by simp
next
  case Sys_fork
  then show ?thesis using c fork_kernel_inv [OF i n, of 1006] by (auto simp: returning_def stacks_kept_def)
next
  case Sys_clone
  then show ?thesis using c clone_kernel_inv [OF i n, of 1006 a b] by (auto simp: returning_def stacks_kept_def)
next
  case Sys_sbrk
  then obtain w where "sys_sbrk (sint a) s = Some (w, s')" using c by (auto simp: returning_def)
  then show ?thesis using sbrk_returned [OF i n, of "sint a" w s'] by (auto simp: upd_task_def)
qed (use c sem_calls_cur sys_read_cur io_only_cur sys_write_io sys_get_stats_io in \<open>fastforce simp: returning_def\<close>)+

lemma call_sys_keeps:
  assumes i: "kernel_inv s Q" and n: "idle_task s \<noteq> Some (cur s)" and x: "sc \<noteq> Sys_exit"
    and c: "call_sys kbuf sc a b d s = Some (out, s')"
  shows "\<exists>Q'. kernel_inv s' Q' \<and> (\<forall>u. u \<notin> set (Q FreeQ) \<longrightarrow> kstack s' u = kstack s u)"
  using call_sys_step [OF n x c] kernel_step_keeps [OF _ i] i by blast

lemma cur_not_free: "kernel_inv s Q \<Longrightarrow> cur s \<notin> set (Q FreeQ)"
  using kinv_running_not_queued [of s Q FreeQ] by (simp add: kernel_inv_def)

section \<open>The handlers give the registers back\<close>

lemma entry_state:
  assumes i: "kernel_inv s Q"
  shows "enter_by_interrupt s = s \<and> enter_by_sysenter s = s \<and> (\<exists>s2. statsEntrySys (save_frame r s) = Some s2 \<and>
    kernel_inv s2 Q \<and> cur s2 = cur s \<and> idle_task s2 = idle_task s \<and> holds_frame s2 (cur s2) r \<and>
    stats_only (save_frame r s) s2)"
proof -
  obtain s2 where s2: "statsEntrySys (save_frame r s) = Some s2" "stats_only (save_frame r s) s2"
    "cur s2 = cur (save_frame r s)" "holds_frame s2 (cur s) r"
    using charge_frame [OF holds_frame_saved [of r s], of user_ticks_update "cur (save_frame r s)"]
    by (auto simp: statsEntrySys_def)
  have "kernel_inv (save_frame r s) Q" using kernel_inv_kstack [OF i] by (simp add: save_frame_def)
  then have "kernel_inv s2 Q" using s2(2) by (rule kernel_inv_stats)
  moreover have "cur s2 = cur s" "idle_task s2 = idle_task s"
    using s2(3) stats_only_fields(13) [OF s2(2)] by (simp_all add: save_frame_def)
  ultimately show ?thesis using s2 i enter_own by (simp add: kernel_inv_def)
qed

lemma table_lookup: "0 \<le> n \<Longrightarrow> n < MAX_SYSCALL \<Longrightarrow> sys_call_table ! nat n = Sys_exit \<Longrightarrow> n = 1"
proof -
  assume n: "0 \<le> n" "n < MAX_SYSCALL" and x: "sys_call_table ! nat n = Sys_exit"
  have l: "length sys_call_table = 36" by (simp add: sys_call_table_def)
  have "\<forall>k<36. sys_call_table ! k = Sys_exit \<longrightarrow> k = 1" by code_simp
  moreover have "nat n < 36" using n l by (simp add: MAX_SYSCALL_def)
  ultimately have "nat n = 1" using x by blast
  then show "n = 1" by simp
qed

lemma system_call_end_keeps:
  assumes i: "kernel_inv s Q" and f: "holds_frame s (cur s) r"
  shows "\<exists>s'. system_call_end v s = Some (Some (r\<lparr>r_eax := word_of_int v\<rparr>), s') \<and> kernel_inv s' Q \<and> cur s' = cur s"
proof -
  obtain s1 where s1: "system_call_end v s = Some (Some (r\<lparr>r_eax := word_of_int v\<rparr>), set_frame_eax (word_of_int v) s1)"
    "stats_only s s1" using system_call_end_held [OF f] by blast
  have "kernel_inv (set_frame_eax (word_of_int v) s1) Q"
    using kernel_inv_kstack [OF kernel_inv_stats [OF i s1(2)]] by (simp add: set_frame_eax_def)
  then show ?thesis using s1(1) stats_only_fields(1) [OF s1(2)] by (simp add: set_frame_eax_def)
qed

lemma call_by_number:
  assumes i: "kernel_inv s Q" and ni: "idle_task s \<noteq> Some (cur s)" and n: "0 \<le> n" "n < MAX_SYSCALL" "n \<noteq> 1"
    and f: "holds_frame s (cur s) r" and c: "call_sys kbuf (sys_call_table ! nat n) a b d s = Some (out, s')"
  shows "\<exists>Q'. kernel_inv s' Q' \<and> holds_frame s' (cur s) r \<and> (\<forall>v. out = Ret v \<longrightarrow> cur s' = cur s)"
proof -
  have x: "sys_call_table ! nat n \<noteq> Sys_exit" using table_lookup [OF n(1,2)] n(3) by blast
  obtain Q' where Q': "kernel_inv s' Q'" "kstack s' (cur s) = kstack s (cur s)"
    using call_sys_keeps [OF i ni x c] cur_not_free [OF i] by auto
  moreover have "holds_frame s' (cur s) r" using f holds_frame_cong [OF Q'(2)] by simp
  moreover have "cur s' = cur s" if "out = Ret v" for v using call_sys_cur [OF i ni x] c that by simp
  ultimately show ?thesis by blast
qed

text \<open>
  C6. A system call through int 0x80 (exit apart) keeps the kernel invariant and gives the
  process its registers back, all but eax unchanged, or leaves them in the frame of the process
  when it is suspended.
\<close>

theorem system_call_registers:
  assumes i: "kernel_inv s Q" and n: "idle_task s \<noteq> Some (cur s)" and x: "sint (r_eax r) \<noteq> 1"
    and h: "system_call_handler kbuf r s = Some (res, s')"
  shows "\<exists>Q'. kernel_inv s' Q' \<and>
    (case res of Some r' \<Rightarrow> cur s' = cur s \<and> r' = r\<lparr>r_eax := r_eax r'\<rparr> | None \<Rightarrow> holds_frame s' (cur s) r)"
proof -
  note h = h [unfolded system_call_handler_def Let_def]
  obtain s2 where e: "enter_by_interrupt s = s" and s2: "statsEntrySys (save_frame r s) = Some s2"
    "kernel_inv s2 Q" "cur s2 = cur s" "idle_task s2 = idle_task s" "holds_frame s2 (cur s2) r"
    using entry_state [OF i, of r] by blast
  consider "sint (r_eax r) < 0 \<or> sint (r_eax r) > MAX_SYSCALL" "return_to_user (word_of_int (- ENOSYS)) s2 = Some (res, s')"
    | a b c out s3 where "0 \<le> sint (r_eax r)" "sint (r_eax r) < MAX_SYSCALL"
        "call_sys kbuf (sys_call_table ! nat (sint (r_eax r))) a b c s2 = Some (out, s3)"
        "(case out of Ret v \<Rightarrow> system_call_end v s3 | Switched \<Rightarrow> Some (None, s3)) = Some (res, s')"
    using h s2(1) unfolding e by (auto simp: bind_eq_Some_iff not_less split: if_splits)
  then show ?thesis
  proof cases
    case 1
    then have "res = Some (r\<lparr>r_eax := word_of_int (- ENOSYS)\<rparr>)" "s' = set_frame_eax (word_of_int (- ENOSYS)) s2"
      using return_to_user_held [OF s2(5), of "word_of_int (- ENOSYS)"] by simp_all
    then show ?thesis using kernel_inv_kstack [OF s2(2)] s2(3) by (auto simp: set_frame_eax_def)
  next
    case 2
    have n': "idle_task s2 \<noteq> Some (cur s2)" using n s2 by simp
    obtain Q3 where Q3: "kernel_inv s3 Q3" "holds_frame s3 (cur s) r" "\<forall>v. out = Ret v \<longrightarrow> cur s3 = cur s"
      using call_by_number [OF s2(2) n' 2(1,2) x s2(5) 2(3)] s2(3) by auto
    show ?thesis
    proof (cases out)
      case (Ret v)
      then show ?thesis using system_call_end_keeps [OF Q3(1), of r v] Q3(2,3) 2(4) by auto
    next
      case Switched
      then show ?thesis using 2(4) Q3 by auto
    qed
  qed
qed

text \<open>A call that only reads returns its value.\<close>

lemma getpid_by_int80:
  assumes i: "kernel_inv s Q" and n: "r_eax r = 20"
  shows "\<exists>s'. system_call_handler kbuf r s = Some (Some (r\<lparr>r_eax := word_of_int (PID (tasks s (cur s)))\<rparr>), s')"
proof -
  obtain s2 where e: "enter_by_interrupt s = s" and s2: "statsEntrySys (save_frame r s) = Some s2"
    "cur s2 = cur s" "holds_frame s2 (cur s2) r" "stats_only (save_frame r s) s2"
    using entry_state [OF i, of r] by blast
  have "PID (tasks s2 (cur s2)) = PID (tasks s (cur s))"
    using stats_only_fields(17) [OF s2(4)] s2(2) by (simp add: save_frame_def)
  then have "system_call_handler kbuf r s = system_call_end (PID (tasks s (cur s))) s2"
    using s2(1) frame_word_held [OF s2(3)] n
    by (simp add: system_call_handler_def e MAX_SYSCALL_def sys_call_table_def sys_getpid_def)
  then show ?thesis using system_call_end_held [OF s2(3)] by auto
qed

definition sample_regs :: "u32 \<Rightarrow> regs" where
  "sample_regs n = \<lparr>r_ebx = 1, r_ecx = 2, r_edx = 3, r_esi = 4, r_edi = 5, r_ebp = 6, r_eax = n, r_ds = 0x2B,
     r_es = 0x2B, r_fs = 0, r_gs = 0, r_eip = 0x100010, r_cs = 0x23, r_eflags = 0x200, r_esp = 0x108100, r_ss = 0x2B\<rparr>"

theorem system_call_registers_witness:
  "\<exists>s' Q'. system_call_handler 0 (sample_regs 20) sample = Some (Some (sample_regs 1), s') \<and>
    kernel_inv s' Q' \<and> cur s' = 13"
proof -
  have ni: "idle_task sample \<noteq> Some (cur sample)" "sint (r_eax (sample_regs 20)) \<noteq> 1" "r_eax (sample_regs 20) = 20"
    by (simp_all add: sample_regs_def)
  obtain s' where h: "system_call_handler 0 (sample_regs 20) sample = Some (Some (sample_regs 1), s')"
    using getpid_by_int80 [OF sample_kernel_inv ni(3)] by (auto simp: sample_regs_def)
  from system_call_registers [OF sample_kernel_inv ni(1,2) h] h show ?thesis by auto
qed

text \<open>What the user gets back from \<open>sysexit\<close>, in terms of the frame and of the registers before.\<close>

definition sysexited :: "u32 \<Rightarrow> u32 \<Rightarrow> regs \<Rightarrow> regs" where
  "sysexited kflags v f =
     f\<lparr>r_eax := v, r_edx := r_eip f, r_ecx := r_esp f, r_cs := 0x23, r_ss := 0x2B, r_eflags := set_bit 9 kflags\<rparr>"

definition sysexit_regs :: "u32 \<Rightarrow> u32 \<Rightarrow> u32 \<Rightarrow> regs \<Rightarrow> regs" where
  "sysexit_regs kflags ip v r = sysexited kflags v (sysenter_frame ip r)"

lemmas sysexit_defs = sysexit_regs_def sysexited_def sysenter_frame_def

lemma sysenter_end_held:
  assumes f: "holds_frame s (cur s) r"
  shows "\<exists>s'. sysenter_end kflags v s = Some (Some (sysexited kflags (word_of_int v) r), s') \<and>
    stats_only (set_frame_eax (word_of_int v) s) s' \<and> cur s' = cur s"
proof -
  let ?s1 = "set_frame_eax (word_of_int v) s" and ?r1 = "r\<lparr>r_eax := word_of_int v\<rparr>"
  have c: "cur ?s1 = cur s" by (simp add: set_frame_eax_def)
  have f1: "holds_frame ?s1 (cur ?s1) ?r1" using holds_frame_set_eax [OF f] c by simp
  obtain s2 where s2: "statsLeaveSys ?s1 = Some s2" "stats_only ?s1 s2" "cur s2 = cur ?s1" "holds_frame s2 (cur ?s1) ?r1"
    using charge_frame [OF f1, of system_ticks_update "cur ?s1"] by (auto simp: statsLeaveSys_def)
  have "restore_frame s2 = Some ?r1" using restore_frame_held [of s2 ?r1] s2(3,4) by simp
  then show ?thesis using s2 c by (simp add: sysenter_end_def sysexited_def)
qed

lemma sysenter_registers:
  assumes i: "kernel_inv s Q" and n: "idle_task s \<noteq> Some (cur s)" and x: "sint (r_eax r) \<noteq> 1"
    and h: "syscall_handler_sysenter kbuf kflags r s = Some (res, s')"
  shows "\<exists>Q' ip. load32 (kmmu s) (memory s) (r_ebp r + 4) = Some ip \<and> kernel_inv s' Q' \<and>
    (case res of Some r' \<Rightarrow> cur s' = cur s \<and> r' = sysexit_regs kflags ip (r_eax r') r
     | None \<Rightarrow> holds_frame s' (cur s) (sysenter_frame ip r))"
proof -
  obtain ip where ip: "load32 (kmmu s) (memory s) (r_ebp r + 4) = Some ip"
    using h by (auto simp: syscall_handler_sysenter_def bind_eq_Some_iff)
  let ?r = "sysenter_frame ip r"
  obtain s2 where e: "enter_by_sysenter s = s" and s2: "statsEntrySys (save_frame ?r s) = Some s2"
    "kernel_inv s2 Q" "cur s2 = cur s" "idle_task s2 = idle_task s" "holds_frame s2 (cur s2) ?r"
    using entry_state [OF i, of ?r] by blast
  let ?fin = "\<lambda>out s3. (case out of Ret v \<Rightarrow> sysenter_end kflags v s3 | Switched \<Rightarrow> Some (None, s3))"
  have "\<exists>out s3 Q3. ?fin out s3 = Some (res, s') \<and> kernel_inv s3 Q3 \<and> holds_frame s3 (cur s) ?r \<and>
      (\<forall>v. out = Ret v \<longrightarrow> cur s3 = cur s)"
  proof (cases "sint (r_eax r) < 0 \<or> sint (r_eax r) > MAX_SYSCALL")
    case True
    then have "?fin (Ret (- ENOSYS)) s2 = Some (res, s')"
      using h s2(1) by (auto simp: syscall_handler_sysenter_def ip e)
    then show ?thesis using s2 by (intro exI [of _ "Ret (- ENOSYS)"] exI [of _ s2] exI [of _ Q]) simp
  next
    case False
    then obtain a b c out s3 where *: "0 \<le> sint (r_eax r)" "sint (r_eax r) < MAX_SYSCALL"
        "call_sys kbuf (sys_call_table ! nat (sint (r_eax r))) a b c s2 = Some (out, s3)" "?fin out s3 = Some (res, s')"
      using h s2(1) unfolding syscall_handler_sysenter_def Let_def e
      by (auto simp: bind_eq_Some_iff ip split: if_splits)
    have n': "idle_task s2 \<noteq> Some (cur s2)" using n s2 by simp
    obtain Q3 where "kernel_inv s3 Q3" "holds_frame s3 (cur s) ?r" "\<forall>v. out = Ret v \<longrightarrow> cur s3 = cur s"
      using call_by_number [OF s2(2) n' *(1,2) x s2(5) *(3)] s2(3) by auto
    then show ?thesis using *(4) by blast
  qed
  then obtain out s3 Q3 where o: "?fin out s3 = Some (res, s')" "kernel_inv s3 Q3" "holds_frame s3 (cur s) ?r"
    "\<forall>v. out = Ret v \<longrightarrow> cur s3 = cur s" by blast
  show ?thesis
  proof (cases out)
    case (Ret v)
    then have c: "cur s3 = cur s" using o(4) by simp
    obtain s5 where s5: "sysenter_end kflags v s3 = Some (Some (sysexit_regs kflags ip (word_of_int v) r), s5)"
      "stats_only (set_frame_eax (word_of_int v) s3) s5" "cur s5 = cur s3"
      using sysenter_end_held [of s3 ?r kflags v] o(3) c by (auto simp: sysexit_regs_def)
    have "kernel_inv s5 Q3"
      using kernel_inv_stats [OF _ s5(2)] kernel_inv_kstack [OF o(2)] by (simp add: set_frame_eax_def)
    then show ?thesis using ip o(1) s5(1,3) c by (auto simp: Ret sysexit_defs)
  next
    case Switched
    then show ?thesis using o ip by auto
  qed
qed

text \<open>
  C18. A system call number that is negative, above 36, or whose table entry is sys_ni_syscall
  gives -ENOSYS in eax and changes nothing but the accounts and the stack of the process.
\<close>

theorem unknown_system_call:
  assumes i: "kernel_inv s Q"
    and n: "sint (r_eax r) < 0 \<or> 36 < sint (r_eax r) \<or>
      sint (r_eax r) < 36 \<and> sys_call_table ! nat (sint (r_eax r)) = Sys_ni"
  shows "\<exists>s' k. system_call_handler kbuf r s = Some (Some (r\<lparr>r_eax := word_of_int (- ENOSYS)\<rparr>), s') \<and>
    stats_only (s\<lparr>kstack := (kstack s)(cur s := k)\<rparr>) s'"
proof -
  have l: "MAX_SYSCALL = 36" by (simp add: MAX_SYSCALL_def sys_call_table_def)
  obtain s2 where e: "enter_by_interrupt s = s" and s2: "statsEntrySys (save_frame r s) = Some s2"
    "cur s2 = cur s" "holds_frame s2 (cur s2) r" "stats_only (save_frame r s) s2"
    using entry_state [OF i, of r] by blast
  have st: "\<exists>k. stats_only (s\<lparr>kstack := (kstack s)(cur s := k)\<rparr>) (set_frame_eax v s4)"
    if a: "stats_only (save_frame r s) s4" for v s4
  proof -
    obtain st m where "s4 = (save_frame r s)\<lparr>tasks := (\<lambda>t. (tasks s t)\<lparr>estadisticas := st t\<rparr>), tsc_reads := m\<rparr>"
      using a by (auto simp: stats_only_def save_frame_def)
    then have "set_frame_eax v s4 = (s\<lparr>kstack := (kstack s)(cur s := (kstack (save_frame r s) (cur s))(1014 := Data v))\<rparr>)
        \<lparr>tasks := (\<lambda>t. (tasks s t)\<lparr>estadisticas := st t\<rparr>), tsc_reads := m\<rparr>"
      by (simp add: save_frame_def set_frame_eax_def)
    then show ?thesis unfolding stats_only_def
      by (intro exI [of _ "(kstack (save_frame r s) (cur s))(1014 := Data v)"] exI [of _ st] exI [of _ m]) simp
  qed
  note w = frame_word_held [OF s2(3)]
  show ?thesis
  proof (cases "sint (r_eax r) < 0 \<or> 36 < sint (r_eax r)")
    case True
    then have "system_call_handler kbuf r s = return_to_user (word_of_int (- ENOSYS)) s2"
      using s2(1) by (auto simp: system_call_handler_def e l)
    then show ?thesis using return_to_user_held [OF s2(3)] st [OF s2(4)] by auto
  next
    case False
    then have "system_call_handler kbuf r s = system_call_end (- ENOSYS) s2"
      using s2(1) n by (auto simp: system_call_handler_def e l w sys_ni_syscall_def)
    then show ?thesis using system_call_end_held [OF s2(3), of "- ENOSYS"] st stats_only_trans [OF s2(4)] by auto
  qed
qed

theorem unknown_system_call_witness:
  "\<exists>s'. system_call_handler 0 (sample_regs 99) sample = Some (Some (sample_regs (- 38)), s')"
proof -
  have "36 < sint (r_eax (sample_regs 99))" by (simp add: sample_regs_def)
  from unknown_system_call [OF sample_kernel_inv disjI2 [OF disjI1 [OF this]], of 0]
  show ?thesis by (auto simp: sample_regs_def)
qed

lemma clock_handler_transparent:
  assumes i: "kernel_inv s Q"
  shows "\<exists>res s' Q'. clock_handler draw r s = Some (res, s') \<and> kernel_inv s' Q' \<and>
    (res = Some r \<and> cur s' = cur s \<or> res = None \<and> holds_frame s' (cur s) r)"
proof -
  obtain s2 where e: "enter_by_interrupt s = s" and s2: "statsEntrySys (save_frame r s) = Some s2"
    "kernel_inv s2 Q" "cur s2 = cur s" "holds_frame s2 (cur s2) r"
    using entry_state [OF i, of r] by blast
  obtain s3 where s3: "clock_rutine draw s2 = Some s3"
    using clock_rutine_keeps [of s2 Q draw] s2(2) by (auto simp: kernel_inv_def)
  obtain Q3 where Q3: "kernel_inv s3 Q3" "kstack s3 (cur s) = kstack s2 (cur s)"
    using kernel_step_keeps [OF kernel_step.tick [OF s3] s2(2)] cur_not_free [OF s2(2)] s2(3) by auto
  have f3: "holds_frame s3 (cur s) r" using s2(3,4) holds_frame_cong [OF Q3(2)] by simp
  show ?thesis
  proof (cases "cur s3 = cur s2")
    case True
    then have c: "cur s3 = cur s" using s2(3) by simp
    then obtain s4 where s4: "interrupt_end s3 = Some (Some r, s4)" "stats_only s3 s4"
      using interrupt_end_held [of s3 r] f3 by auto
    then have "clock_handler draw r s = Some (Some r, s4)"
      using s2(1) s3 True by (simp add: clock_handler_def e)
    then show ?thesis using kernel_inv_stats [OF Q3(1) s4(2)] stats_only_fields(1) [OF s4(2)] c by auto
  next
    case False
    then have "clock_handler draw r s = Some (None, s3)"
      using s2(1) s3 by (simp add: clock_handler_def e)
    then show ?thesis using Q3(1) f3 by auto
  qed
qed

lemma keyboard_handler_transparent:
  assumes i: "kernel_inv s Q" and k: "bit e 7 \<or> unat e < length char_map" "buf_wf (keyboardBuff s)"
  shows "\<exists>s' Q'. keyboard_handler e r s = Some (Some r, s') \<and> kernel_inv s' Q' \<and> cur s' = cur s"
proof -
  obtain s2 where e: "enter_by_interrupt s = s" and s2: "statsEntrySys (save_frame r s) = Some s2"
    "kernel_inv s2 Q" "cur s2 = cur s" "holds_frame s2 (cur s2) r" "stats_only (save_frame r s) s2"
    using entry_state [OF i, of r] by blast
  have b: "buf_wf (keyboardBuff s2)" using k(2) stats_only_fields(15) [OF s2(5)] by (simp add: save_frame_def)
  obtain s3 where s3: "keyboard_rutine e s2 = Some s3"
    using keyboard_rutine_keeps [of s2 Q e, OF _ _ _ b k(1)] s2(2) by (auto simp: kernel_inv_def)
  obtain Q3 where Q3: "kernel_inv s3 Q3" "kstack s3 (cur s) = kstack s2 (cur s)"
    using kernel_step_keeps [OF kernel_step.key [OF k(1) b s3] s2(2)] cur_not_free [OF s2(2)] s2(3) by auto
  have c: "cur s3 = cur s" using keyboard_rutine_cur [OF s3] s2(3) by simp
  have "holds_frame s3 (cur s3) r" using s2(3,4) holds_frame_cong [OF Q3(2)] c by simp
  then obtain s4 where s4: "interrupt_end s3 = Some (Some r, s4)" "stats_only s3 s4"
    using interrupt_end_held by blast
  then have "keyboard_handler e r s = Some (Some r, s4)" using s2(1) s3 by (simp add: keyboard_handler_def e)
  then show ?thesis using kernel_inv_stats [OF Q3(1) s4(2)] stats_only_fields(1) [OF s4(2)] c by auto
qed

lemma char_map_length: "length char_map = 98"
  by (simp add: char_map_def)

text \<open>A make code behind the table is a fault.\<close>

lemma keyboard_handler_faults:
  assumes "\<not> bit e 7" "98 \<le> unat e"
  shows "keyboard_handler e r s = None"
proof -
  have "keyboard_rutine e s2 = None" for s2
    using make_code [OF make_code_range [OF assms(1)]] assms(2) by (simp add: keyboard_rutine_def Let_def char_map_length)
  then show ?thesis by (simp add: keyboard_handler_def Let_def split: option.split)
qed

text \<open>
  C7. Under the kernel invariant the clock handler always returns: to the interrupted process
  with all its registers unchanged, or to another process with the registers of the interrupted
  one safe in its frame. The keyboard handler, when the keyboard buffer is well formed, returns
  to the interrupted process with all its registers unchanged for every release code and every
  make code below 98, and for the make codes 98 to 127 it faults, reading past the end of
  char_map.
\<close>

theorem interrupts_are_transparent:
  assumes "kernel_inv s Q"
  shows "(\<exists>res s' Q'. clock_handler draw r s = Some (res, s') \<and> kernel_inv s' Q' \<and>
      (res = Some r \<and> cur s' = cur s \<or> res = None \<and> holds_frame s' (cur s) r)) \<and>
    (buf_wf (keyboardBuff s) \<longrightarrow>
      (if bit e 7 \<or> unat e < 98
       then \<exists>s' Q'. keyboard_handler e r s = Some (Some r, s') \<and> kernel_inv s' Q' \<and> cur s' = cur s
       else keyboard_handler e r s = None))"
  using clock_handler_transparent [OF assms] keyboard_handler_transparent [OF assms, of e] keyboard_handler_faults [of e r s]
  by (auto simp: char_map_length)

theorem interrupts_are_transparent_witness:
  "(\<exists>res s'. clock_handler (\<lambda>c. c) (sample_regs 7) sample = Some (res, s')) \<and>
    (\<exists>s'. keyboard_handler 2 (sample_regs 7) sample = Some (Some (sample_regs 7), s') \<and> cur s' = 13) \<and>
    keyboard_handler 100 (sample_regs 7) sample = None"
proof -
  have "buf_wf (keyboardBuff sample)" using contents_zero by simp
  then show ?thesis
    using interrupts_are_transparent [OF sample_kernel_inv, of "\<lambda>c. c" "sample_regs 7" 2]
      interrupts_are_transparent [OF sample_kernel_inv, of "\<lambda>c. c" "sample_regs 7" 100] by auto
qed

text \<open>
  C5. While a process is suspended, whatever the others, the interrupts and the system calls
  other than exit do, its saved registers stay: when it gets the processor back, the end of an
  interrupt restores them all, the end of a call through int 0x80 restores all but eax, which
  gets the result, and the end of a call through sysenter restores those RESTORE_ALL pops and
  leaves with the result in eax, the return address, also in edx, the stack pointer, also in
  ecx, the user segments, and, since sysexit restores no flags, the flags of the kernel with
  interrupts on.
\<close>

theorem registers_survive:
  assumes i: "kernel_inv s Q" and t: "t \<notin> set (Q FreeQ)" and f: "holds_frame s t r"
    and run: "suspended_run t s s'" and c: "cur s' = t"
  shows "(\<exists>s''. interrupt_end s' = Some (Some r, s'')) \<and>
    (\<exists>s''. system_call_end v s' = Some (Some (r\<lparr>r_eax := word_of_int v\<rparr>), s'')) \<and>
    (\<exists>s''. sysenter_end kflags v s' = Some (Some (sysexited kflags (word_of_int v) r), s''))"
proof -
  have "holds_frame s' (cur s') r" using suspended_run_keeps [OF run i t] f holds_frame_cong c by blast
  then show ?thesis using interrupt_end_held system_call_end_held sysenter_end_held by blast
qed

text \<open>Task 1 of the sample state gets the processor, and its registers, with the next clock tick.\<close>

lemma kernel_inv_qLeft: "kernel_inv s Q \<Longrightarrow> 1 \<le> l \<Longrightarrow> l < 2 ^ 31 \<Longrightarrow> kernel_inv (s\<lparr>qLeft := l\<rparr>) Q"
proof -
  assume i: "kernel_inv s Q" and l: "1 \<le> l" "l < 2 ^ 31"
  let ?s = "s\<lparr>qLeft := l\<rparr>"
  have m: "mem_frame s ?s" "own_space ?s" using i mem_step_updates(2) [of s l] by (simp_all add: mem_step_def kernel_inv_def)
  have "heads ?s = heads s" by (rule heads_cong) simp
  then have a: "active ?s Q = active s Q" by (simp add: active_def)
  have "kinv ?s Q = kinv s Q" by (rule kinv_cong) simp_all
  moreover have "sem_inv s Q \<Longrightarrow> sem_inv ?s Q" by (rule sem_inv_cong) simp_all
  moreover have "quanta_ok s Q \<Longrightarrow> quanta_ok ?s Q" using l by (simp add: quanta_ok_def a)
  moreover have "users ?s Q = users s Q" by (simp add: users_def a)
  ultimately show ?thesis
    using i m mem_frame_users [OF m(1)] mem_frame_tables [OF m(1)] mem_frame_counts [OF m(1)]
    by (simp add: kernel_inv_def)
qed

theorem registers_survive_witness:
  "\<exists>s s' s''. suspended_run 1 s s' \<and> cur s' = 1 \<and> interrupt_end s' = Some (Some (sample_regs 7), s'')"
proof -
  let ?s = "sample\<lparr>qLeft := 1, kstack := (\<lambda>_ i. Data (frame_words (sample_regs 7) ! (i - 1008)))\<rparr>"
  have i: "kernel_inv ?s sample_queues" by (intro kernel_inv_kstack kernel_inv_qLeft sample_kernel_inv) simp_all
  have f: "holds_frame ?s 1 (sample_regs 7)" by (simp add: holds_frame_def)
  let ?s1 = "?s\<lparr>con := con ?s, zeos_ticks := i32 (zeos_ticks ?s + 1)\<rparr>"
  have k: "kinv ?s1 sample_queues" using i kinv_cong [of ?s1 ?s] by (simp add: kernel_inv_def)
  obtain s' where s': "schedule ?s1 = Some s'" "cur s' = 1" using schedule_rotates [OF k, of 1 "[2]"] by auto
  have "clock_rutine (\<lambda>c. c) ?s = Some s'" using s'(1) by (simp add: clock_rutine_def)
  then have "machine_step ?s s'" by (intro machine_step.kernel kernel_step.tick)
  then have r: "suspended_run 1 ?s s'" unfolding suspended_run_def by (intro r_into_rtranclp) simp
  have "1 \<notin> set (sample_queues FreeQ)" by simp
  then have "\<exists>s''. interrupt_end s' = Some (Some (sample_regs 7), s'')"
    using registers_survive [OF i _ f r s'(2)] by blast
  then show ?thesis using r s'(2) by blast
qed

section \<open>Every call returns\<close>

text \<open>
  The calls that return for all arguments, \<open>sbrk\<close> at the end of the last page table apart. \<open>exit\<close> does not
  return, \<open>write\<close> and \<open>get_stats\<close> fault on bad pointers, \<open>read\<close> when there are keys, and \<open>sem_init\<close> on a full table.
\<close>

definition always_returns :: "syscall set" where
  "always_returns = - {Sys_exit, Sys_write, Sys_read, Sys_get_stats, Sys_sem_init}"

lemma call_sys_total:
  assumes i: "kernel_inv s Q" and n: "idle_task s \<noteq> Some (cur s)" and x: "sc \<in> always_returns"
    and b: "sc = Sys_sbrk \<longrightarrow> \<not> sbrk_past_table s (sint a)"
  shows "\<exists>out s'. call_sys kbuf sc a b d s = Some (out, s')"
proof -
  have k: "kinv s Q" "sem_inv s Q" "quanta_ok s Q" using i by (simp_all add: kernel_inv_def)
  have r: "\<exists>out s'. returning m = Some (out, s')" if "\<exists>r s'. m = Some (r, s')" for m
    using that by (auto simp: returning_def)
  show ?thesis
  proof (cases sc)
    case Sys_fork
    have "\<exists>r s'. sys_fork 1006 s = Some (r, s')" using fork_kernel_inv [OF i n, of 1006] by blast
    then show ?thesis using r Sys_fork by simp
  next
    case Sys_clone
    have "\<exists>r s'. sys_clone 1006 a b s = Some (r, s')" using clone_kernel_inv [OF i n, of 1006 a b] by blast
    then show ?thesis using r Sys_clone by simp
  next
    case Sys_sbrk
    then show ?thesis using sbrk_kernel_inv [OF i n, of "sint a"] b by (auto simp: returning_def)
  next
    case Sys_sem_wait
    then show ?thesis using sys_sem_wait_keeps [OF k n, of "sint a"] by auto
  next
    case Sys_sem_signal
    have "\<exists>r s'. sys_sem_signal (sint a) s = Some (r, s')" using sys_sem_signal_keeps [OF k, of "sint a"] by blast
    then show ?thesis using r Sys_sem_signal by simp
  next
    case Sys_sem_destroy
    have "\<exists>r s'. sys_sem_destroy (sint a) s = Some (r, s')" using sys_sem_destroy_keeps [OF k, of "sint a"] by blast
    then show ?thesis using r Sys_sem_destroy by simp
  qed (use x in \<open>simp_all add: always_returns_def\<close>)
qed

text \<open>The call behind a number, from the state after the entry, for both handlers.\<close>

lemma after_entry:
  assumes i: "kernel_inv s Q"
  obtains s2 where "statsEntrySys (save_frame f s) = Some s2" "stats_only (save_frame f s) s2" "kernel_inv s2 Q"
    "cur s2 = cur s" "idle_task s2 = idle_task s" "holds_frame s2 (cur s2) f"
    "frame_word s2 0 = Some (r_ebx f)" "frame_word s2 (Suc 0) = Some (r_ecx f)" "frame_word s2 2 = Some (r_edx f)"
proof -
  obtain s2 where s2: "statsEntrySys (save_frame f s) = Some s2" "kernel_inv s2 Q" "cur s2 = cur s"
    "idle_task s2 = idle_task s" "holds_frame s2 (cur s2) f" "stats_only (save_frame f s) s2"
    using entry_state [OF i, of f] by blast
  show ?thesis
    by (rule that [OF s2(1,6,2,3,4,5)])
      (use frame_word_held [OF s2(5), of 0] frame_word_held [OF s2(5), of "Suc 0"] frame_word_held [OF s2(5), of 2]
        in \<open>simp_all add: frame_words_def\<close>)
qed

lemma sbrk_past_table_stats:
  assumes "stats_only (save_frame r s) s'"
  shows "sbrk_past_table s' n \<longleftrightarrow> sbrk_past_table s n"
  using stats_only_fields [OF assms]
  by (simp add: sbrk_past_table_def PT_of_def get_PT_def save_frame_def)

lemma handler_runs:
  assumes "kernel_inv s Q" "statsEntrySys (save_frame r s) = Some s2" "0 \<le> sint (r_eax r)" "sint (r_eax r) < MAX_SYSCALL"
    "frame_word s2 0 = Some (r_ebx r)" "frame_word s2 (Suc 0) = Some (r_ecx r)" "frame_word s2 2 = Some (r_edx r)"
    "call_sys kbuf (sys_call_table ! nat (sint (r_eax r))) (r_ebx r) (r_ecx r) (r_edx r) s2 = Some (out, s3)"
  shows "system_call_handler kbuf r s = (case out of Ret v \<Rightarrow> system_call_end v s3 | Switched \<Rightarrow> Some (None, s3))"
proof -
  have "enter_by_interrupt s = s" using entry_state [OF assms(1), of r] by blast
  then show ?thesis using assms(2-) by (simp add: system_call_handler_def)
qed

lemma sysenter_frame_simps [simp]:
  "r_ebx (sysenter_frame ip r) = r_ebx r" "r_ecx (sysenter_frame ip r) = r_ecx r"
  "r_edx (sysenter_frame ip r) = r_edx r" "r_eax (sysenter_frame ip r) = r_eax r"
  by (simp_all add: sysenter_frame_def)

lemma sysenter_runs:
  assumes "kernel_inv s Q" "load32 (kmmu s) (memory s) (r_ebp r + 4) = Some ip"
    "statsEntrySys (save_frame (sysenter_frame ip r) s) = Some s2" "0 \<le> sint (r_eax r)" "sint (r_eax r) < MAX_SYSCALL"
    "frame_word s2 0 = Some (r_ebx r)" "frame_word s2 (Suc 0) = Some (r_ecx r)" "frame_word s2 2 = Some (r_edx r)"
    "call_sys kbuf (sys_call_table ! nat (sint (r_eax r))) (r_ebx r) (r_ecx r) (r_edx r) s2 = Some (out, s3)"
  shows "syscall_handler_sysenter kbuf kflags r s = (case out of Ret v \<Rightarrow> sysenter_end kflags v s3 | Switched \<Rightarrow> Some (None, s3))"
proof -
  have "enter_by_sysenter s = s" using entry_state [OF assms(1), of r] by blast
  then show ?thesis using assms(2-) by (simp add: syscall_handler_sysenter_def)
qed

text \<open>
  C9. Under the kernel invariant every number of the table whose entry is not exit, write, read,
  get_stats or sem_init, called with arbitrary arguments by a process other than idle, through
  int 0x80, or through sysenter when the word above ebp (the return address) is mapped, runs to
  its end without a fault: it gives the processor back or switches to another process. For sbrk
  the increment must not be one that takes the loops of a process with the last page table to
  page 1024, past pagusr_table.
\<close>

theorem system_calls_return:
  assumes i: "kernel_inv s Q" and ni: "idle_task s \<noteq> Some (cur s)"
    and n: "0 \<le> sint (r_eax r)" "sint (r_eax r) < MAX_SYSCALL" "sys_call_table ! nat (sint (r_eax r)) \<in> always_returns"
    and b: "sys_call_table ! nat (sint (r_eax r)) = Sys_sbrk \<longrightarrow> \<not> sbrk_past_table s (sint (r_ebx r))"
  shows "(\<exists>res s'. system_call_handler kbuf r s = Some (res, s')) \<and>
    (load32 (kmmu s) (memory s) (r_ebp r + 4) \<noteq> None \<longrightarrow>
      (\<exists>res s'. syscall_handler_sysenter kbuf kflags r s = Some (res, s')))"
proof (intro conjI impI)
  have x: "sint (r_eax r) \<noteq> 1" using n(3) by (auto simp: always_returns_def sys_call_table_def)
  obtain s2 where s2: "statsEntrySys (save_frame r s) = Some s2" "kernel_inv s2 Q" "cur s2 = cur s"
    "idle_task s2 = idle_task s" "holds_frame s2 (cur s2) r"
    "frame_word s2 0 = Some (r_ebx r)" "frame_word s2 (Suc 0) = Some (r_ecx r)" "frame_word s2 2 = Some (r_edx r)"
    "stats_only (save_frame r s) s2"
    using after_entry [OF i, of r] by metis
  have ni2: "idle_task s2 \<noteq> Some (cur s2)" using ni s2 by simp
  obtain out s3 where c: "call_sys kbuf (sys_call_table ! nat (sint (r_eax r))) (r_ebx r) (r_ecx r) (r_edx r) s2 = Some (out, s3)"
    using call_sys_total [OF s2(2) ni2 n(3)] b sbrk_past_table_stats [OF s2(9)] by blast
  obtain Q3 where "kernel_inv s3 Q3" "holds_frame s3 (cur s2) r" "\<forall>v. out = Ret v \<longrightarrow> cur s3 = cur s2"
    using call_by_number [OF s2(2) ni2 n(1,2) x s2(5) c] by blast
  then show "\<exists>res s'. system_call_handler kbuf r s = Some (res, s')"
    using handler_runs [OF i s2(1) n(1,2) s2(6-8) c] system_call_end_keeps [of s3 Q3 r] by (cases out) fastforce+
next
  assume "load32 (kmmu s) (memory s) (r_ebp r + 4) \<noteq> None"
  then obtain ip where ip: "load32 (kmmu s) (memory s) (r_ebp r + 4) = Some ip" by blast
  let ?r = "sysenter_frame ip r"
  have x: "sint (r_eax r) \<noteq> 1" using n(3) by (auto simp: always_returns_def sys_call_table_def)
  obtain s2 where s2: "statsEntrySys (save_frame ?r s) = Some s2" "kernel_inv s2 Q" "cur s2 = cur s"
    "idle_task s2 = idle_task s" "holds_frame s2 (cur s2) ?r"
    "frame_word s2 0 = Some (r_ebx r)" "frame_word s2 (Suc 0) = Some (r_ecx r)" "frame_word s2 2 = Some (r_edx r)"
    "stats_only (save_frame ?r s) s2"
    using after_entry [OF i, of ?r] unfolding sysenter_frame_simps by metis
  have ni2: "idle_task s2 \<noteq> Some (cur s2)" using ni s2 by simp
  obtain out s3 where c: "call_sys kbuf (sys_call_table ! nat (sint (r_eax r))) (r_ebx r) (r_ecx r) (r_edx r) s2 = Some (out, s3)"
    using call_sys_total [OF s2(2) ni2 n(3)] b sbrk_past_table_stats [OF s2(9)] by blast
  obtain Q3 where "holds_frame s3 (cur s2) ?r" "\<forall>v. out = Ret v \<longrightarrow> cur s3 = cur s2"
    using call_by_number [OF s2(2) ni2 n(1,2) x s2(5) c] by blast
  then show "\<exists>res s'. syscall_handler_sysenter kbuf kflags r s = Some (res, s')"
    using sysenter_runs [OF i ip s2(1) n(1,2) s2(6-8) c] sysenter_end_held [of s3 ?r] by (cases out) fastforce+
qed

text \<open>The registers of the sample process at \<open>sysenter\<close>, with the stack pointer in \<open>ebp\<close>.\<close>

definition sample_sysenter :: "u32 \<Rightarrow> regs" where
  "sample_sysenter n = (sample_regs n)\<lparr>r_ebp := 0x1080F8, r_esp := 0x1080F8\<rparr>"

lemma sample_return_address: "load32 (kmmu sample) (memory sample) (r_ebp (sample_sysenter n) + 4) = Some 0"
proof -
  have l: "load8 (kmmu sample) (memory sample) (0x1080FC + of_nat i) = Some 0" if "i < 4" for i
    using sample_user_byte [of 0 "252 + i"] load8_Some [of "kmmu sample" "0x1080FC" i "memory sample"] that
    by (simp add: algebra_simps)
  from l [of 0] l [of 1] l [of 2] l [of 3] show ?thesis
    by (simp add: load32_def dword_of_def sample_sysenter_def)
qed

theorem system_calls_return_witness:
  "(\<exists>res s'. system_call_handler 0 (sample_sysenter 2) sample = Some (res, s')) \<and>
    (\<exists>res s'. syscall_handler_sysenter 0 0 (sample_sysenter 2) sample = Some (res, s'))"
proof -
  have "0 \<le> sint (r_eax (sample_sysenter 2))" "sint (r_eax (sample_sysenter 2)) < MAX_SYSCALL"
    "sys_call_table ! nat (sint (r_eax (sample_sysenter 2))) \<in> always_returns"
    "sys_call_table ! nat (sint (r_eax (sample_sysenter 2))) = Sys_sbrk \<longrightarrow>
      \<not> sbrk_past_table sample (sint (r_ebx (sample_sysenter 2)))"
    by (simp_all add: sample_sysenter_def sample_regs_def MAX_SYSCALL_def sys_call_table_def always_returns_def)
  from system_calls_return [OF sample_kernel_inv _ this, of 0 0]
  show ?thesis using sample_return_address [of 2] by auto
qed

section \<open>fork returns twice\<close>

text \<open>
  A call of \<open>fork\<close> from a state in which the caller has the frame \<open>f\<close>: afterwards both processes have it.
\<close>

lemma fork_frames:
  assumes i: "kernel_inv s Q" and ni: "idle_task s \<noteq> Some (cur s)" and t: "Q FreeQ = t # ts"
    and d: "d0 < 15" "refs_DIR s d0 = 0" and fr: "20 \<le> card (free_frames (phys_mem s))" and f: "holds_frame s (cur s) f"
  obtains s' Q' where "sys_fork 1006 s = Some (incrementalPID s, s')" "kernel_inv s' Q'" "cur s' = cur s"
    "holds_frame s' (cur s') f" "holds_frame s' t f" "t \<noteq> cur s" "t \<notin> set (Q' FreeQ)"
    "kstack s' t 1006 = Code Ret_from_fork"
proof -
  obtain dp where a: "aspace_ok dp s" using kernel_inv_cur_space [OF i ni] by blast
  obtain dn where dn: "dn < 15" "refs_DIR s dn = 0" "\<forall>k<dn. refs_DIR s k \<noteq> 0" using first_unused_directory [OF d] by blast
  obtain s' where s': "sys_fork 1006 s = Some (incrementalPID s, s')" "kernel_inv s' (spawned t Q)"
    "stacks_kept s Q s'" "kstack s' t = fork_stack 1006 s"
    using fork_spawns [OF i t ni dn a, of 1006] fr by auto
  have c: "cur s' = cur s" "kstack s' (cur s) = kstack s (cur s)"
    using s'(3) cur_not_free [OF i] by (simp_all add: stacks_kept_def)
  have "distinct (Q FreeQ)" using i qinv_distinct [of s Q FreeQ] heads_basic(1) by (simp add: kernel_inv_def kinv_def)
  then have n: "t \<notin> set (spawned t Q FreeQ)" using t by (simp add: spawned_def)
  have "t \<noteq> cur s" using cur_not_free [OF i] t by auto
  moreover have "holds_frame s' (cur s') f" using f c holds_frame_cong [OF c(2)] by simp
  moreover have "holds_frame s' t f" using f s'(4) by (simp add: holds_frame_def fork_stack_def)
  moreover have "kstack s' t 1006 = Code Ret_from_fork" using s'(4) by (simp add: fork_stack_def)
  ultimately show ?thesis using that s'(1,2) c(1) n by blast
qed

text \<open>A process with a frame that is switched to later leaves by \<open>sysexit\<close> with it and its result.\<close>

lemma suspended_frame_returns:
  assumes "suspended_run t s1 s2" "kernel_inv s1 Q" "t \<notin> set (Q FreeQ)" "holds_frame s1 t f" "cur s2 = t"
  shows "kstack s2 t = kstack s1 t \<and> (\<exists>s3. sysenter_end kflags v s2 = Some (Some (sysexited kflags (word_of_int v) f), s3))"
proof
  show k: "kstack s2 t = kstack s1 t" using suspended_run_keeps [OF assms(1-3)] by blast
  then have "holds_frame s2 (cur s2) f" using assms(4,5) holds_frame_cong by blast
  then show "\<exists>s3. sysenter_end kflags v s2 = Some (Some (sysexited kflags (word_of_int v) f), s3)"
    using sysenter_end_held [of s2 f kflags v] by blast
qed

text \<open>
  C8. A process that calls fork through sysenter, as the library does, while a descriptor, a
  directory and 20 frames are free and the word above its ebp, the return address, is mapped,
  leaves the kernel with the new PID in eax and the registers sysexit gives (return address,
  stack pointer, user segments, and the flags of the kernel with interrupts on); the child,
  whenever it first gets the processor after any interleaving of interrupts and calls other than
  exit, finds ret_from_fork on its stack and ends the same call with the registers of its
  parent, 0 in eax, and the flags of the kernel at that time.
\<close>

theorem fork_returns_twice:
  assumes i: "kernel_inv s Q" and ni: "idle_task s \<noteq> Some (cur s)" and t: "Q FreeQ = t # ts"
    and d: "d0 < 15" "refs_DIR s d0 = 0" and fr: "20 \<le> card (free_frames (phys_mem s))" and n: "r_eax r = 2"
    and ip: "load32 (kmmu s) (memory s) (r_ebp r + 4) = Some ip"
  shows "\<exists>s1. syscall_handler_sysenter kbuf kflags r s = Some (Some (sysexit_regs kflags ip (word_of_int (incrementalPID s)) r), s1) \<and>
    (\<forall>s2. suspended_run t s1 s2 \<and> cur s2 = t \<longrightarrow> kstack s2 t 1006 = Code Ret_from_fork \<and>
      (\<forall>kflags'. \<exists>s3. sysenter_end kflags' ret_from_fork s2 = Some (Some (sysexit_regs kflags' ip 0 r), s3)))"
proof -
  let ?f = "sysenter_frame ip r" and ?p = "incrementalPID s"
  have e: "sys_call_table ! nat (sint (r_eax r)) = Sys_fork" "0 \<le> sint (r_eax r)" "sint (r_eax r) < MAX_SYSCALL"
    by (simp_all add: n sys_call_table_def MAX_SYSCALL_def)
  obtain s2 where s2: "statsEntrySys (save_frame ?f s) = Some s2" "stats_only (save_frame ?f s) s2" "kernel_inv s2 Q"
    "cur s2 = cur s" "idle_task s2 = idle_task s" "holds_frame s2 (cur s2) ?f"
    "frame_word s2 0 = Some (r_ebx r)" "frame_word s2 (Suc 0) = Some (r_ecx r)" "frame_word s2 2 = Some (r_edx r)"
    using after_entry [OF i, of ?f] unfolding sysenter_frame_simps by metis
  have same: "refs_DIR s2 = refs_DIR s" "phys_mem s2 = phys_mem s" "incrementalPID s2 = ?p"
    using stats_only_fields [OF s2(2)] by (simp_all add: save_frame_def)
  obtain s3 Q3 where s3: "sys_fork 1006 s2 = Some (?p, s3)" "kernel_inv s3 Q3" "cur s3 = cur s2"
    "holds_frame s3 (cur s3) ?f" "holds_frame s3 t ?f" "t \<noteq> cur s2" "t \<notin> set (Q3 FreeQ)"
    "kstack s3 t 1006 = Code Ret_from_fork"
    using fork_frames [OF s2(3) _ t d(1) _ _ s2(6)] ni d(2) fr s2(4,5) same by metis
  obtain s1 where s1: "sysenter_end kflags ?p s3 = Some (Some (sysexited kflags (word_of_int ?p) ?f), s1)"
    "stats_only (set_frame_eax (word_of_int ?p) s3) s1" using sysenter_end_held [OF s3(4)] by blast
  have run: "syscall_handler_sysenter kbuf kflags r s = Some (Some (sysexit_regs kflags ip (word_of_int ?p) r), s1)"
    using sysenter_runs [OF i ip s2(1) e(2,3) s2(7-9), of kbuf "Ret ?p" s3] s3(1) s1(1)
    by (simp add: e(1) returning_def sysexit_regs_def)
  have i1: "kernel_inv s1 Q3"
    using kernel_inv_stats [OF _ s1(2)] kernel_inv_kstack [OF s3(2)] by (simp add: set_frame_eax_def)
  have k: "kstack s1 t = kstack s3 t" using stats_only_fields(1,2) [OF s1(2)] s3(3,6) by (simp add: set_frame_eax_def)
  then have f1: "holds_frame s1 t ?f" using s3(5) holds_frame_cong by blast
  have "kstack s4 t 1006 = Code Ret_from_fork \<and>
      (\<forall>kflags'. \<exists>s5. sysenter_end kflags' ret_from_fork s4 = Some (Some (sysexit_regs kflags' ip 0 r), s5))" if "suspended_run t s1 s4" "cur s4 = t" for s4
    using suspended_frame_returns [OF that(1) i1 s3(7) f1 that(2), of _ ret_from_fork] k s3(8)
    by (simp add: sysexit_regs_def ret_from_fork_def)
  then show ?thesis using run by blast
qed

theorem fork_returns_twice_witness:
  "\<exists>s1. syscall_handler_sysenter 0 0 (sample_sysenter 2) sample = Some (Some (sysexit_regs 0 0 6 (sample_sysenter 2)), s1)"
proof -
  have "20 \<le> card (free_frames (phys_mem sample))" "r_eax (sample_sysenter 2) = 2"
    using sample_pages(4) by (simp_all add: sample_sysenter_def sample_regs_def)
  from fork_returns_twice [OF sample_kernel_inv _ _ _ _ this sample_return_address, of 3 "[4]" 2 0 0]
  show ?thesis by auto
qed

end
