(* ===== verification/Wrappers.thy ===== *)
theory Wrappers
  imports Entry
begin

text \<open>
  The user side of a system call, \<open>wrappers.S\<close>: \<open>write\<close> goes through \<open>int 0x80\<close>, every other wrapper
  through the macro \<open>SYSCALL\<close>, which leaves a return address and the caller's \<open>ebp\<close> on the user
  stack for the handler of \<open>sysenter\<close>. The results compose the wrappers, the entry code and the
  calls: what the C program that calls the wrapper observes.
\<close>

section \<open>The wrappers\<close>

text \<open>\<open>CHECK_ERROR\<close>: the result the wrapper returns, and \<open>errno\<close>.\<close>

definition check_error :: "u32 \<Rightarrow> u32 \<Rightarrow> u32 \<times> u32" where
  "check_error eax errno = (if sint eax \<ge> 0 then (eax, errno) else (- 1, - eax))"

text \<open>\<open>write\<close> of wrappers.S: \<open>int 0x80\<close> with the arguments in \<open>ebx\<close>, \<open>ecx\<close> and \<open>edx\<close>.\<close>

definition write_wrapper ::
    "u32 \<Rightarrow> u32 \<Rightarrow> u32 \<Rightarrow> u32 \<Rightarrow> u32 \<Rightarrow> regs \<Rightarrow> kstate \<Rightarrow> ((u32 \<times> u32) option \<times> kstate) option" where
  "write_wrapper kbuf fd buf n errno r s =
     do {
       (res, s') \<leftarrow> system_call_handler kbuf (r\<lparr>r_ebx := fd, r_ecx := buf, r_edx := n, r_eax := 4\<rparr>) s;
       Some (map_option (\<lambda>r'. check_error (r_eax r') errno) res, s')
     }"

text \<open>The flags after an addition: carry, parity, auxiliary carry, zero, sign and overflow are set anew.\<close>

definition put_bit :: "nat \<Rightarrow> bool \<Rightarrow> u32 \<Rightarrow> u32" where
  "put_bit n b w = (if b then set_bit n w else unset_bit n w)"

definition add_flags :: "u32 \<Rightarrow> u32 \<Rightarrow> u32 \<Rightarrow> u32" where
  "add_flags a b fl =
     (let r = a + b in
      put_bit 11 (bit a 31 = bit b 31 \<and> bit r 31 \<noteq> bit a 31)
        (put_bit 7 (bit r 31) (put_bit 6 (r = 0)
          (put_bit 4 (16 \<le> unat a mod 16 + unat b mod 16)
            (put_bit 2 (even (length (filter (bit r) [0..<8])))
              (put_bit 0 (2 ^ 32 \<le> unat a + unat b) fl))))))"

text \<open>After the label \<open>syscall_ret\<close>, also for a call that was suspended: \<open>pop %ebp\<close> and \<open>addl $4, %esp\<close>.\<close>

definition syscall_ret :: "regs \<Rightarrow> kstate \<Rightarrow> (regs option \<times> kstate) option" where
  "syscall_ret r s =
     do { bp \<leftarrow> load32 (kmmu s) (memory s) (r_esp r);
       Some (Some (r\<lparr>r_ebp := bp, r_esp := r_esp r + 4 + 4, r_eflags := add_flags (r_esp r + 4) 4 (r_eflags r)\<rparr>), s) }"

text \<open>
  The macro \<open>SYSCALL\<close>: \<open>kflags\<close> are the flags the kernel leaves, \<open>ret\<close> is the address of the label \<open>syscall_ret\<close>. The stores and the loads are
  the pushes and pops on the user stack.
\<close>

definition SYSCALL :: "u32 \<Rightarrow> u32 \<Rightarrow> u32 \<Rightarrow> int \<Rightarrow> regs \<Rightarrow> kstate \<Rightarrow> (regs option \<times> kstate) option" where
  "SYSCALL kbuf kflags ret n r s =
     do {
       m1 \<leftarrow> store32 (kmmu s) (memory s) (r_esp r - 4) ret;
       m2 \<leftarrow> store32 (kmmu s) m1 (r_esp r - 8) (r_ebp r);
       let r1 = r\<lparr>r_eax := word_of_int n, r_ebp := r_esp r - 8, r_esp := r_esp r - 8\<rparr>;
       (res, s') \<leftarrow> syscall_handler_sysenter kbuf kflags r1 (s\<lparr>memory := m2\<rparr>);
       (case res of
          None \<Rightarrow> Some (None, s')
        | Some r' \<Rightarrow> syscall_ret r' s')
     }"

text \<open>
  The wrappers that return what the kernel returns. In all wrappers \<open>r\<close> holds the registers after the
  pushes of the wrapper; the parameters, which the source loads from the stack of the caller, are arguments.
\<close>

definition gettime_wrapper :: "u32 \<Rightarrow> u32 \<Rightarrow> u32 \<Rightarrow> regs \<Rightarrow> kstate \<Rightarrow> (regs option \<times> kstate) option" where
  "gettime_wrapper kbuf kflags ret r s = SYSCALL kbuf kflags ret 10 r s"

definition exit_wrapper :: "u32 \<Rightarrow> u32 \<Rightarrow> u32 \<Rightarrow> regs \<Rightarrow> kstate \<Rightarrow> (regs option \<times> kstate) option" where
  "exit_wrapper kbuf kflags ret r s = SYSCALL kbuf kflags ret 1 r s"

definition getpid_wrapper :: "u32 \<Rightarrow> u32 \<Rightarrow> u32 \<Rightarrow> regs \<Rightarrow> kstate \<Rightarrow> (regs option \<times> kstate) option" where
  "getpid_wrapper kbuf kflags ret r s = SYSCALL kbuf kflags ret 20 r s"

text \<open>The wrappers with an error code: \<open>SYSCALL\<close> and \<open>CHECK_ERROR\<close>; the value is the result and \<open>errno\<close>.\<close>

definition checked_call ::
    "u32 \<Rightarrow> u32 \<Rightarrow> u32 \<Rightarrow> int \<Rightarrow> u32 \<Rightarrow> regs \<Rightarrow> kstate \<Rightarrow> ((u32 \<times> u32) option \<times> kstate) option" where
  "checked_call kbuf kflags ret n errno r s =
     do { (res, s') \<leftarrow> SYSCALL kbuf kflags ret n r s; Some (map_option (\<lambda>r'. check_error (r_eax r') errno) res, s') }"

definition writefast_wrapper ::
    "u32 \<Rightarrow> u32 \<Rightarrow> u32 \<Rightarrow> u32 \<Rightarrow> u32 \<Rightarrow> u32 \<Rightarrow> u32 \<Rightarrow> regs \<Rightarrow> kstate \<Rightarrow> ((u32 \<times> u32) option \<times> kstate) option" where
  "writefast_wrapper kbuf kflags ret fd buf n errno r s =
     checked_call kbuf kflags ret 4 errno (r\<lparr>r_ebx := fd, r_ecx := buf, r_edx := n\<rparr>) s"

definition read_wrapper ::
    "u32 \<Rightarrow> u32 \<Rightarrow> u32 \<Rightarrow> u32 \<Rightarrow> u32 \<Rightarrow> u32 \<Rightarrow> u32 \<Rightarrow> regs \<Rightarrow> kstate \<Rightarrow> ((u32 \<times> u32) option \<times> kstate) option" where
  "read_wrapper kbuf kflags ret fd buf n errno r s =
     checked_call kbuf kflags ret 30 errno (r\<lparr>r_ebx := fd, r_ecx := buf, r_edx := n\<rparr>) s"

definition sbrk_wrapper ::
    "u32 \<Rightarrow> u32 \<Rightarrow> u32 \<Rightarrow> u32 \<Rightarrow> u32 \<Rightarrow> regs \<Rightarrow> kstate \<Rightarrow> ((u32 \<times> u32) option \<times> kstate) option" where
  "sbrk_wrapper kbuf kflags ret increment errno r s = checked_call kbuf kflags ret 31 errno (r\<lparr>r_ebx := increment\<rparr>) s"

definition fork_wrapper ::
    "u32 \<Rightarrow> u32 \<Rightarrow> u32 \<Rightarrow> u32 \<Rightarrow> regs \<Rightarrow> kstate \<Rightarrow> ((u32 \<times> u32) option \<times> kstate) option" where
  "fork_wrapper kbuf kflags ret errno r s = checked_call kbuf kflags ret 2 errno r s"

definition get_stats_wrapper ::
    "u32 \<Rightarrow> u32 \<Rightarrow> u32 \<Rightarrow> u32 \<Rightarrow> u32 \<Rightarrow> u32 \<Rightarrow> regs \<Rightarrow> kstate \<Rightarrow> ((u32 \<times> u32) option \<times> kstate) option" where
  "get_stats_wrapper kbuf kflags ret pid st errno r s = checked_call kbuf kflags ret 35 errno (r\<lparr>r_ebx := pid, r_ecx := st\<rparr>) s"

definition clone_wrapper ::
    "u32 \<Rightarrow> u32 \<Rightarrow> u32 \<Rightarrow> u32 \<Rightarrow> u32 \<Rightarrow> u32 \<Rightarrow> regs \<Rightarrow> kstate \<Rightarrow> ((u32 \<times> u32) option \<times> kstate) option" where
  "clone_wrapper kbuf kflags ret function stack errno r s =
     checked_call kbuf kflags ret 19 errno (r\<lparr>r_ebx := function, r_ecx := stack\<rparr>) s"

definition sem_init_wrapper ::
    "u32 \<Rightarrow> u32 \<Rightarrow> u32 \<Rightarrow> u32 \<Rightarrow> u32 \<Rightarrow> u32 \<Rightarrow> regs \<Rightarrow> kstate \<Rightarrow> ((u32 \<times> u32) option \<times> kstate) option" where
  "sem_init_wrapper kbuf kflags ret n value errno r s = checked_call kbuf kflags ret 21 errno (r\<lparr>r_ebx := n, r_ecx := value\<rparr>) s"

definition sem_wait_wrapper ::
    "u32 \<Rightarrow> u32 \<Rightarrow> u32 \<Rightarrow> u32 \<Rightarrow> u32 \<Rightarrow> regs \<Rightarrow> kstate \<Rightarrow> ((u32 \<times> u32) option \<times> kstate) option" where
  "sem_wait_wrapper kbuf kflags ret n errno r s = checked_call kbuf kflags ret 22 errno (r\<lparr>r_ebx := n\<rparr>) s"

definition sem_signal_wrapper ::
    "u32 \<Rightarrow> u32 \<Rightarrow> u32 \<Rightarrow> u32 \<Rightarrow> u32 \<Rightarrow> regs \<Rightarrow> kstate \<Rightarrow> ((u32 \<times> u32) option \<times> kstate) option" where
  "sem_signal_wrapper kbuf kflags ret n errno r s = checked_call kbuf kflags ret 23 errno (r\<lparr>r_ebx := n\<rparr>) s"

definition sem_destroy_wrapper ::
    "u32 \<Rightarrow> u32 \<Rightarrow> u32 \<Rightarrow> u32 \<Rightarrow> u32 \<Rightarrow> regs \<Rightarrow> kstate \<Rightarrow> ((u32 \<times> u32) option \<times> kstate) option" where
  "sem_destroy_wrapper kbuf kflags ret n errno r s = checked_call kbuf kflags ret 24 errno (r\<lparr>r_ebx := n\<rparr>) s"

section \<open>Words on the stack\<close>

text \<open>A block of \<open>n\<close> mapped bytes without aliases.\<close>

definition block_ok :: "mmu \<Rightarrow> u32 \<Rightarrow> nat \<Rightarrow> bool" where
  "block_ok tr a n \<longleftrightarrow> (\<forall>i<n. tr (a + of_nat i) \<noteq> None) \<and> (\<forall>i<n. \<forall>j<n. i \<noteq> j \<longrightarrow> pa tr a i \<noteq> pa tr a j)"

lemma dword_of_bytes: "dword_of (byte_of 0 w) (byte_of (Suc 0) w) (byte_of 2 w) (byte_of 3 w) = w"
proof (rule bit_word_eqI)
  fix n
  assume "n < LENGTH(32)"
  then consider "n < 8" | "8 \<le> n" "n < 16" | "16 \<le> n" "n < 24" | "24 \<le> n" "n < 32" by force
  then show "bit (dword_of (byte_of 0 w) (byte_of (Suc 0) w) (byte_of 2 w) (byte_of 3 w)) n = bit w n"
    by cases (auto simp: byte_of_def dword_of_def bit_simps)
qed

lemma all_less_4: "(\<forall>i<4. P i) \<longleftrightarrow> P 0 \<and> P (Suc 0) \<and> P 2 \<and> P (3 :: nat)"
proof -
  have "i < 4 \<longleftrightarrow> i = 0 \<or> i = Suc 0 \<or> i = 2 \<or> i = 3" for i :: nat by auto
  then show ?thesis by auto
qed

lemma load32_bytes:
  assumes "\<forall>i<4. tr (a + of_nat i) \<noteq> None \<and> m (pa tr a i) = byte_of i v"
  shows "load32 tr m a = Some v"
proof -
  have l: "load8 tr m (a + of_nat i) = Some (byte_of i v)" if "i < 4" for i
    using load8_Some [of tr a i m] assms that by simp
  from l [of 0] l [of 1] l [of 2] l [of 3] show ?thesis
    by (simp add: load32_def dword_of_bytes)
qed

lemma store32_bytes:
  assumes "block_ok tr a 4"
  shows "\<exists>m'. store32 tr m a v = Some m' \<and> (\<forall>i<4. m' (pa tr a i) = byte_of i v) \<and>
    (\<forall>x. (\<forall>i<4. x \<noteq> pa tr a i) \<longrightarrow> m' x = m x)"
proof -
  have t: "tr (a + of_nat i) \<noteq> None" if "i < 4" for i using assms that by (simp add: block_ok_def)
  have n: "pa tr a i \<noteq> pa tr a j" if "i < 4" "j < 4" "i \<noteq> j" for i j using assms that by (simp add: block_ok_def)
  have s: "store8 tr m' a b = Some (m'(pa tr a 0 := b))" "store8 tr m' (a + 1) b = Some (m'(pa tr a (Suc 0) := b))"
    "store8 tr m' (a + 2) b = Some (m'(pa tr a 2 := b))" "store8 tr m' (a + 3) b = Some (m'(pa tr a 3 := b))" for m' b
    using store8_Some [of tr a 0 m' b] store8_Some [of tr a "Suc 0" m' b] store8_Some [of tr a 2 m' b]
      store8_Some [of tr a 3 m' b] t [of 0] t [of 1] t [of 2] t [of 3] by simp_all
  show ?thesis
    using n [of 0 1] n [of 0 2] n [of 0 3] n [of 1 2] n [of 1 3] n [of 2 3]
    by (simp add: store32_def s all_less_4)
qed

section \<open>write\<close>

lemma save_frame_simps [simp]:
  "cur (save_frame r s) = cur s" "memory (save_frame r s) = memory s" "con (save_frame r s) = con s"
  "kmmu (save_frame r s) = kmmu s"
  by (simp_all add: save_frame_def kmmu_def fun_eq_iff)

lemma stats_only_kmmu: "stats_only s s' \<Longrightarrow> kmmu s' = kmmu s"
  by (simp add: kmmu_def fun_eq_iff stats_only_fields)

lemma set_frame_eax_simps [simp]:
  "cur (set_frame_eax v s) = cur s" "memory (set_frame_eax v s) = memory s" "con (set_frame_eax v s) = con s"
  by (simp_all add: set_frame_eax_def)

lemma write_by_int80:
  assumes i: "kernel_inv s Q"
  obtains s2 where "con s2 = con s" "memory s2 = memory s" "kmmu s2 = kmmu s"
    "\<And>v s3. sys_write kbuf (sint fd) buf (sint n) s2 = Some (v, s3) \<Longrightarrow>
      \<exists>s4. write_wrapper kbuf fd buf n errno r s = Some (Some (check_error (word_of_int v) errno), s4) \<and>
        con s4 = con s3 \<and> memory s4 = memory s3"
proof -
  let ?r = "r\<lparr>r_ebx := fd, r_ecx := buf, r_edx := n, r_eax := 4\<rparr>"
  obtain s2 where e: "enter_by_interrupt s = s" and s2: "statsEntrySys (save_frame ?r s) = Some s2"
    "cur s2 = cur s" "holds_frame s2 (cur s2) ?r" "stats_only (save_frame ?r s) s2"
    using entry_state [OF i, of ?r] by blast
  note w = frame_word_held [OF s2(3)]
  have a: "frame_word s2 0 = Some fd" "frame_word s2 (Suc 0) = Some buf" "frame_word s2 2 = Some n"
    using w [of 0] w [of "Suc 0"] w [of 2] by (simp_all add: frame_words_def)
  show ?thesis
  proof (rule that)
    show "con s2 = con s" "memory s2 = memory s" using stats_only_fields [OF s2(4)] by simp_all
    show "kmmu s2 = kmmu s" using stats_only_kmmu [OF s2(4)] by simp
    fix v s3
    assume c: "sys_write kbuf (sint fd) buf (sint n) s2 = Some (v, s3)"
    have "io_only s2 s3" using c by (rule sys_write_io)
    then have "cur s3 = cur s2" "kstack s3 = kstack s2" by (auto simp: io_only_def)
    then have "holds_frame s3 (cur s3) ?r" using s2(3) holds_frame_cong [of s3 "cur s2" s2] by simp
    then obtain s4 where s4: "system_call_end v s3 = Some (Some (?r\<lparr>r_eax := word_of_int v\<rparr>), set_frame_eax (word_of_int v) s4)"
      "stats_only s3 s4" using system_call_end_held by blast
    have "system_call_handler kbuf ?r s = Some (Some (?r\<lparr>r_eax := word_of_int v\<rparr>), set_frame_eax (word_of_int v) s4)"
      using s2(1) c s4(1) a by (simp add: system_call_handler_def e MAX_SYSCALL_def sys_call_table_def returning_def)
    then show "\<exists>s4. write_wrapper kbuf fd buf n errno r s = Some (Some (check_error (word_of_int v) errno), s4) \<and>
        con s4 = con s3 \<and> memory s4 = memory s3"
      using stats_only_fields [OF s4(2)] by (simp add: write_wrapper_def)
  qed
qed

text \<open>
  C19. The library call write, from the wrapper through int 0x80 to the console and back,
  returns the number of bytes with errno unchanged, sends exactly the bytes of the user buffer
  to the console and changes no memory but the four bytes of the kernel buffer.
\<close>

theorem write_call_prints:
  assumes "kernel_inv s Q" "0 < sint n" "buf \<noteq> 0" "write_ok (kmmu s) kbuf buf (nat (sint n))" "screen_ok (con s)"
  shows "\<exists>s'. write_wrapper kbuf 1 buf n errno r s = Some (Some (n, errno), s') \<and> screen_ok (con s') \<and>
    port_e9 (con s') = port_e9 (con s) @ user_bytes (kmmu s) (memory s) buf (nat (sint n)) \<and>
    (\<forall>x. (\<forall>j<4. x \<noteq> pa (kmmu s) kbuf j) \<longrightarrow> memory s' x = memory s x)"
proof -
  obtain s2 where s2: "con s2 = con s" "memory s2 = memory s" "kmmu s2 = kmmu s"
    "\<And>v s3. sys_write kbuf (sint (1 :: u32)) buf (sint n) s2 = Some (v, s3) \<Longrightarrow>
      \<exists>s4. write_wrapper kbuf 1 buf n errno r s = Some (Some (check_error (word_of_int v) errno), s4) \<and>
        con s4 = con s3 \<and> memory s4 = memory s3"
    using write_by_int80 [OF assms(1)] by blast
  obtain m where m: "sys_write kbuf 1 buf (sint n) s2 = Some (sint n, s2\<lparr>memory := m,
      con := foldl printc (con s) (user_bytes (kmmu s) (memory s) buf (nat (sint n)))\<rparr>)"
    "\<forall>x. (\<forall>j<4. x \<noteq> pa (kmmu s) kbuf j) \<longrightarrow> m x = memory s x"
    using sys_write_runs [of "sint n" buf s2 kbuf] assms(2-4) s2(1-3) by auto
  have "check_error (word_of_int (sint n)) errno = (n, errno)" using assms(2) by (simp add: check_error_def)
  moreover obtain s4 where "write_wrapper kbuf 1 buf n errno r s = Some (Some (check_error (word_of_int (sint n)) errno), s4)"
    "con s4 = foldl printc (con s) (user_bytes (kmmu s) (memory s) buf (nat (sint n)))" "memory s4 = m"
    using s2(4) [of "sint n"] m(1) by auto
  ultimately show ?thesis using m(2) by (simp add: con.foldl_out con.foldl_inv [OF assms(5)])
qed

theorem write_call_prints_witness:
  "\<exists>s'. write_wrapper 0x30000 1 0x108000 5 0 (sample_regs 0) sample = Some (Some (5, 0), s') \<and>
    port_e9 (con s') = [0, 0, 0, 0, 0]"
proof -
  have "screen_ok (con sample)" "0 < sint (5 :: u32)" "(0x108000 :: u32) \<noteq> 0" "nat (sint (5 :: u32)) \<le> 4096"
    by (simp_all add: screen_ok_def console_init_def)
  from write_call_prints [OF sample_kernel_inv this(2,3) sample_write_ok [OF this(4)] this(1), of 0 "sample_regs 0"]
  show ?thesis by (elim ex_forward) (simp add: user_bytes_def console_init_def upt_rec)
qed

text \<open>The error code of a refused write.\<close>

definition write_error :: "u32 \<Rightarrow> u32 \<Rightarrow> int" where
  "write_error fd buf =
     (if fd \<noteq> 0 \<and> fd \<noteq> 1 then EBADF else if fd = 0 then EACCES else if buf = 0 then EFAULT else EINVAL)"

lemma check_error_code: "e \<in> {EBADF, EACCES, EFAULT, EINVAL} \<Longrightarrow> check_error (word_of_int (- e)) errno = (- 1, word_of_int e)"
  by (elim insertE; simp add: check_error_def)

lemma sys_write_refused:
  assumes "fd \<noteq> 1 \<or> buf = 0 \<or> sint n < 0"
  shows "sys_write kbuf (sint fd) buf (sint n) s = Some (- write_error fd buf, s)"
proof -
  have f: "sint fd = 0 \<longleftrightarrow> fd = 0" "sint fd = 1 \<longleftrightarrow> fd = 1"
    using signed_word_eqI [of fd 0] signed_word_eqI [of fd 1] by auto
  consider "fd \<noteq> 0" "fd \<noteq> 1" | "fd = 0" | "fd = 1" "buf = 0" | "fd = 1" "buf \<noteq> 0" "sint n < 0" using assms by blast
  then show ?thesis by cases (simp_all add: sys_write_def check_fd_def write_error_def f)
qed

text \<open>
  C20. A write to a descriptor other than 1, from a null buffer or of a negative size returns
  -1, sets errno to EBADF, EACCES, EFAULT or EINVAL in this order of precedence, and neither
  prints nor writes memory.
\<close>

theorem write_call_errors:
  assumes "kernel_inv s Q" "fd \<noteq> 1 \<or> buf = 0 \<or> sint n < 0"
  shows "\<exists>s'. write_wrapper kbuf fd buf n errno r s = Some (Some (- 1, word_of_int (write_error fd buf)), s') \<and>
    con s' = con s \<and> memory s' = memory s"
proof -
  obtain s2 where s2: "con s2 = con s" "memory s2 = memory s"
    "\<And>v s3. sys_write kbuf (sint fd) buf (sint n) s2 = Some (v, s3) \<Longrightarrow>
      \<exists>s4. write_wrapper kbuf fd buf n errno r s = Some (Some (check_error (word_of_int v) errno), s4) \<and>
        con s4 = con s3 \<and> memory s4 = memory s3"
    by (rule write_by_int80 [OF assms(1), where kbuf = kbuf and fd = fd and buf = buf and n = n and errno = errno and r = r]) (rule that)
  have c: "check_error (word_of_int (- write_error fd buf)) errno = (- 1, word_of_int (write_error fd buf))"
    by (rule check_error_code) (simp add: write_error_def)
  show ?thesis
    using s2(3) [OF sys_write_refused [OF assms(2)], unfolded c s2(1,2)] .
qed

theorem write_call_errors_witness:
  "\<exists>s'. write_wrapper 0x30000 0 0x108000 5 0 (sample_regs 0) sample = Some (Some (- 1, 13), s') \<and> con s' = console_init"
proof -
  have "(0 :: u32) \<noteq> 1 \<or> (0x108000 :: u32) = 0 \<or> sint (5 :: u32) < 0" by simp
  from write_call_errors [OF sample_kernel_inv this, of "0x30000" 0 "sample_regs 0"]
  show ?thesis by (elim ex_forward) (simp add: write_error_def)
qed

section \<open>sysenter\<close>

lemma block_ok_parts: "block_ok tr a (k + n) \<Longrightarrow> block_ok tr a k" "block_ok tr a (k + n) \<Longrightarrow> block_ok tr (a + of_nat k) n"
  by (simp_all add: block_ok_def pa_add add.assoc flip: of_nat_add)

lemma block_ok_part:
  assumes "block_ok tr a n" "k + l \<le> n"
  shows "block_ok tr (a + of_nat k) l"
proof -
  have "block_ok tr (a + of_nat k) (n - k)" using block_ok_parts(2) [of tr a k "n - k"] assms by simp
  then show ?thesis using block_ok_parts(1) [of tr _ l "n - k - l"] assms(2) by simp
qed

text \<open>The two pushes of \<open>SYSCALL\<close>, seen by the handler and, when nothing wrote over it, by the last pop.\<close>

lemma push_two:
  assumes b: "block_ok tr (sp - 8) 8"
  shows "\<exists>m1 m2. store32 tr m (sp - 4) v = Some m1 \<and> store32 tr m1 (sp - 8) w = Some m2 \<and>
    load32 tr m2 (sp - 8 + 4) = Some v \<and> load32 tr m2 (sp - 8) = Some w"
proof -
  let ?a = "sp - 8"
  have e: "sp - 4 = ?a + of_nat 4" "?a + 4 = ?a + of_nat 4" by simp_all
  have b1: "block_ok tr ?a 4" and b2: "block_ok tr (?a + of_nat 4) 4"
    using block_ok_parts [of tr ?a 4 4] b by simp_all
  obtain m1 where m1: "store32 tr m (?a + of_nat 4) v = Some m1" "\<forall>i<4. m1 (pa tr (?a + of_nat 4) i) = byte_of i v"
    using store32_bytes [OF b2] by blast
  obtain m2 where m2: "store32 tr m1 ?a w = Some m2" "\<forall>i<4. m2 (pa tr ?a i) = byte_of i w"
    "\<forall>x. (\<forall>i<4. x \<noteq> pa tr ?a i) \<longrightarrow> m2 x = m1 x"
    using store32_bytes [OF b1] by blast
  have "m2 (pa tr (?a + of_nat 4) i) = byte_of i v" if "i < 4" for i
  proof -
    have "\<forall>j<4. pa tr (?a + of_nat 4) i \<noteq> pa tr ?a j"
      using b that unfolding pa_add block_ok_def by auto
    then show ?thesis using m2(3) m1(2) that by simp
  qed
  then have "load32 tr m2 (?a + of_nat 4) = Some v" using b2 by (intro load32_bytes) (simp add: block_ok_def)
  moreover have "load32 tr m2 ?a = Some w" using m2(2) b1 by (intro load32_bytes) (simp add: block_ok_def)
  ultimately show ?thesis using m1(1) m2(1) unfolding e by blast
qed

lemma kernel_inv_memory: "kernel_inv s Q \<Longrightarrow> kernel_inv (s\<lparr>memory := m\<rparr>) Q"
  by (rule kernel_inv_view [OF _ _ mem_step_updates(5)]) (simp_all add: same_view_def)

lemma kmmu_memory [simp]: "kmmu (s\<lparr>memory := m\<rparr>) = kmmu s"
  by (simp add: kmmu_def fun_eq_iff)

text \<open>
  C21. A call through sysenter returns to the label after it with the stack pointer where it
  was, ebx, esi, edi and the data segments as before, and cs and ss the user segments; eax holds
  the result, ecx and edx the stack pointer and return address of sysexit, ebp is popped from
  the user stack, and the flags are those the kernel left, with interrupts on, as the addition
  at the end of the macro sets them.
\<close>

theorem fast_call_registers:
  assumes i: "kernel_inv s Q" and ni: "idle_task s \<noteq> Some (cur s)" and n: "n \<noteq> 1" "0 \<le> n" "n < 2 ^ 31"
    and b: "block_ok (kmmu s) (r_esp r - 8) 8" and c: "SYSCALL kbuf kflags ret n r s = Some (Some r', s')"
  shows "\<exists>Q' bp. kernel_inv s' Q' \<and> cur s' = cur s \<and> load32 (kmmu s') (memory s') (r_esp r - 8) = Some bp \<and>
    r' = r\<lparr>r_eax := r_eax r', r_ecx := r_esp r - 8, r_edx := ret, r_ebp := bp, r_eip := ret, r_cs := 0x23,
      r_ss := 0x2B, r_eflags := add_flags (r_esp r - 4) 4 (set_bit 9 kflags)\<rparr>"
proof -
  let ?r = "r\<lparr>r_eax := word_of_int n, r_ebp := r_esp r - 8, r_esp := r_esp r - 8\<rparr>"
  obtain m1 m2 where m: "store32 (kmmu s) (memory s) (r_esp r - 4) ret = Some m1"
    "store32 (kmmu s) m1 (r_esp r - 8) (r_ebp r) = Some m2" "load32 (kmmu s) m2 (r_esp r - 8 + 4) = Some ret"
    using push_two [OF b] by blast
  let ?s = "s\<lparr>memory := m2\<rparr>"
  obtain r1 bp where h: "syscall_handler_sysenter kbuf kflags ?r ?s = Some (Some r1, s')"
    "load32 (kmmu s') (memory s') (r_esp r1) = Some bp" "r' = r1\<lparr>r_ebp := bp, r_esp := r_esp r1 + 4 + 4, r_eflags := add_flags (r_esp r1 + 4) 4 (r_eflags r1)\<rparr>"
    using c m by (auto simp: SYSCALL_def syscall_ret_def bind_eq_Some_iff split: option.splits)
  have "sint (word_of_int n :: u32) = n" using n by (simp add: sint_sbintrunc' signed_take_bit_int_eq_self)
  then obtain Q' where Q': "kernel_inv s' Q'" "cur s' = cur s" "r1 = sysexit_regs kflags ret (r_eax r1) ?r"
    using sysenter_registers [OF kernel_inv_memory [OF i] _ _ h(1)] ni n(1) m(3) by auto
  have sp: "r_esp r1 = r_esp r - 8" by (subst Q'(3)) (simp add: sysexit_defs)
  have e: "r_esp r - 8 + 4 + 4 = r_esp r" and e': "r_esp r - 8 + 4 = r_esp r - 4" by simp_all
  have "r' = r\<lparr>r_eax := r_eax r', r_ecx := r_esp r - 8, r_edx := ret, r_ebp := bp, r_eip := ret, r_cs := 0x23,
      r_ss := 0x2B, r_eflags := add_flags (r_esp r - 4) 4 (set_bit 9 kflags)\<rparr>"
    unfolding h(3) sp e e' by (subst Q'(3), subst (2) Q'(3)) (simp add: sysexit_defs)
  then show ?thesis using Q'(1,2) h(2) sp by auto
qed

lemma kmmu_same_space:
  assumes "mem_step s s'" "own_space s" "cur s' = cur s"
  shows "kmmu s' = kmmu s"
proof -
  have "dir_pages s' = dir_pages s" "pagusr_table s' = pagusr_table s" "pagusr_addr s' = pagusr_addr s" "cr3 s' = cr3 s"
    using assms by (simp_all add: mem_step_def mem_frame_def own_space_def)
  then show ?thesis by (intro ext) (simp add: kmmu_def)
qed

lemma same_view_stack [simp]:
  "same_view s (save_frame r s)" "same_view s (set_frame_eax v s)" "same_view s (s\<lparr>memory := m\<rparr>)"
  by (simp_all add: same_view_def save_frame_def set_frame_eax_def)

text \<open>
  A call through \<open>SYSCALL\<close> that returns: what holds after the kernel routine and does not depend on
  stacks and accounts holds after the call.
\<close>

lemma SYSCALL_returns:
  assumes i: "kernel_inv s Q" and b: "block_ok (kmmu s) (r_esp r - 8) 8" and n: "0 \<le> n" "n < MAX_SYSCALL"
    and call: "\<And>s2. same_view s s2 \<Longrightarrow> \<forall>t. PID (tasks s2 t) = PID (tasks s t) \<Longrightarrow>
      \<exists>s3. call_sys kbuf (sys_call_table ! nat n) (r_ebx r) (r_ecx r) (r_edx r) s2 = Some (Ret v, s3) \<and>
        mem_step s2 s3 \<and> memory s3 = memory s2 \<and> cur s3 = cur s2 \<and> P s3"
    and stable: "\<And>s3 s4. P s3 \<Longrightarrow> same_view s3 s4 \<Longrightarrow> P s4"
  shows "\<exists>r' s'. SYSCALL kbuf kflags ret n r s = Some (Some r', s') \<and> r_eax r' = word_of_int v \<and> r_ebp r' = r_ebp r \<and> P s'"
proof -
  let ?r = "r\<lparr>r_eax := word_of_int n, r_ebp := r_esp r - 8, r_esp := r_esp r - 8\<rparr>"
  let ?f = "sysenter_frame ret ?r"
  obtain m1 m2 where m: "store32 (kmmu s) (memory s) (r_esp r - 4) ret = Some m1"
    "store32 (kmmu s) m1 (r_esp r - 8) (r_ebp r) = Some m2" "load32 (kmmu s) m2 (r_esp r - 8 + 4) = Some ret"
    "load32 (kmmu s) m2 (r_esp r - 8) = Some (r_ebp r)"
    using push_two [OF b] by blast
  let ?s = "s\<lparr>memory := m2\<rparr>"
  have i': "kernel_inv ?s Q" by (rule kernel_inv_memory [OF i])
  have "n < 2 ^ 31" using n by (simp add: MAX_SYSCALL_def sys_call_table_def)
  then have sn: "sint (word_of_int n :: u32) = n" using n by (simp add: sint_sbintrunc' signed_take_bit_int_eq_self)
  obtain s2 where s2: "statsEntrySys (save_frame ?f ?s) = Some s2" "stats_only (save_frame ?f ?s) s2"
    "kernel_inv s2 Q" "cur s2 = cur s" "holds_frame s2 (cur s2) ?f"
    "frame_word s2 0 = Some (r_ebx r)" "frame_word s2 (Suc 0) = Some (r_ecx r)" "frame_word s2 2 = Some (r_edx r)"
    using after_entry [OF i', of ?f] by (auto simp: sysenter_frame_def)
  have v2: "same_view s s2"
    using same_view_trans [OF same_view_trans [OF same_view_stack(3) same_view_stack(1)] same_view_stats [OF s2(2)]] .
  have "\<forall>t. PID (tasks s2 t) = PID (tasks s t)" using stats_only_fields(17) [OF s2(2)] by (simp add: save_frame_def)
  then obtain s3 where s3: "call_sys kbuf (sys_call_table ! nat n) (r_ebx r) (r_ecx r) (r_edx r) s2 = Some (Ret v, s3)"
    "mem_step s2 s3" "memory s3 = memory s2" "cur s3 = cur s2" "P s3"
    using call [OF v2] by blast
  have "kstack s3 = kstack s2" using s3(2) by (simp add: mem_step_def mem_frame_def)
  then have f3: "holds_frame s3 (cur s3) ?f" using s2(5) s3(4) by (simp add: holds_frame_def)
  obtain s4 where s4: "sysenter_end kflags v s3 = Some (Some (sysexited kflags (word_of_int v) ?f), s4)"
    "stats_only (set_frame_eax (word_of_int v) s3) s4"
    using sysenter_end_held [OF f3] by blast
  have h: "syscall_handler_sysenter kbuf kflags ?r ?s = Some (Some (sysexited kflags (word_of_int v) ?f), s4)"
    using sysenter_runs [OF i', of ?r ret s2 kbuf "Ret v" s3] m(3) s2(1,6-8) s3(1) n s4(1) by (simp add: sn)
  have "own_space s2" using s2(3) by (simp add: kernel_inv_def)
  then have "kmmu s3 = kmmu s" using kmmu_same_space [OF s3(2) _ s3(4)] stats_only_kmmu [OF s2(2)] by simp
  then have "kmmu s4 = kmmu s" "memory s4 = m2"
    using stats_only_kmmu [OF s4(2)] stats_only_fields(10) [OF s4(2)] stats_only_fields(10) [OF s2(2)] s3(3)
    by (simp_all add: set_frame_eax_def kmmu_def fun_eq_iff)
  then have "SYSCALL kbuf kflags ret n r s =
      Some (Some ((sysexited kflags (word_of_int v) ?f)\<lparr>r_ebp := r_ebp r, r_esp := r_esp r - 8 + 4 + 4,
        r_eflags := add_flags (r_esp r - 8 + 4) 4 (set_bit 9 kflags)\<rparr>), s4)"
    using m(1,2,4) h by (simp add: SYSCALL_def syscall_ret_def) (simp add: sysexit_defs)
  moreover have "P s4" using stable [OF s3(5)] same_view_trans [OF same_view_stack(2) same_view_stats [OF s4(2)]] .
  ultimately show ?thesis by (simp add: sysexited_def)
qed

text \<open>The wrapper \<open>getpid\<close>, from the call to the return.\<close>

lemma getpid_wrapper_returns:
  assumes i: "kernel_inv s Q" and b: "block_ok (kmmu s) (r_esp r - 8) 8"
  shows "\<exists>r' s'. getpid_wrapper kbuf kflags ret r s = Some (Some r', s') \<and> r_eax r' = word_of_int (PID (tasks s (cur s))) \<and>
    r_ebp r' = r_ebp r"
proof -
  let ?p = "PID (tasks s (cur s))"
  have c: "\<exists>s3. call_sys kbuf (sys_call_table ! nat 20) (r_ebx r) (r_ecx r) (r_edx r) s2 = Some (Ret ?p, s3) \<and>
      mem_step s2 s3 \<and> memory s3 = memory s2 \<and> cur s3 = cur s2 \<and> cur s3 = cur s3"
    if "same_view s s2" "\<forall>t. PID (tasks s2 t) = PID (tasks s t)" for s2
    using that by (simp add: sys_call_table_def sys_getpid_def mem_step_refl same_view_def)
  have "0 \<le> (20 :: int)" "20 < MAX_SYSCALL" by (simp_all add: MAX_SYSCALL_def sys_call_table_def)
  from SYSCALL_returns [where v = ?p and P = "\<lambda>s. cur s = cur s", OF i b this c] show ?thesis
    by (simp add: getpid_wrapper_def)
qed

section \<open>Semaphores from the user\<close>

text \<open>The convention of the library: the result, and \<open>errno\<close>.\<close>

definition user_result :: "int \<Rightarrow> u32 \<Rightarrow> u32 \<times> u32" where
  "user_result v errno = (if v < 0 then (- 1, word_of_int (- v)) else (word_of_int v, errno))"

lemma check_error_user:
  assumes "- (2 ^ 31) \<le> v" "v < 2 ^ 31"
  shows "check_error (word_of_int v) errno = user_result v errno"
proof -
  have "sint (word_of_int v :: u32) = v" using assms by (simp add: sint_sbintrunc' signed_take_bit_int_eq_self)
  then show ?thesis by (simp add: check_error_def user_result_def)
qed

lemma sem_table_view: "same_view s s' \<Longrightarrow> sem_table s' Q = sem_table s Q"
  by (simp add: sem_table_def fun_eq_iff same_view_def find_sem_cong [of s' s])

definition sem_effect :: "kstate \<Rightarrow> (ptr \<Rightarrow> nat list) \<Rightarrow> sem_table \<Rightarrow> nat list \<Rightarrow> kstate \<Rightarrow> bool" where
  "sem_effect s Q T woken s' \<longleftrightarrow>
     (\<exists>Q'. kinv s' Q' \<and> sem_inv s' Q' \<and> sem_table s' Q' = T \<and> Q' ReadyQ = Q ReadyQ @ woken \<and> cur s' = cur s)"

lemma sem_effect_view:
  assumes e: "sem_effect s Q T w s3" and v: "same_view s3 s4"
  shows "sem_effect s Q T w s4"
proof -
  have "cur s4 = cur s3" using v by (simp add: same_view_def)
  then show ?thesis using e unfolding sem_effect_def by (simp only: same_view_invs [OF v] sem_table_view [OF v])
qed

text \<open>A checked call with a semaphore identifier that has an effect on the table and wakes processes up.\<close>

lemma sem_call_from_user:
  assumes i: "kernel_inv s Q" and b: "block_ok (kmmu s) (r_esp r - 8) 8" and n: "0 \<le> n" "n < MAX_SYSCALL"
    and v: "- (2 ^ 31) \<le> v" "v < 2 ^ 31"
    and call: "\<And>s2. kinv s2 Q \<Longrightarrow> sem_inv s2 Q \<Longrightarrow> sem_table s2 Q = sem_table s Q \<Longrightarrow>
      PID (tasks s2 (cur s2)) = PID (tasks s (cur s)) \<Longrightarrow>
      \<exists>s3. call_sys kbuf (sys_call_table ! nat n) x (r_ecx r) (r_edx r) s2 = Some (Ret v, s3) \<and>
        mem_step s2 s3 \<and> memory s3 = memory s2 \<and> sem_effect s2 Q T woken s3"
  shows "\<exists>s'. checked_call kbuf kflags ret n errno (r\<lparr>r_ebx := x\<rparr>) s = Some (Some (user_result v errno), s') \<and>
    sem_effect s Q T woken s'"
proof -
  have c: "\<exists>s3. call_sys kbuf (sys_call_table ! nat n) (r_ebx (r\<lparr>r_ebx := x\<rparr>)) (r_ecx (r\<lparr>r_ebx := x\<rparr>))
        (r_edx (r\<lparr>r_ebx := x\<rparr>)) s2 = Some (Ret v, s3) \<and> mem_step s2 s3 \<and> memory s3 = memory s2 \<and>
        cur s3 = cur s2 \<and> sem_effect s Q T woken s3"
    if s2: "same_view s s2" "\<forall>t. PID (tasks s2 t) = PID (tasks s t)" for s2
  proof -
    have k: "kinv s2 Q" "sem_inv s2 Q" "cur s2 = cur s"
      using i same_view_invs [OF s2(1)] s2(1) by (simp_all add: kernel_inv_def same_view_def)
    show ?thesis
      using call [OF k(1,2) sem_table_view [OF s2(1)]] s2(2) k(3) by (fastforce simp: sem_effect_def)
  qed
  have b': "block_ok (kmmu s) (r_esp (r\<lparr>r_ebx := x\<rparr>) - 8) 8" using b by simp
  have "\<exists>r' s'. SYSCALL kbuf kflags ret n (r\<lparr>r_ebx := x\<rparr>) s = Some (Some r', s') \<and> r_eax r' = word_of_int v \<and>
      r_ebp r' = r_ebp (r\<lparr>r_ebx := x\<rparr>) \<and> sem_effect s Q T woken s'"
  proof (rule SYSCALL_returns [where P = "sem_effect s Q T woken", OF i b' n])
    show "sem_effect s Q T woken s4" if "sem_effect s Q T woken s3" "same_view s3 s4" for s3 s4
      using that by (rule sem_effect_view)
  qed (rule c)
  then obtain r' s' where "SYSCALL kbuf kflags ret n (r\<lparr>r_ebx := x\<rparr>) s = Some (Some r', s')" "r_eax r' = word_of_int v"
    "sem_effect s Q T woken s'" by blast
  then show ?thesis by (simp add: checked_call_def check_error_user [OF v])
qed

lemma EINVAL_EPERM_range: "v \<in> {0, - EINVAL, - EPERM} \<Longrightarrow> - (2 ^ 31) \<le> v \<and> v < 2 ^ 31"
  by auto

text \<open>
  C22. The library calls sem_signal and sem_destroy, from the wrapper through sysenter and back,
  do on the table of semaphores and the ready queue what the abstract operations do and return
  their result by the convention of the library: a negative result gives -1 and its negation in
  errno, any other is returned with errno unchanged.
\<close>

theorem semaphore_calls_from_user:
  assumes i: "kernel_inv s Q" and b: "block_ok (kmmu s) (r_esp r - 8) 8"
    and g: "abs_signal (sint n) (sem_table s Q) = (v, T, woken)"
    and d: "abs_destroy (PID (tasks s (cur s))) (sint n) (sem_table s Q) = (v', T', woken')"
  shows "(\<exists>s'. sem_signal_wrapper kbuf kflags ret n errno r s = Some (Some (user_result v errno), s') \<and>
      sem_effect s Q T woken s') \<and>
    (\<exists>s'. sem_destroy_wrapper kbuf kflags ret n errno r s = Some (Some (user_result v' errno), s') \<and>
      sem_effect s Q T' woken' s')"
proof
  have "v \<in> {0, - EINVAL, - EPERM}" using g by (auto simp: abs_signal_def split: option.splits list.splits)
  note r = conjunct1 [OF EINVAL_EPERM_range [OF this]] conjunct2 [OF EINVAL_EPERM_range [OF this]]
  have c: "\<exists>s3. call_sys kbuf (sys_call_table ! nat 23) n (r_ecx r) (r_edx r) s2 = Some (Ret v, s3) \<and>
      mem_step s2 s3 \<and> memory s3 = memory s2 \<and> sem_effect s2 Q T woken s3"
    if "kinv s2 Q" "sem_inv s2 Q" "sem_table s2 Q = sem_table s Q" for s2
    using sys_sem_signal_refines [OF that(1,2) g [folded that(3)]]
    by (auto simp: sys_call_table_def returning_def sem_effect_def intro: mem_step_sem_signal sem_calls_memory)
  show "\<exists>s'. sem_signal_wrapper kbuf kflags ret n errno r s = Some (Some (user_result v errno), s') \<and> sem_effect s Q T woken s'"
    unfolding sem_signal_wrapper_def
    by (rule sem_call_from_user [OF i b _ _ r]) (use c in \<open>simp_all add: MAX_SYSCALL_def sys_call_table_def\<close>)
next
  have "v' \<in> {0, - EINVAL, - EPERM}" using d by (auto simp: abs_destroy_def split: option.splits if_splits)
  note r = conjunct1 [OF EINVAL_EPERM_range [OF this]] conjunct2 [OF EINVAL_EPERM_range [OF this]]
  have c: "\<exists>s3. call_sys kbuf (sys_call_table ! nat 24) n (r_ecx r) (r_edx r) s2 = Some (Ret v', s3) \<and>
      mem_step s2 s3 \<and> memory s3 = memory s2 \<and> sem_effect s2 Q T' woken' s3"
    if "kinv s2 Q" "sem_inv s2 Q" "sem_table s2 Q = sem_table s Q"
      "PID (tasks s2 (cur s2)) = PID (tasks s (cur s))" for s2
    using sys_sem_destroy_refines [OF that(1,2) d [folded that(3,4)]]
    by (auto simp: sys_call_table_def returning_def sem_effect_def intro: mem_step_sem_destroy sem_calls_memory)
  show "\<exists>s'. sem_destroy_wrapper kbuf kflags ret n errno r s = Some (Some (user_result v' errno), s') \<and> sem_effect s Q T' woken' s'"
    unfolding sem_destroy_wrapper_def
    by (rule sem_call_from_user [OF i b _ _ r]) (use c in \<open>simp_all add: MAX_SYSCALL_def sys_call_table_def\<close>)
qed

lemma sample_block: "n \<le> 4096 \<Longrightarrow> block_ok (kmmu sample) 0x108000 n"
proof -
  assume n: "n \<le> 4096"
  let ?f = "data_frame (fst sample_memory) 1 0"
  have u: "kmmu sample (0x108000 + of_nat i) = Some (faddr ?f i)" if "i < 4096" for i
    using sample_user_byte [of 0 i] that by (simp add: algebra_simps)
  have "?f < 1024" using sample_pages(1) by simp
  then have "faddr ?f i \<noteq> faddr ?f j" if "i < 4096" "j < 4096" "i \<noteq> j" for i j
    using faddr_inj [of ?f ?f i j] that by auto
  then show ?thesis using n by (simp add: block_ok_def pa_def u)
qed

lemma sample_stack: "block_ok (kmmu sample) (0x108100 - 8) 8"
  using block_ok_part [OF sample_block [of 4096], of 248 8] by simp

theorem fast_call_registers_witness:
  "\<exists>r' s'. getpid_wrapper 0 0 0x100020 (sample_regs 0) sample = Some (Some r', s') \<and> r_eax r' = 1 \<and> r_ebp r' = 6 \<and>
    r_esp r' = 0x108100 \<and> r_eip r' = 0x100020"
proof -
  have b: "block_ok (kmmu sample) (r_esp (sample_regs 0) - 8) 8" using sample_stack by (simp add: sample_regs_def)
  obtain r' s' where r: "getpid_wrapper 0 0 0x100020 (sample_regs 0) sample = Some (Some r', s')" "r_eax r' = 1" "r_ebp r' = 6"
    using getpid_wrapper_returns [OF sample_kernel_inv b, of 0 0 "0x100020"] by (auto simp: sample_regs_def)
  obtain bp where e: "r' = (sample_regs 0)\<lparr>r_eax := r_eax r', r_ecx := r_esp (sample_regs 0) - 8, r_edx := 0x100020,
      r_ebp := bp, r_eip := 0x100020, r_cs := 0x23, r_ss := 0x2B,
      r_eflags := add_flags (r_esp (sample_regs 0) - 4) 4 (set_bit 9 0)\<rparr>"
    using fast_call_registers [OF sample_kernel_inv _ _ _ _ b r(1) [unfolded getpid_wrapper_def]] by auto
  have "r_esp r' = 0x108100" "r_eip r' = 0x100020"
    using arg_cong [OF e, of r_esp] arg_cong [OF e, of r_eip] by (simp_all add: sample_regs_def)
  then show ?thesis using r by blast
qed

theorem semaphore_calls_from_user_witness:
  "(\<exists>s'. sem_signal_wrapper 0 0 0 7 0 (sample_regs 0) sample = Some (Some (0, 0), s')) \<and>
    (\<exists>s'. sem_destroy_wrapper 0 0 0 7 0 (sample_regs 0) sample = Some (Some (0, 0), s'))"
proof -
  have b: "block_ok (kmmu sample) (r_esp (sample_regs 0) - 8) 8" using sample_stack by (simp add: sample_regs_def)
  have t: "sem_table sample sample_queues 7 = Some (1, 0, [5, 6])" by (simp add: sem_table_def sample_find_sem)
  have "abs_signal (sint (7 :: u32)) (sem_table sample sample_queues) =
      (0, (sem_table sample sample_queues)(7 \<mapsto> (1, 0, [6])), [5])"
    "abs_destroy (PID (tasks sample (cur sample))) (sint (7 :: u32)) (sem_table sample sample_queues) =
      (0, (sem_table sample sample_queues)(7 := None), [5, 6])"
    by (simp_all add: abs_signal_def abs_destroy_def t)
  from semaphore_calls_from_user [OF sample_kernel_inv b this, of 0 0 0] show ?thesis by (auto simp: user_result_def)
qed

section \<open>get_stats\<close>

lemma load32_frame:
  assumes "\<forall>i<4. m' (pa tr a i) = m (pa tr a i)" "\<forall>i<4. tr (a + of_nat i) \<noteq> None"
  shows "load32 tr m' a = load32 tr m a"
proof -
  have "load8 tr m' (a + of_nat i) = load8 tr m (a + of_nat i)" if "i < 4" for i
    using assms that load8_Some [of tr a i] by simp
  from this [of 0] this [of 1] this [of 2] this [of 3] show ?thesis by (simp add: load32_def)
qed

text \<open>A block of words is stored as a whole and read back word by word.\<close>

lemma store_words_reads:
  "block_ok tr a (4 * length ws) \<Longrightarrow>
    \<exists>m'. store_words tr m a ws = Some m' \<and> (\<forall>k<length ws. load32 tr m' (a + of_nat (4 * k)) = Some (ws ! k)) \<and>
      (\<forall>x. (\<forall>i<4 * length ws. x \<noteq> pa tr a i) \<longrightarrow> m' x = m x)"
proof (induction ws arbitrary: a m)
  case Nil
  then show ?case by simp
next
  case (Cons w ws)
  have b: "block_ok tr a (4 + 4 * length ws)" using Cons.prems by simp
  note b4 = block_ok_parts(1) [OF b] and br = block_ok_parts(2) [OF b]
  have a4: "a + of_nat 4 = a + 4" by simp
  obtain m1 where m1: "store32 tr m a w = Some m1" "\<forall>i<4. m1 (pa tr a i) = byte_of i w"
    "\<forall>x. (\<forall>i<4. x \<noteq> pa tr a i) \<longrightarrow> m1 x = m x" using store32_bytes [OF b4] by blast
  obtain m2 where m2: "store_words tr m1 (a + 4) ws = Some m2"
    "\<forall>k<length ws. load32 tr m2 (a + 4 + of_nat (4 * k)) = Some (ws ! k)"
    "\<forall>x. (\<forall>i<4 * length ws. x \<noteq> pa tr (a + 4) i) \<longrightarrow> m2 x = m1 x"
    using Cons.IH [OF br [unfolded a4]] by blast
  have p4: "pa tr (a + 4) i = pa tr a (4 + i)" for i using pa_add [of tr a 4 i] by simp
  have ne: "pa tr a i \<noteq> pa tr a (4 + j)" if "i < 4" "j < 4 * length ws" for i j
    using b that by (simp add: block_ok_def)
  have l0: "load32 tr m2 a = Some w"
    using m1(2) m2(3) ne b4 by (intro load32_bytes) (simp add: p4 block_ok_def)
  have "load32 tr m2 (a + of_nat (4 * k)) = Some ((w # ws) ! k)" if k: "k < length (w # ws)" for k
  proof (cases k)
    case 0
    then show ?thesis using l0 by simp
  next
    case (Suc j)
    have "a + of_nat (4 * k) = a + 4 + of_nat (4 * j)" by (simp add: Suc algebra_simps)
    moreover have "load32 tr m2 (a + 4 + of_nat (4 * j)) = Some (ws ! j)" using m2(2) k Suc by auto
    ultimately show ?thesis by (simp only: Suc nth_Cons_Suc)
  qed
  moreover have "m2 x = m x" if "\<forall>i<4 * length (w # ws). x \<noteq> pa tr a i" for x
    using m1(3) m2(3) that by (simp add: p4)
  moreover have "store_words tr m a (w # ws) = Some m2" using m1(1) m2(1) by simp
  ultimately show ?case by blast
qed

text \<open>
  C29. sys_get_stats for the PID of a process, with a block of the user area for the result,
  writes the six counters of the first process with that PID and the quantum left of the running
  process to consecutive words of the block, returns 0 and changes no other memory and nothing
  else of the kernel.
\<close>

theorem get_stats_reports:
  assumes p: "0 \<le> pid" "find (\<lambda>i. PID (tasks s i) = pid) [0..<15] = Some t"
    and a: "access_ok VERIFY_WRITE st 28 \<noteq> 0" and b: "block_ok (kmmu s) st 28"
  shows "\<exists>m. sys_get_stats pid st s = Some (0, s\<lparr>memory := m\<rparr>) \<and>
    (\<forall>k<6. load32 (kmmu s) m (st + of_nat (4 * k)) = Some (stats_words (estadisticas (tasks s t)) ! k)) \<and>
    load32 (kmmu s) m (st + 24) = Some (word_of_int (qLeft s)) \<and>
    (\<forall>x. (\<forall>i<28. x \<noteq> pa (kmmu s) st i) \<longrightarrow> m x = memory s x)"
proof -
  let ?ws = "stats_words (estadisticas (tasks s t))"
  have l: "length ?ws = 7" by (simp add: stats_words_def)
  obtain m1 where m1: "store_words (kmmu s) (memory s) st ?ws = Some m1"
    "\<forall>k<7. load32 (kmmu s) m1 (st + of_nat (4 * k)) = Some (?ws ! k)"
    "\<forall>x. (\<forall>i<28. x \<noteq> pa (kmmu s) st i) \<longrightarrow> m1 x = memory s x"
    using store_words_reads [of "kmmu s" st ?ws "memory s"] b l by auto
  have b24: "block_ok (kmmu s) (st + 24) 4" using block_ok_parts(2) [of "kmmu s" st 24 4] b by simp
  obtain m2 where m2: "store32 (kmmu s) m1 (st + 24) (word_of_int (qLeft s)) = Some m2"
    "\<forall>i<4. m2 (pa (kmmu s) (st + 24) i) = byte_of i (word_of_int (qLeft s))"
    "\<forall>x. (\<forall>i<4. x \<noteq> pa (kmmu s) (st + 24) i) \<longrightarrow> m2 x = m1 x"
    using store32_bytes [OF b24] by blast
  have p24: "pa (kmmu s) (st + 24) i = pa (kmmu s) st (24 + i)" for i using pa_add [of "kmmu s" st 24 i] by simp
  have "load32 (kmmu s) m2 (st + of_nat (4 * k)) = Some (?ws ! k)" if "k < 6" for k
  proof -
    have pk: "pa (kmmu s) (st + of_nat (4 * k)) i = pa (kmmu s) st (4 * k + i)" for i by (rule pa_add)
    have "load32 (kmmu s) m2 (st + of_nat (4 * k)) = load32 (kmmu s) m1 (st + of_nat (4 * k))"
    proof (rule load32_frame)
      show "\<forall>i<4. m2 (pa (kmmu s) (st + of_nat (4 * k)) i) = m1 (pa (kmmu s) (st + of_nat (4 * k)) i)"
        using m2(3) b that unfolding pk p24 block_ok_def by auto
      show "\<forall>i<4. kmmu s (st + of_nat (4 * k) + of_nat i) \<noteq> None"
        using block_ok_part [OF b, of "4 * k" 4] that by (simp add: block_ok_def)
    qed
    then show ?thesis using m1(2) that by simp
  qed
  moreover have "load32 (kmmu s) m2 (st + 24) = Some (word_of_int (qLeft s))"
    using m2(2) b24 by (intro load32_bytes) (simp add: block_ok_def)
  moreover have "m2 x = memory s x" if "\<forall>i<28. x \<noteq> pa (kmmu s) st i" for x
    using m1(3) m2(3) that by (simp add: p24)
  ultimately show ?thesis using p a m1(1) m2(1) by (intro exI [of _ m2]) (simp add: sys_get_stats_def)
qed

theorem get_stats_reports_witness:
  "\<exists>m. sys_get_stats 1 0x108000 sample = Some (0, sample\<lparr>memory := m\<rparr>) \<and>
    load32 (kmmu sample) m (0x108000 + 24) = Some 4"
proof -
  have "find (\<lambda>i. PID (tasks sample i) = 1) [0..<15] = Some 13" by (simp add: sample_tasks_def task1_struct_def) (simp add: upt_rec)
  from get_stats_reports [OF _ this _ sample_block [of 28]] show ?thesis by (auto simp: access_ok_def)
qed

end
