(* ===== verification/Errno.thy ===== *)
theory Errno
  imports Wrappers
begin

text \<open>
  The error numbers of \<open>include/errno.h\<close>, and their way to the user: a routine of the kernel returns
  the negated number, \<open>CHECK_ERROR\<close> of the wrappers turns it into -1 and the number in \<open>errno\<close>.
\<close>

text \<open>All the macros of the file; an alias has the value of the macro it names.\<close>

definition errno_table :: "(string \<times> int) list" where
  "errno_table =
     [(''EPERM'', 1), (''ENOENT'', 2), (''ESRCH'', 3), (''EINTR'', 4), (''EIO'', 5), (''ENXIO'', 6),
      (''E2BIG'', 7), (''ENOEXEC'', 8), (''EBADF'', 9), (''ECHILD'', 10), (''EAGAIN'', 11),
      (''ENOMEM'', 12), (''EACCES'', 13), (''EFAULT'', 14), (''ENOTBLK'', 15), (''EBUSY'', 16),
      (''EEXIST'', 17), (''EXDEV'', 18), (''ENODEV'', 19), (''ENOTDIR'', 20), (''EISDIR'', 21),
      (''EINVAL'', 22), (''ENFILE'', 23), (''EMFILE'', 24), (''ENOTTY'', 25), (''ETXTBSY'', 26),
      (''EFBIG'', 27), (''ENOSPC'', 28), (''ESPIPE'', 29), (''EROFS'', 30), (''EMLINK'', 31),
      (''EPIPE'', 32), (''EDOM'', 33), (''ERANGE'', 34), (''EDEADLK'', 35), (''ENAMETOOLONG'', 36),
      (''ENOLCK'', 37), (''ENOSYS'', 38), (''ENOTEMPTY'', 39), (''ELOOP'', 40), (''EWOULDBLOCK'', 11),
      (''ENOMSG'', 42), (''EIDRM'', 43), (''ECHRNG'', 44), (''EL2NSYNC'', 45), (''EL3HLT'', 46),
      (''EL3RST'', 47), (''ELNRNG'', 48), (''EUNATCH'', 49), (''ENOCSI'', 50), (''EL2HLT'', 51),
      (''EBADE'', 52), (''EBADR'', 53), (''EXFULL'', 54), (''ENOANO'', 55), (''EBADRQC'', 56),
      (''EBADSLT'', 57), (''EDEADLOCK'', 35), (''EBFONT'', 59), (''ENOSTR'', 60), (''ENODATA'', 61),
      (''ETIME'', 62), (''ENOSR'', 63), (''ENONET'', 64), (''ENOPKG'', 65), (''EREMOTE'', 66),
      (''ENOLINK'', 67), (''EADV'', 68), (''ESRMNT'', 69), (''ECOMM'', 70), (''EPROTO'', 71),
      (''EMULTIHOP'', 72), (''EDOTDOT'', 73), (''EBADMSG'', 74), (''EOVERFLOW'', 75), (''ENOTUNIQ'', 76),
      (''EBADFD'', 77), (''EREMCHG'', 78), (''ELIBACC'', 79), (''ELIBBAD'', 80), (''ELIBSCN'', 81),
      (''ELIBMAX'', 82), (''ELIBEXEC'', 83), (''EILSEQ'', 84), (''ERESTART'', 85), (''ESTRPIPE'', 86),
      (''EUSERS'', 87), (''ENOTSOCK'', 88), (''EDESTADDRREQ'', 89), (''EMSGSIZE'', 90),
      (''EPROTOTYPE'', 91), (''ENOPROTOOPT'', 92), (''EPROTONOSUPPORT'', 93), (''ESOCKTNOSUPPORT'', 94),
      (''EOPNOTSUPP'', 95), (''EPFNOSUPPORT'', 96), (''EAFNOSUPPORT'', 97), (''EADDRINUSE'', 98),
      (''EADDRNOTAVAIL'', 99), (''ENETDOWN'', 100), (''ENETUNREACH'', 101), (''ENETRESET'', 102),
      (''ECONNABORTED'', 103), (''ECONNRESET'', 104), (''ENOBUFS'', 105), (''EISCONN'', 106),
      (''ENOTCONN'', 107), (''ESHUTDOWN'', 108), (''ETOOMANYREFS'', 109), (''ETIMEDOUT'', 110),
      (''ECONNREFUSED'', 111), (''EHOSTDOWN'', 112), (''EHOSTUNREACH'', 113), (''EALREADY'', 114),
      (''EINPROGRESS'', 115), (''ESTALE'', 116), (''EUCLEAN'', 117), (''ENOTNAM'', 118),
      (''ENAVAIL'', 119), (''EISNAM'', 120), (''EREMOTEIO'', 121), (''EDQUOT'', 122), (''ENOMEDIUM'', 123),
      (''EMEDIUMTYPE'', 124), (''ECANCELED'', 125), (''ENOKEY'', 126), (''EKEYEXPIRED'', 127),
      (''EKEYREVOKED'', 128), (''EKEYREJECTED'', 129)]"

lemma errno_range: "\<forall>(n, e) \<in> set errno_table. 0 < e \<and> e < 130"
  by (simp add: errno_table_def)

text \<open>The constants the kernel routines use are those of the table.\<close>

lemma errno_used:
  "map_of errno_table ''EPERM'' = Some EPERM" "map_of errno_table ''ESRCH'' = Some ESRCH"
  "map_of errno_table ''EBADF'' = Some EBADF" "map_of errno_table ''ENOMEM'' = Some ENOMEM"
  "map_of errno_table ''EACCES'' = Some EACCES" "map_of errno_table ''EFAULT'' = Some EFAULT"
  "map_of errno_table ''EBUSY'' = Some EBUSY" "map_of errno_table ''EINVAL'' = Some EINVAL"
  "map_of errno_table ''ENOSYS'' = Some ENOSYS"
  by (simp_all add: errno_table_def)

text \<open>Two names have the same number only when one is an alias of the other.\<close>

lemma errno_distinct:
  "distinct (List.map snd (filter (\<lambda>(n, e). n \<notin> {''EWOULDBLOCK'', ''EDEADLOCK''}) errno_table))"
  by (simp add: errno_table_def)

text \<open>
  Every error number of the table gets to the user: the negated number as the result of the kernel
  gives -1 and the number in \<open>errno\<close>.
\<close>

theorem errno_reaches_user:
  "\<forall>(n, e) \<in> set errno_table. check_error (word_of_int (- e)) old = (- 1, word_of_int e) \<and>
    sint (word_of_int e :: u32) = e"
proof clarify
  fix n e
  assume "(n, e) \<in> set errno_table"
  then have e: "0 < e" "e < 130" using errno_range by auto
  then have "check_error (word_of_int (- e)) old = user_result (- e) old" by (intro check_error_user) simp_all
  moreover have "sint (word_of_int e :: u32) = e" using e by (simp add: sint_sbintrunc' signed_take_bit_int_eq_self)
  ultimately show "check_error (word_of_int (- e)) old = (- 1, word_of_int e) \<and> sint (word_of_int e :: u32) = e"
    using e by (simp add: user_result_def)
qed

end
