(* ===== verification/SystemMain.thy ===== *)
theory SystemMain
  imports Wrappers Descriptors Build Libc
begin

text \<open>
  \<open>main\<close> of \<open>system.c\<close>, from the entry of the kernel to the first instruction of the user program: the
  processor and descriptor tables of \<open>Hardware\<close> and \<open>Descriptors\<close>, the kernel state of \<open>Boot\<close> and the
  console together. The result connects it with the image \<open>build.c\<close> writes: when the boot sector has
  put that image at its place, the processor ends in user mode at the first byte of the user program,
  which is in the pages of process 1, and the kernel is in a state that satisfies its invariant.
\<close>

section \<open>The code\<close>

text \<open>
  \<open>task4\<close> is the address \<open>&task[4]\<close>; \<open>set_handlers\<close> (libzeos.a) and \<open>zeos_init_auxjp\<close>
  (libauxjp.a), which draws on the console, are parameters. \<open>set_pe_flag\<close> is the last line of \<open>init_mm\<close>.
  \<open>return_gate\<close> reads the word after the two lengths, \<open>*p_rdtr\<close>.
\<close>

definition L_USER_START32 :: u32 where [simp]: "L_USER_START32 = of_nat L_USER_START"

definition system_main ::
    "(desc_tables \<Rightarrow> desc_tables) \<Rightarrow> (console \<Rightarrow> console) \<Rightarrow> symbols \<Rightarrow> u32 \<Rightarrow> kstate \<Rightarrow> desc_tables \<Rightarrow> cpu \<Rightarrow>
      (kstate \<times> desc_tables \<times> cpu) option" where
  "system_main set_handlers zeos_init_auxjp y task4 s t c =
     do {
       let c1 = set_eflags c;
       let c2 = set_seg_regs KERNEL_DS KERNEL_DS task4 c1;
       k1 \<leftarrow> printk (con s) (chars ''Kernel Loaded!    '' @ [0]);
       let s1 = s\<lparr>con := k1\<rparr>;
       let (t1, c3) = setGdt y t c2;
       (t2, c4) \<leftarrow> setIdt set_handlers y t1 c3;
       let (t3, c5) = setTSS y t2 c4;
       s2 \<leftarrow> start_kernel s1;
       let c6 = set_pe_flag c5;
       s3 \<leftarrow> load_user_image s2;
       k2 \<leftarrow> printk (con s3) (chars ''Entering user mode...'' @ [0]);
       let s4 = s3\<lparr>con := zeos_init_auxjp k2\<rparr>;
       let c7 = enable_int c6;
       rdtr \<leftarrow> load32 (kmmu s4) (memory s4) (KERNEL_START + 8);
       (m, c8) \<leftarrow> return_gate (kmmu s4) rdtr USER_DS USER_DS USER_ESP USER_CS L_USER_START32 (memory s4) c7;
       Some (s4\<lparr>memory := m\<rparr>, t3, c8)
     }"

section \<open>The address space of process 1\<close>

text \<open>The frame of the user page \<open>i\<close> (8 code pages, then 20 data pages) of directory 1.\<close>

definition user_frame :: "tables \<Rightarrow> nat \<Rightarrow> nat" where
  "user_frame pt i = unat (pte_pbase (pt (1 * 1024 + (256 + i))))"

lemma boot_user_frames:
  assumes "set_user_pages 1024 (init_table_pages (\<lambda>_. 0)) (init_frames (\<lambda>_. 0)) = (pt, pm)"
  shows "i < 28 \<Longrightarrow> pte_present (pt (1 * 1024 + (256 + i))) \<and> 256 \<le> user_frame pt i \<and> user_frame pt i < 1024"
    "i < 28 \<Longrightarrow> j < 28 \<Longrightarrow> user_frame pt i = user_frame pt j \<Longrightarrow> i = j"
proof -
  let ?pm = "init_frames (\<lambda>_. 0)"
  have "28 \<le> card (free_frames ?pm)" by (simp add: free_frames_init card_frame_pool)
  then obtain cl dl where l: "length cl = 8" "length dl = 20" "distinct (cl @ dl)" "set (cl @ dl) \<subseteq> free_frames ?pm"
      "\<forall>i<8. pt (1024 + (256 + i)) = code_entry (of_nat (cl ! i))"
      "\<forall>i<20. pt (1024 + (264 + i)) = mapped_entry (of_nat (dl ! i))"
    using set_user_pages_maps [of ?pm 1024 "init_table_pages (\<lambda>_. 0)"] assms by auto
  have pool: "256 \<le> f \<and> f < 1024" if "f \<in> set (cl @ dl)" for f
  proof -
    have "f \<in> frame_pool" using that l(4) by (auto simp: free_frames_init)
    then show ?thesis by (simp add: frame_pool_def)
  qed
  have fr: "pte_present (pt (1 * 1024 + (256 + i))) \<and> user_frame pt i = (cl @ dl) ! i \<and>
      256 \<le> (cl @ dl) ! i \<and> (cl @ dl) ! i < 1024" if i: "i < 28" for i
  proof -
    have "(cl @ dl) ! i \<in> set (cl @ dl)" using i l(1,2) by (intro nth_mem) simp
    then have p: "256 \<le> (cl @ dl) ! i \<and> (cl @ dl) ! i < 1024" by (rule pool)
    show ?thesis
    proof (cases "i < 8")
      case True
      then have "pt (1 * 1024 + (256 + i)) = code_entry (of_nat ((cl @ dl) ! i))" using l(1,5) by (simp add: nth_append)
      then show ?thesis using p by (simp add: user_frame_def code_entry_def unat_set_pbase unat_of_nat_u32)
    next
      case False
      have "pt (1024 + (264 + (i - 8))) = mapped_entry (of_nat (dl ! (i - 8)))"
        by (rule l(6) [rule_format]) (use i in simp)
      moreover have "264 + (i - 8) = 256 + i" using False by simp
      ultimately have "pt (1 * 1024 + (256 + i)) = mapped_entry (of_nat ((cl @ dl) ! i))"
        using False l(1) by (simp add: nth_append)
      then show ?thesis using p by (simp add: user_frame_def mapped_entry_def unat_set_pbase unat_of_nat_u32)
    qed
  qed
  show "i < 28 \<Longrightarrow> pte_present (pt (1 * 1024 + (256 + i))) \<and> 256 \<le> user_frame pt i \<and> user_frame pt i < 1024"
    using fr by auto
  show "i < 28 \<Longrightarrow> j < 28 \<Longrightarrow> user_frame pt i = user_frame pt j \<Longrightarrow> i = j"
    using fr [of i] fr [of j] l(1-3) by (simp add: nth_eq_iff_index_eq)
qed

text \<open>The addresses of the kernel and of the user program of a state as booted.\<close>

definition booted_space :: "kstate \<Rightarrow> bool" where
  "booted_space s \<longleftrightarrow> table_addr_ok (pagusr_addr s) \<and> cr3 s = Some 1 \<and>
     dir_pages s = init_dir_pages (pagusr_addr s) (\<lambda>_. 0) \<and>
     (\<exists>pm. set_user_pages 1024 (init_table_pages (\<lambda>_. 0)) (init_frames (\<lambda>_. 0)) = (pagusr_table s, pm))"

definition user_byte :: "kstate \<Rightarrow> nat \<Rightarrow> u32" where
  "user_byte s x = faddr (user_frame (pagusr_table s) (x div 4096)) (x mod 4096)"

lemma booted_walk:
  assumes b: "booted_space s" and p: "p < 1024" "k < 4096" "pte_present (pagusr_table s (1 * 1024 + p))"
    "unat (pte_pbase (pagusr_table s (1 * 1024 + p))) = f" "f < 1024"
  shows "kmmu s (of_nat (p * 4096 + k)) = Some (faddr f k)"
proof -
  have "kmmu s va = mmu_walk (pagusr_addr s) (dir_pages s) (pagusr_table s) 1 va" for va
    using b by (simp add: kmmu_def booted_space_def)
  moreover have "dir_pages s (1 * 1024) = dir_entry (pagusr_addr s) 1" "table_addr_ok (pagusr_addr s)"
    using b by (simp_all add: booted_space_def init_dir_pages_apply)
  ultimately show ?thesis using mmu_walk_page [of "pagusr_addr s" 1 "dir_pages s" p k "pagusr_table s" f] p by simp
qed

lemma booted_user:
  assumes b: "booted_space s" and x: "x < 28 * 4096"
  shows "kmmu s (0x100000 + of_nat x) = Some (user_byte s x)"
proof -
  obtain pm where u: "set_user_pages 1024 (init_table_pages (\<lambda>_. 0)) (init_frames (\<lambda>_. 0)) = (pagusr_table s, pm)"
    using b by (auto simp: booted_space_def)
  have p: "x div 4096 < 28" using x by (simp add: less_mult_imp_div_less)
  note f = boot_user_frames(1) [OF u p]
  have "kmmu s (of_nat ((256 + x div 4096) * 4096 + x mod 4096)) = Some (user_byte s x)"
    unfolding user_byte_def using f p by (intro booted_walk [OF b]) (simp_all add: user_frame_def)
  moreover have "(256 + x div 4096) * 4096 + x mod 4096 = 0x100000 + x" by (simp add: distrib_right)
  ultimately show ?thesis by (simp add: add.commute)
qed

lemma user_byte_inj:
  assumes b: "booted_space s" and x: "x < 28 * 4096" "y < 28 * 4096" "user_byte s x = user_byte s y"
  shows "x = y"
proof -
  obtain pm where u: "set_user_pages 1024 (init_table_pages (\<lambda>_. 0)) (init_frames (\<lambda>_. 0)) = (pagusr_table s, pm)"
    using b by (auto simp: booted_space_def)
  have p: "x div 4096 < 28" "y div 4096 < 28" using x by (simp_all add: less_mult_imp_div_less)
  have "user_frame (pagusr_table s) (x div 4096) = user_frame (pagusr_table s) (y div 4096) \<and> x mod 4096 = y mod 4096"
    using faddr_inj [of "user_frame (pagusr_table s) (x div 4096)" "user_frame (pagusr_table s) (y div 4096)" "x mod 4096" "y mod 4096"]
      boot_user_frames(1) [OF u p(1)] boot_user_frames(1) [OF u p(2)] x(3) by (simp add: user_byte_def)
  then have "x div 4096 = y div 4096 \<and> x mod 4096 = y mod 4096" using boot_user_frames(2) [OF u p] by blast
  then show "x = y" by (metis div_mult_mod_eq)
qed

lemma booted_kernel:
  assumes b: "booted_space s" and x: "4096 \<le> x" "x < 0x100000"
  shows "kmmu s (of_nat x) = Some (of_nat x)"
proof -
  obtain pm where u: "set_user_pages 1024 (init_table_pages (\<lambda>_. 0)) (init_frames (\<lambda>_. 0)) = (pagusr_table s, pm)"
    using b by (auto simp: booted_space_def)
  have p: "1 \<le> x div 4096" "x div 4096 < 256" using x by (auto simp: less_mult_imp_div_less)
  have "kmmu s (of_nat (x div 4096 * 4096 + x mod 4096)) = Some (faddr (x div 4096) (x mod 4096))"
    using p boot_page_table(5) [OF u]
    by (intro booted_walk [OF b]) (simp_all add: kernel_entry_def unat_set_pbase unat_of_nat_u32)
  then show ?thesis by (simp only: faddr_def div_mult_mod_eq)
qed

lemma user_byte_above: "booted_space s \<Longrightarrow> x < 28 * 4096 \<Longrightarrow> 0x100000 \<le> unat (user_byte s x)"
proof -
  assume b: "booted_space s" and x: "x < 28 * 4096"
  obtain pm where u: "set_user_pages 1024 (init_table_pages (\<lambda>_. 0)) (init_frames (\<lambda>_. 0)) = (pagusr_table s, pm)"
    using b by (auto simp: booted_space_def)
  have p: "x div 4096 < 28" using x by (simp add: less_mult_imp_div_less)
  show "0x100000 \<le> unat (user_byte s x)"
    using boot_user_frames(1) [OF u p] unat_faddr [of "user_frame (pagusr_table s) (x div 4096)" "x mod 4096"]
    by (simp add: user_byte_def)
qed

section \<open>The image\<close>

text \<open>
  What the boot sector does: everything after its own 512 bytes is in memory from \<open>KERNEL_START\<close> on.
\<close>

definition loaded_at :: "u8 list \<Rightarrow> mem \<Rightarrow> bool" where
  "loaded_at img m \<longleftrightarrow> (\<forall>i<length img - 512. m (of_nat (0x10000 + i)) = img ! (512 + i))"

text \<open>The sizes the kernel and the user pages leave room for; the last user word is for \<open>return_gate\<close>.\<close>

definition image_fits :: "u8 list \<Rightarrow> u8 list \<Rightarrow> bool" where
  "image_fits sys usr \<longleftrightarrow> 12 \<le> length sys \<and> length usr \<le> 28 * 4096 - 4 \<and>
     0x10000 + length sys + length usr \<le> 0x100000"

lemma loaded_dword:
  assumes b: "booted_space s" and l: "loaded_at img (memory s)" and i: "i + 4 \<le> length img - 512" "i < 0xE0000"
  shows "load32 (kmmu s) (memory s) (of_nat (0x10000 + i)) = Some (dword_at img (512 + i))"
proof -
  have t: "load8 (kmmu s) (memory s) (of_nat (0x10000 + j)) = Some (img ! (512 + j))"
    if "j < length img - 512" "j < 0xF0000" for j
    using booted_kernel [OF b, of "0x10000 + j"] l that by (simp add: load8_def loaded_at_def)
  from t [of i] t [of "i + 1"] t [of "i + 2"] t [of "i + 3"] i show ?thesis
    by (simp add: load32_def dword_at_def add.commute add.left_commute)
qed

lemma load_user_image_copies:
  assumes b: "booted_space s" and l: "loaded_at (image_of bt sys usr) (memory s)"
    and bt: "boot_ok bt" and f: "image_fits sys usr"
  shows "\<exists>m. load_user_image s = Some (s\<lparr>memory := m\<rparr>) \<and> (\<forall>i<length usr. m (user_byte s i) = usr ! i) \<and>
    (\<forall>x < 0x100000. m (of_nat x) = memory s (of_nat x))"
proof -
  let ?img = "image_of bt sys usr" and ?p = "of_nat (0x10000 + length sys) :: u32"
  have f': "12 \<le> length sys" "length sys < 2 ^ 24" "length usr < 2 ^ 24" "0x10000 + length sys + length usr \<le> 0x100000"
    "length usr \<le> 28 * 4096" using f by (simp_all add: image_fits_def)
  note img = image_of_fields [OF bt f'(1-3)]
  have sz: "load32 (kmmu s) (memory s) KERNEL_START = Some (of_nat (length sys))"
    "load32 (kmmu s) (memory s) (KERNEL_START + 4) = Some (of_nat (length usr))"
    using loaded_dword [OF b l, of 0] loaded_dword [OF b l, of 4] img(1-3) f'(1) by simp_all
  have src: "kmmu s (?p + of_nat i) = Some (of_nat (0x10000 + length sys + i))" if "i < length usr" for i
    using booted_kernel [OF b, of "0x10000 + length sys + i"] that f'(4) by (simp add: add.assoc)
  have dst: "kmmu s (PH_USER_START + of_nat i) = Some (user_byte s i)" if "i < length usr" for i
    using booted_user [OF b, of i] that f'(5) by simp
  have low: "unat (of_nat x :: u32) = x" if "x < 0x100000" for x using that by (intro unat_of_nat_u32) simp
  have sep: "of_nat x \<noteq> user_byte s i" if x: "x < 0x100000" and i: "i < length usr" for x i
  proof
    assume "of_nat x = user_byte s i"
    then have "unat (of_nat x :: u32) = unat (user_byte s i)" by simp
    then show False using user_byte_above [OF b, of i] low [OF x] x i f'(5) by simp
  qed
  have inj: "user_byte s i \<noteq> user_byte s j" if "i < length usr" "j < length usr" "i \<noteq> j" for i j
    using user_byte_inj [OF b, of i j] that f'(5) by auto
  have "copy_ok (kmmu s) ?p PH_USER_START (length usr)"
    unfolding copy_ok_def pa_def using sep [of "0x10000 + length sys + _"] inj f'(4) by (auto simp: src dst simp del: of_nat_add PH_USER_START_def)
  then have "copy_ok (kmmu s) ?p PH_USER_START (nat (int (length usr)))" by simp
  from copy_data_copied [OF this, of "memory s"] obtain m where
    m: "copy_data (kmmu s) (memory s) ?p PH_USER_START (int (length usr)) = Some m"
    "copied (kmmu s) (memory s) m ?p PH_USER_START (length usr)" by auto
  have "sint (word_of_int (int (length usr)) :: u32) = int (length usr)"
    unfolding sint_sbintrunc' using f'(3) by (intro signed_take_bit_int_eq_self) simp_all
  then have "sint (of_nat (length usr) :: u32) = int (length usr)" by simp
  then have "load_user_image s = Some (s\<lparr>memory := m\<rparr>)"
    using sz m(1) by (simp add: load_user_image_def)
  moreover have "m (user_byte s i) = usr ! i" if i: "i < length usr" for i
  proof -
    have "m (user_byte s i) = memory s (of_nat (0x10000 + length sys + i))"
      using m(2) src [OF i] dst [OF i] i unfolding copied_def pa_def by auto
    also have "\<dots> = ?img ! (512 + (length sys + i))"
      using l [unfolded loaded_at_def, rule_format, of "length sys + i"] i img(1) by (simp add: add.assoc)
    also have "\<dots> = usr ! i" using img(5) [of i] by (simp add: add.assoc)
    finally show ?thesis .
  qed
  moreover have "m (of_nat x) = memory s (of_nat x)" if "x < 0x100000" for x
    using m(2) sep [OF that] dst unfolding copied_def pa_def by auto
  ultimately show ?thesis by blast
qed

section \<open>From the entry of the kernel to the user program\<close>

lemma kernel_inv_con: "kernel_inv s Q \<Longrightarrow> kernel_inv (s\<lparr>con := k\<rparr>) Q"
  by (rule kernel_inv_view [OF _ _ mem_step_updates(3)]) (simp_all add: same_view_def)

lemma booted_space_io [simp]:
  "booted_space (s\<lparr>memory := m\<rparr>) = booted_space s" "booted_space (s\<lparr>con := k\<rparr>) = booted_space s"
  "user_byte (s\<lparr>memory := m\<rparr>) = user_byte s" "user_byte (s\<lparr>con := k\<rparr>) = user_byte s"
  "kmmu (s\<lparr>con := k\<rparr>) = kmmu s"
  by (simp_all add: booted_space_def user_byte_def kmmu_def fun_eq_iff)

lemma start_kernel_boots:
  assumes a: "table_addr_ok a"
  shows "\<exists>s. start_kernel ((reset_state a m clk)\<lparr>con := k\<rparr>) = Some s \<and> booted_space s \<and> memory s = m \<and>
    kernel_inv (enter_by_interrupt s) boot_queues"
proof -
  obtain s where s: "start_kernel ((reset_state a m clk)\<lparr>con := k\<rparr>) = Some s" "kernel_inv (enter_by_interrupt s) boot_queues"
    using boot_kernel_inv [OF a, of k m clk] by blast
  moreover have "booted_space s \<and> memory s = m"
    using start_kernel_runs [OF a, of k m clk] s(1) a by (auto simp: booted_space_def)
  ultimately show ?thesis by blast
qed

lemma return_gate_runs:
  assumes b: "booted_space s"
  shows "\<exists>m. return_gate (kmmu s) rdtr USER_DS USER_DS USER_ESP USER_CS L_USER_START32 (memory s) c =
      Some (m, c\<lparr>seg_es := USER_DS, seg_ds := USER_DS, seg_ss := USER_DS, reg_esp := USER_ESP, seg_cs := USER_CS,
        reg_eip := L_USER_START32\<rparr>) \<and> (\<forall>i < 28 * 4096 - 4. m (user_byte s i) = memory s (user_byte s i))"
proof -
  let ?k = "28 * 4096 - 4"
  have e: "USER_ESP + 12 = 0x100000 + of_nat ?k" by (simp add: USER_ESP_def)
  have k: "kmmu s (USER_ESP + 12 + of_nat i) = Some (user_byte s (?k + i))" if "i < 4" for i
    using booted_user [OF b, of "?k + i"] that unfolding e by (simp add: add.assoc)
  have ne: "user_byte s (?k + i) \<noteq> user_byte s (?k + j)" if "i < 4" "j < 4" "i \<noteq> j" for i j
    using user_byte_inj [OF b, of "?k + i" "?k + j"] that by auto
  have "block_ok (kmmu s) (USER_ESP + 12) 4"
    using ne by (simp add: block_ok_def pa_def k)
  then obtain m where m: "store32 (kmmu s) (memory s) (USER_ESP + 12) rdtr = Some m"
    "\<forall>x. (\<forall>i<4. x \<noteq> pa (kmmu s) (USER_ESP + 12) i) \<longrightarrow> m x = memory s x"
    using store32_bytes by blast
  have "m (user_byte s i) = memory s (user_byte s i)" if "i < ?k" for i
    using m(2) user_byte_inj [OF b, of i "?k + _"] that by (fastforce simp: pa_def k)
  then show ?thesis using m(1) by (simp add: return_gate_def)
qed

text \<open>The first half of \<open>main\<close>: the descriptor tables.\<close>

lemma tables_set_up:
  assumes "only_gates set_handlers" "length (idt t) = 256"
  shows "\<exists>t1 c1 t2 c2 t3 c3. setGdt y t c = (t1, c1) \<and> setIdt set_handlers y t1 c1 = Some (t2, c2) \<and>
    setTSS y t2 c2 = (t3, c3) \<and> idt_entry t3 (idtr c3) 128 = Some (sym_system_call_handler y)"
proof -
  obtain t1 c1 where g: "setGdt y t c = (t1, c1)" "idt t1 = idt t" by (simp add: setGdt_def Let_def)
  obtain t2 c2 where i: "setIdt set_handlers y t1 c1 = Some (t2, c2)"
    "idt_entry t2 (idtr c2) 128 = Some (sym_system_call_handler y)"
    using setIdt_gates [OF assms(1), of t1 y c1] g(2) assms(2) by auto
  obtain t3 c3 where ts: "setTSS y t2 c2 = (t3, c3)" "idt t3 = idt t2" "idtr c3 = idtr c2"
    by (simp add: setTSS_def set_task_reg_def)
  have "idt_entry t3 q v = idt_entry t2 q v" for q v by (simp add: idt_entry_def ts(2))
  then have "idt_entry t3 (idtr c3) 128 = Some (sym_system_call_handler y)" using i(2) ts(3) by (simp only:)
  then show ?thesis using g(1) i(1) ts(1) by blast
qed

text \<open>The second half, from the kernel state on.\<close>

lemma program_loaded:
  assumes b: "booted_space s" and l: "loaded_at (image_of bt sys usr) (memory s)" and bt: "boot_ok bt" and f: "image_fits sys usr"
  shows "\<exists>m rdtr. load_user_image s = Some (s\<lparr>memory := m\<rparr>) \<and> (\<forall>i<length usr. m (user_byte s i) = usr ! i) \<and>
    load32 (kmmu s) m (KERNEL_START + 8) = Some rdtr"
proof -
  obtain m where m: "load_user_image s = Some (s\<lparr>memory := m\<rparr>)" "\<forall>i<length usr. m (user_byte s i) = usr ! i"
    "\<forall>x<0x100000. m (of_nat x) = memory s (of_nat x)"
    using load_user_image_copies [OF b l bt f] by blast
  have f': "12 \<le> length sys" "length sys < 2 ^ 24" "length usr < 2 ^ 24" using f by (simp_all add: image_fits_def)
  note len = image_of_fields(1) [OF bt f']
  have "m (of_nat (0x10000 + i)) = memory s (of_nat (0x10000 + i))" if "i < length sys + length usr" for i
    using m(3) [rule_format, of "0x10000 + i"] f that by (simp add: image_fits_def)
  then have "loaded_at (image_of bt sys usr) m" using l len by (simp add: loaded_at_def)
  then have "load32 (kmmu s) m (KERNEL_START + 8) = Some (dword_at (image_of bt sys usr) 520)"
    using loaded_dword [of "s\<lparr>memory := m\<rparr>" "image_of bt sys usr" 8] b len f'(1) by simp
  then show ?thesis using m by blast
qed

text \<open>
  C4. When the boot sector has put an image written by build.c in memory, main of system.c
  succeeds and leaves the processor in user mode at the first address of the user program with
  interrupts and paging on and int 0x80 going to the system call handler; every byte of the
  program is in the pages of process 1, and the first entry to the kernel finds its invariant.
\<close>

theorem boot_runs_user_program:
  assumes a: "table_addr_ok a" and bt: "boot_ok bt" and f: "image_fits sys usr"
    and l: "loaded_at (image_of bt sys usr) m" and h: "only_gates set_handlers" "length (idt t) = 256"
  shows "\<exists>s' t' c'. system_main set_handlers aux y task4 (reset_state a m clk) t c = Some (s', t', c') \<and>
    selector_rpl (seg_cs c') = 3 \<and> selector_rpl (seg_ss c') = 3 \<and> reg_eip c' = 0x100000 \<and> reg_esp c' = USER_ESP \<and>
    interrupts_on c' \<and> bit (cr0 c') 31 \<and>
    idt_entry t' (idtr c') 128 = Some (sym_system_call_handler y) \<and>
    (\<forall>i<length usr. load8 (kmmu s') (memory s') (0x100000 + of_nat i) = Some (usr ! i)) \<and>
    kernel_inv (enter_by_interrupt s') boot_queues"
proof -
  let ?k1 = "foldl printc console_init (chars ''Kernel Loaded!    '')"
  have z: "0 \<notin> set (chars ''Kernel Loaded!    '')" "0 \<notin> set (chars ''Entering user mode...'')"
    by (simp_all add: chars_def)
  have k1: "printk (con (reset_state a m clk)) (chars ''Kernel Loaded!    '' @ [0]) = Some ?k1"
    using printk_foldl [OF z(1), of console_init "[]"] by (simp add: reset_state_def)
  let ?c2 = "set_seg_regs KERNEL_DS KERNEL_DS task4 (set_eflags c)"
  obtain t1 c3 t2 c4 t3 c5 where t: "setGdt y t ?c2 = (t1, c3)" "setIdt set_handlers y t1 c3 = Some (t2, c4)"
    "setTSS y t2 c4 = (t3, c5)" "idt_entry t3 (idtr c5) 128 = Some (sym_system_call_handler y)"
    using tables_set_up [OF h, of y ?c2] by blast
  obtain s2 where s2: "start_kernel ((reset_state a m clk)\<lparr>con := ?k1\<rparr>) = Some s2" "booted_space s2" "memory s2 = m"
    "kernel_inv (enter_by_interrupt s2) boot_queues"
    using start_kernel_boots [OF a] by blast
  obtain m3 rdtr where s3: "load_user_image s2 = Some (s2\<lparr>memory := m3\<rparr>)" "\<forall>i<length usr. m3 (user_byte s2 i) = usr ! i"
    "load32 (kmmu s2) m3 (KERNEL_START + 8) = Some rdtr"
    using program_loaded [OF s2(2) _ bt f] l s2(3) by blast
  let ?k2 = "foldl printc (con s2) (chars ''Entering user mode...'')"
  have k2: "printk (con (s2\<lparr>memory := m3\<rparr>)) (chars ''Entering user mode...'' @ [0]) = Some ?k2"
    using printk_foldl [OF z(2), of "con s2" "[]"] by simp
  let ?s4 = "s2\<lparr>memory := m3, con := aux ?k2\<rparr>"
  have b4: "booted_space ?s4" "user_byte ?s4 = user_byte s2" using s2(2) by simp_all
  have r: "load32 (kmmu ?s4) (memory ?s4) (KERNEL_START + 8) = Some rdtr" using s3(3) by simp
  let ?c7 = "enable_int (set_pe_flag c5)"
  let ?c8 = "?c7\<lparr>seg_es := USER_DS, seg_ds := USER_DS, seg_ss := USER_DS, reg_esp := USER_ESP, seg_cs := USER_CS,
        reg_eip := L_USER_START32\<rparr>"
  obtain m5 where m5: "return_gate (kmmu ?s4) rdtr USER_DS USER_DS USER_ESP USER_CS L_USER_START32 (memory ?s4) ?c7 = Some (m5, ?c8)"
    "\<forall>i < 28 * 4096 - 4. m5 (user_byte ?s4 i) = memory ?s4 (user_byte ?s4 i)"
    using return_gate_runs [OF b4(1), of rdtr ?c7] by blast
  let ?s5 = "?s4\<lparr>memory := m5\<rparr>"
  have run: "system_main set_handlers aux y task4 (reset_state a m clk) t c = Some (?s5, t3, ?c8)"
    using k1 t(1-3) s2(1) s3(1) k2 r m5(1) unfolding system_main_def Let_def by simp
  have cpu: "selector_rpl (seg_cs ?c8) = 3" "selector_rpl (seg_ss ?c8) = 3" "reg_eip ?c8 = 0x100000"
    "reg_esp ?c8 = USER_ESP" "interrupts_on ?c8" "bit (cr0 ?c8) 31"
    by (simp_all add: selector_rpl_def interrupts_on_def enable_int_def set_pe_flag_def bit_simps)
  have "idtr ?c8 = idtr c5" by (simp add: enable_int_def set_pe_flag_def)
  then have idt: "idt_entry t3 (idtr ?c8) 128 = Some (sym_system_call_handler y)" using t(4) by (simp only:)
  have bytes: "load8 (kmmu ?s5) (memory ?s5) (0x100000 + of_nat x) = Some (usr ! x)" if x: "x < length usr" for x
    using booted_user [of ?s5 x] b4 m5(2) s3(2) x f by (simp add: load8_def image_fits_def)
  have "enter_by_interrupt ?s5 = (enter_by_interrupt s2)\<lparr>memory := m3, con := aux ?k2, memory := m5\<rparr>"
    by (rule kstate.equality) (simp_all add: enter_by_interrupt_def)
  then have "kernel_inv (enter_by_interrupt ?s5) boot_queues"
    using kernel_inv_memory [OF kernel_inv_con [OF kernel_inv_memory [OF s2(4), of m3], of "aux ?k2"], of m5]
    by (simp only:)
  then show ?thesis using run cpu idt bytes by blast
qed

text \<open>An image of 20 bytes of system and 7 of program.\<close>

theorem boot_runs_user_program_witness:
  "\<exists>m s' t' c'. system_main (\<lambda>t. t) (\<lambda>k. k) sample_symbols 0x20000 (reset_state 0x20000 m (\<lambda>_. 0)) zero_tables zero_cpu =
      Some (s', t', c') \<and> reg_eip c' = 0x100000 \<and> load8 (kmmu s') (memory s') (0x100000 + 3) = Some 2"
proof -
  let ?b = "replicate 510 0 @ [0x55, 0xaa]" and ?sys = "replicate 20 1 :: u8 list" and ?usr = "replicate 7 2 :: u8 list"
  let ?img = "image_of ?b ?sys ?usr"
  let ?m = "\<lambda>x. ?img ! (512 + (unat x - 0x10000))"
  have b: "boot_ok ?b" by (simp add: boot_ok_def nth_append)
  have f: "image_fits ?sys ?usr" by (simp add: image_fits_def)
  have "length ?img = 539" using image_of_fields(1) [OF b, of ?sys ?usr] by simp
  moreover have "unat (of_nat (0x10000 + i) :: u32) = 0x10000 + i" if "i < 27" for i
    using that by (intro unat_of_nat_u32) simp
  ultimately have l: "loaded_at ?img ?m" by (simp add: loaded_at_def)
  have h: "only_gates (\<lambda>t. t)" "length (idt zero_tables) = 256" by (simp_all add: only_gates_def zero_tables_def)
  obtain s' t' c' where r: "system_main (\<lambda>t. t) (\<lambda>k. k) sample_symbols 0x20000 (reset_state 0x20000 ?m (\<lambda>_. 0)) zero_tables zero_cpu =
      Some (s', t', c')" "reg_eip c' = 0x100000"
    "\<forall>i<length ?usr. load8 (kmmu s') (memory s') (0x100000 + of_nat i) = Some (?usr ! i)"
    using boot_runs_user_program [OF sample_table_addr b f l h, of "\<lambda>k. k" sample_symbols "0x20000" "\<lambda>_. 0" zero_cpu] by blast
  have "load8 (kmmu s') (memory s') (0x100000 + 3) = Some 2" using r(3) [rule_format, of 3] by simp
  then show ?thesis using r(1,2) by blast
qed

end
