(* ===== verification/Spec2Isabelle.thy ===== *)
theory Spec2Isabelle
  imports Prelude ListHead ListIter CirBuffer MemCopy Console Paging KState Sched Semaphores Process IOCalls
    Sbrk Boot Sample Invariants MemFrame Isolation Kernel StepInv Hardware Descriptors Build Libc
    UserProg Entry Wrappers Errno SystemMain
begin

text \<open>
  A verification development for so2FIB, the teaching kernel ZeOS: a 32-bit x86 kernel with paging, a
  round-robin scheduler, processes and clones that share their memory, semaphores, a keyboard and a
  console, a small user library, and the host tool that builds the disk image.

  \<^bold>\<open>How the parts interact.\<close> \<open>build.c\<close> joins boot sector, system and user program. The boot sector
  loads the image and jumps to \<open>main\<close> (\<open>system.c\<close>), which fills the descriptor tables (\<open>mm.c\<close>,
  \<open>interrupt.c\<close>), the page tables (\<open>mm.c\<close>) and the scheduler (\<open>sched.c\<close>), copies the user program to
  the pages of process 1 and enters it. From then on the kernel runs when an interrupt or a system
  call enters it (\<open>entry.S\<close>): the handler saves the registers in the kernel stack of the running process,
  charges the time (\<open>statsEntrySys\<close>), calls the routine (\<open>interrupt.c\<close>, \<open>sys.c\<close>, \<open>devices.c\<close>), and gives
  the registers back, unless the routine has switched to another process (\<open>sched.c\<close>). All queues are the
  lists of \<open>list.c\<close>.

  \<^bold>\<open>Theories.\<close>
  \<^item> \<open>Prelude\<close>: machine types, C \<open>int\<close> arithmetic (\<open>i32\<close>), error numbers and size constants.
  \<^item> \<open>ListHead\<close> (\<open>list.c\<close>, \<open>include/list.h\<close>): lists on a heap of links; the locale \<open>link_queues\<close>.
    \<open>ListIter\<close>: the traversal macros of the header, which the kernel does not use.
  \<^item> \<open>CirBuffer\<close> (\<open>cirBuffer.c\<close>), \<open>MemCopy\<close> (\<open>utils.c\<close>), \<open>Console\<close> (\<open>io.c\<close>, \<open>devices.c\<close>; the locale
    \<open>byte_sink\<close>), \<open>Paging\<close> (\<open>mm.c\<close>; the locale \<open>frame_allocator\<close>), \<open>Libc\<close> (\<open>libc.c\<close>), \<open>Build\<close> (\<open>build.c\<close>),
    \<open>Hardware\<close> (\<open>hardware.c\<close>, \<open>include/types.h\<close>), \<open>Descriptors\<close> (\<open>setGdt\<close>, \<open>setTSS\<close>, \<open>setIdt\<close>): each
    component alone.
  \<^item> \<open>KState\<close>: the record \<open>kstate\<close>, all variables of the kernel, with the accessors. One C global is one
    field; a pointer to a task is its index, \<open>cur\<close> is the task whose stack \<open>esp\<close> is in (\<open>current()\<close>).
  \<^item> \<open>Sched\<close> (\<open>sched.c\<close>), \<open>Semaphores\<close>, \<open>Process\<close>, \<open>IOCalls\<close>, \<open>Sbrk\<close> (\<open>sys.c\<close>, \<open>devices.c\<close>,
    \<open>interrupt.c\<close>), \<open>Boot\<close> (\<open>system.c\<close>, \<open>mm.c\<close>, \<open>sched.c\<close>): the operations on that state.
  \<^item> \<open>Invariants\<close>, \<open>MemFrame\<close>, \<open>Isolation\<close>, \<open>Kernel\<close>: the invariant of the whole kernel and the kernel as a
    transition system. \<open>StepInv\<close>: invariants of values, the quanta and the accounts of
    the processes, carried through every step by the locale \<open>step_invariant\<close>. \<open>Sample\<close> is a concrete state on which the properties are shown to have instances.
  \<^item> \<open>Entry\<close> (\<open>entry.S\<close>, \<open>sys_call_table.S\<close>) and \<open>Wrappers\<close> (\<open>wrappers.S\<close>): from the user's call to its
    return; \<open>Errno\<close> (\<open>include/errno.h\<close>): the error numbers on that way. \<open>SystemMain\<close>: \<open>main\<close> from the loaded
    image to the user program.
  \<^item> \<open>UserProg\<close> (\<open>user.c\<close>): the calls the user program makes, as a tree that branches on their results.

  \<^bold>\<open>Conventions.\<close> A fault (NULL, an index outside an array, a page that is not mapped) is \<^term>\<open>None\<close>. A
  routine that may give the processor away returns an \<open>outcome\<close>: \<open>Ret\<close> with the result, or \<open>Switched\<close>; the
  rest of a suspended routine is its continuation (\<open>kcont\<close> in \<open>KState\<close>), and what it does when it runs
  again is a definition of its own (\<open>sys_sem_wait_resume\<close>, \<open>read_keyboard_body\<close>, \<open>system_call_end\<close>,
  \<open>interrupt_end\<close>). Memory is physical bytes, reached through the page tables in force (\<open>kmmu\<close>).

  \<^bold>\<open>What the lemmas show.\<close> The abstract state of the scheduler is the function \<open>Q\<close> from list heads to lists
  of tasks, and \<open>kinv s Q\<close> says that the pointers of \<open>s\<close> represent it and that the process states agree
  with it; that of the semaphores is a table of counters and queues. The routines of \<open>Sched\<close> and
  \<open>Semaphores\<close> refine the operations on these. \<open>keeps\<close> (\<open>Invariants\<close>) and \<open>mem_step\<close> (\<open>MemFrame\<close>) give,
  for each routine, the invariants it keeps and the memory management state it does not touch;
  \<open>kernel_inv\<close> (\<open>Isolation\<close>) joins them with the page tables, the process numbers and the breaks, and
  \<open>Kernel\<close> lifts it to every state reachable from the start. \<open>Entry\<close> adds the saved registers: they survive
  everything the machine does while their process is suspended, calls other than those with faults of
  their own always come to an end, and \<open>fork\<close> returns once in the parent and once in the child.

  \<^bold>\<open>Bounds.\<close> There is no fuel: the loops of the source are recursions with a termination proof, but for
  \<open>unblock_all\<close>, which does not end on a malformed queue and is a \<open>partial_function\<close>, shown to end under the
  invariant. \<open>sys_sbrk\<close> indexes the page tables as C does, over the end of one table into the next; the
  entry after the last table is outside \<open>pagusr_table\<close>, and reading or writing it is a fault (\<open>sbrk_past_table\<close> says
  when that happens).

  \<^bold>\<open>Hypotheses on what is not under src.\<close> \<open>table_addr_ok\<close>: the linker aligns \<open>pagusr_table\<close> to a page and its
  tables do not wrap around the end of memory. \<open>only_gates\<close>: \<open>set_handlers\<close> of \<open>libzeos.a\<close> writes gates only. \<open>zeos_show_clock\<close> and
  \<open>zeos_init_auxjp\<close> draw on the console. The flags the compiled kernel leaves at \<open>sysexit\<close>, which nothing restores,
  are the parameter \<open>kflags\<close>. The time-stamp counter is an arbitrary sequence; \<open>accounts_add_up\<close>
  assumes of it that the two reads of one charge fall in the same tick (\<open>reads_agree\<close>).

  \<^bold>\<open>Not modelled.\<close> \<open>bootsect.S\<close> (16-bit code; its result is the hypothesis \<open>loaded_at\<close>), the archives \<open>libzeos.a\<close>
  and \<open>libauxjp.a\<close> (no source), the TLB, and the headers' prototypes. \<open>sys_exit\<close> is modelled, but it is not
  a step of the transition system: it puts its descriptor into \<open>freequeue\<close> twice, after which no
  invariant of the queues holds (\<open>exit_breaks_free_queue\<close>).
\<close>

section \<open>Scheduling\<close>

text \<open>
  C11. One clock tick: the remaining quantum is decremented; when it is used up and some process
  is ready, the running process goes to the end of the ready queue and the first ready process
  runs; otherwise the running process goes on (with a new quantum when it was used up). Nothing
  but the queues, the processor and the accounts changes.
\<close>

theorem schedule_round_robin:
  assumes "kinv s Q" "quanta_ok s Q"
  shows "\<exists>s'. schedule s = Some s' \<and> sched_frame s s' \<and>
    qLeft s' = (if qLeft s = 1 then quantum (tasks s (cur s)) else qLeft s - 1) \<and>
    (if qLeft s = 1 \<and> Q ReadyQ \<noteq> []
     then cur s' = hd (Q ReadyQ) \<and> kinv s' (Q(ReadyQ := tl (Q ReadyQ) @ [cur s]))
     else cur s' = cur s \<and> kinv s' Q)"
proof -
  have l: "1 \<le> qLeft s" "qLeft s < 2 ^ 31" using assms(2) by (simp_all add: quanta_ok_def)
  consider "1 < qLeft s" | "qLeft s = 1" "Q ReadyQ = []" | t ts where "qLeft s = 1" "Q ReadyQ = t # ts"
    using l(1) by (cases "Q ReadyQ") fastforce+
  then show ?thesis
  proof cases
    case 1
    then show ?thesis using schedule_runs_on [OF 1 l(2)] assms(1) by (simp add: sched_frame_qLeft)
  next
    case 2
    then show ?thesis using schedule_renews [OF assms(1) 2] by auto
  next
    case 3
    then show ?thesis using schedule_rotates [OF assms(1) 3] by auto
  qed
qed

theorem schedule_round_robin_witness:
  "\<exists>s'. schedule (sample\<lparr>qLeft := 1\<rparr>) = Some s' \<and> cur s' = 1 \<and> qLeft s' = 15"
proof -
  have "quanta_ok (sample\<lparr>qLeft := 1\<rparr>) sample_queues"
    using sample_quanta_ok by (simp add: quanta_ok_def active_def heads_def)
  then show ?thesis using schedule_round_robin [of "sample\<lparr>qLeft := 1\<rparr>" sample_queues] sample_kinv by auto
qed

text \<open>
  C10. No starvation: the process at position j of the ready queue gets the processor after
  exactly the ticks left to the running process plus, for each process before it in the queue,
  one quantum, and the queues then hold the rotation the round-robin policy prescribes. The
  quantum a process runs for is that of the process that ran before it, since sched_next_rr sets
  qLeft while current() is still the old process.
\<close>

theorem ready_process_runs:
  assumes "kinv s Q" "quanta_ok s Q" "j < length (Q ReadyQ)"
  shows "\<exists>s'. sched_ticks (turn_start s (Q ReadyQ) j) s = Some s' \<and> cur s' = Q ReadyQ ! j \<and>
    kinv s' (Q(ReadyQ := drop (Suc j) (Q ReadyQ) @ take (Suc j) (cur s # Q ReadyQ))) \<and> sched_frame s s'"
proof -
  have "\<forall>t\<in>set (cur s # Q ReadyQ). 1 \<le> quantum (tasks s t) \<and> quantum (tasks s t) < 2 ^ 31"
    using assms(2) by (fastforce simp: quanta_ok_def active_def)
  then show ?thesis using ready_turn [OF assms(1) _ _ _ assms(3)] assms(2) by (auto simp: quanta_ok_def)
qed

theorem ready_process_runs_witness:
  "\<exists>s'. sched_ticks 19 sample = Some s' \<and> cur s' = 2"
  using ready_process_runs [OF sample_kinv sample_quanta_ok, of 1] by (auto simp: turn_start_def)

text \<open>
  C13. sys_sem_signal does what the abstract signal does: with nobody waiting the counter grows
  by one, otherwise exactly the process that has waited longest goes to the end of the ready
  queue.
\<close>

theorem sem_signal_refines:
  assumes "kinv s Q" "sem_inv s Q" "abs_signal n (sem_table s Q) = (r, T, woken)"
  shows "\<exists>s' Q'. sys_sem_signal n s = Some (r, s') \<and> kinv s' Q' \<and> sem_inv s' Q' \<and> sem_table s' Q' = T \<and>
    Q' ReadyQ = Q ReadyQ @ woken \<and> cur s' = cur s"
  using sys_sem_signal_refines [OF assms] .

lemma sample_sem_table: "sem_table sample sample_queues n = (if n = 7 then Some (1, 0, [5, 6]) else None)"
  by (simp add: sem_table_def sample_find_sem)

theorem sem_signal_refines_witness:
  "\<exists>s' Q'. sys_sem_signal 7 sample = Some (0, s') \<and> sem_table s' Q' 7 = Some (1, 0, [6]) \<and>
    Q' ReadyQ = [1, 2, 5]"
proof -
  have "abs_signal 7 (sem_table sample sample_queues) = (0, (sem_table sample sample_queues)(7 \<mapsto> (1, 0, [6])), [5])"
    by (simp add: abs_signal_def sample_sem_table)
  from sem_signal_refines [OF sample_kinv sample_sem_inv this]
  show ?thesis by (elim ex_forward) simp
qed

text \<open>
  C12. sys_sem_wait does on the table of semaphores what the abstract wait does: an unknown
  identifier gives -EINVAL, a positive counter is decremented, and otherwise the caller is put
  at the end of the waiting queue and the next ready process runs; the scheduler and semaphore
  invariants are kept.
\<close>

theorem sem_wait_refines:
  assumes "kinv s Q" "sem_inv s Q" "idle_task s \<noteq> Some (cur s)"
    and "abs_wait (cur s) n (sem_table s Q) = (r, T)"
  shows "\<exists>s' Q'. sys_sem_wait n s = Some (case r of Some x \<Rightarrow> Ret x | None \<Rightarrow> Switched, s') \<and>
    kinv s' Q' \<and> sem_inv s' Q' \<and> sem_table s' Q' = T \<and>
    cur s' = (case r of Some x \<Rightarrow> cur s | None \<Rightarrow> next_task s Q)"
  using sys_sem_wait_refines [OF assms] .

theorem sem_wait_refines_witness:
  "\<exists>s' Q'. sys_sem_wait 7 sample = Some (Switched, s') \<and> sem_table s' Q' 7 = Some (1, 0, [5, 6, 13]) \<and>
    cur s' = 1"
proof -
  have a: "abs_wait (cur sample) 7 (sem_table sample sample_queues) =
      (None, (sem_table sample sample_queues)(7 \<mapsto> (1, 0, [5, 6, 13])))"
    by (simp add: abs_wait_def sample_sem_table)
  have i: "idle_task sample \<noteq> Some (cur sample)" by simp
  from sem_wait_refines [OF sample_kinv sample_sem_inv i a]
  show ?thesis by (elim ex_forward) (simp add: next_task_def)
qed

text \<open>
  C15. sys_sem_init, while a place of the table is free, does what the abstract creation does: a
  used identifier gives -EBUSY, a new one gets the given counter, the caller as owner and an
  empty queue.
\<close>

theorem sem_init_refines:
  assumes "kinv s Q" "sem_inv s Q" "find_free s \<noteq> None"
    and "abs_init (PID (tasks s (cur s))) n v (sem_table s Q) = (r, T)"
  shows "\<exists>s' Q'. sys_sem_init n v s = Some (r, s') \<and> kinv s' Q' \<and> sem_inv s' Q' \<and> sem_table s' Q' = T"
  using sys_sem_init_refines [OF assms] by blast

theorem sem_init_refines_witness:
  "\<exists>s' Q'. sys_sem_init 3 2 sample = Some (0, s') \<and> sem_table s' Q' 3 = Some (1, 2, [])"
proof -
  have a: "abs_init (PID (tasks sample (cur sample))) 3 2 (sem_table sample sample_queues) =
      (0, (sem_table sample sample_queues)(3 \<mapsto> (1, 2, [])))"
    by (simp add: abs_init_def sample_sem_table i32_id int_range_def)
  have f: "find_free sample \<noteq> None" by (simp add: sample_find_free)
  from sem_init_refines [OF sample_kinv sample_sem_inv f a]
  show ?thesis by (elim ex_forward) simp
qed

text \<open>
  C14. sys_sem_destroy does what the abstract destroy does: only the owner may destroy; all
  waiting processes become ready in order, and their pending wait returns -1, everyone else
  keeps its result.
\<close>

theorem sem_destroy_refines:
  assumes "kinv s Q" "sem_inv s Q"
    and "abs_destroy (PID (tasks s (cur s))) n (sem_table s Q) = (r, T, woken)"
  shows "\<exists>s' Q'. sys_sem_destroy n s = Some (r, s') \<and> kinv s' Q' \<and> sem_inv s' Q' \<and> sem_table s' Q' = T \<and>
    Q' ReadyQ = Q ReadyQ @ woken \<and>
    (\<forall>t. sem_ret (tasks s' t) = (if t \<in> set woken then - 1 else sem_ret (tasks s t)))"
  using sys_sem_destroy_refines [OF assms] by blast

theorem sem_destroy_refines_witness:
  "\<exists>s' Q'. sys_sem_destroy 7 sample = Some (0, s') \<and> sem_table s' Q' 7 = None \<and>
    Q' ReadyQ = [1, 2, 5, 6] \<and> sem_ret (tasks s' 5) = - 1 \<and> sem_ret (tasks s' 1) = 0"
proof -
  have "abs_destroy (PID (tasks sample (cur sample))) 7 (sem_table sample sample_queues) =
      (0, (sem_table sample sample_queues)(7 := None), [5, 6])"
    by (simp add: abs_destroy_def sample_sem_table)
  from sem_destroy_refines [OF sample_kinv sample_sem_inv this]
  show ?thesis by (elim ex_forward) simp
qed

text \<open>
  With all twenty semaphores in use and a new identifier, sys_sem_init does not report an
  error: it uses index -1 of the array (the model has no result).
\<close>

theorem sem_init_overruns:
  assumes "find_free s = None" "find_sem s n = None"
  shows "sys_sem_init n v s = None"
  using sys_sem_init_full [OF assms(2,1)] .

theorem sem_init_overruns_witness:
  "sys_sem_init 20 1 (sample\<lparr>semaphores := \<lambda>i. \<lparr>sem_state = USED_SEM, n_sem = int i, owner = 1, counter = 0\<rparr>\<rparr>) = None"
  by (rule sem_init_overruns) (simp_all add: find_free_None find_sem_None)

section \<open>Processes\<close>

text \<open>
  C23. With a free descriptor, a free directory and 20 free frames, sys_fork returns the new
  PID, the child is ready with the copied descriptor and the stack that returns 0, every byte of
  its data pages reads as in the parent, the bytes of the parent are unchanged, and no data
  frame is shared.
\<close>

theorem fork_copies_process:
  assumes k: "kinv s Q" and t: "Q FreeQ = t # ts" and d: "d0 < 15" "refs_DIR s d0 = 0"
    and a: "aspace_ok dp s" and fr: "20 \<le> card (free_frames (phys_mem s))"
  shows "\<exists>s' dn. sys_fork ebp s = Some (incrementalPID s, s') \<and> kinv s' (spawned t Q) \<and>
    dn < 15 \<and> refs_DIR s dn = 0 \<and> refs_DIR s' = (refs_DIR s)(dn := 1) \<and>
    tasks s' = (tasks s)(t := fork_child ebp s dn) \<and> kstack s' t = fork_stack ebp s \<and>
    (\<forall>i<20. \<forall>k<4096. data_byte s' dn i k = data_byte s dp i k \<and> data_byte s' dp i k = data_byte s dp i k \<and>
       data_byte s dp i k \<noteq> None) \<and>
    (\<forall>i<20. \<forall>j<20. data_frame (pagusr_table s') dn i \<noteq> data_frame (pagusr_table s') dp j)"
proof -
  obtain dn where dn: "dn < 15" "refs_DIR s dn = 0" "\<forall>k<dn. refs_DIR s k \<noteq> 0"
    using first_unused_directory [of d0 s] d by blast
  obtain fl pm where fl: "fa.take_frames 20 (phys_mem s) = (Some fl, pm)"
    using fa.take_frames_enough [OF finite_free_frames fr] by blast
  obtain s' where s': "sys_fork ebp s = Some (incrementalPID s, s')" "kinv s' (spawned t Q)"
      "tasks s' = (tasks s)(t := fork_child ebp s dn)" "kstack s' t = fork_stack ebp s"
      "refs_DIR s' = (refs_DIR s)(dn := 1)"
    and c: "frames_copied (data_frame (pagusr_table s) dp) fl (memory s) (memory s')"
      "\<forall>i<20. pagusr_table s' (dn * 1024 + (264 + i)) = mapped_entry (of_nat (fl ! i))"
      "\<forall>p<284. pagusr_table s' (dp * 1024 + p) = pagusr_table s (dp * 1024 + p)"
      "dir_pages s' = dir_pages s" "pagusr_addr s' = pagusr_addr s"
    using sys_fork_runs [OF k t dn a fl, of ebp] by blast
  show ?thesis using s' dn(1,2) fork_pages [OF a dn(1) fl c] by (intro exI [of _ s'] exI [of _ dn]) simp
qed

theorem fork_copies_process_witness:
  "\<exists>s'. sys_fork 1006 sample = Some (6, s') \<and> kinv s' (spawned 3 sample_queues) \<and>
    estado (tasks s' 3) = ST_READY \<and> kstack s' 3 1006 = Code Ret_from_fork"
proof -
  have "20 \<le> card (free_frames (phys_mem sample))" using sample_pages(4) by simp
  from fork_copies_process [OF sample_kinv _ _ _ sample_aspace this, of 3 "[4]" 2 1006]
  obtain s' dn where "sys_fork 1006 sample = Some (6, s')" "kinv s' (spawned 3 sample_queues)"
    "tasks s' = (tasks sample)(3 := fork_child 1006 sample dn)" "kstack s' 3 = fork_stack 1006 sample" by auto
  then show ?thesis by (intro exI [of _ s']) (simp add: fork_child_def fork_stack_def)
qed

text \<open>
  C24. With fewer than 20 free frames sys_fork returns -ENOMEM and gives back every frame it
  took but 256, the frame free_frame refuses: all others that were free are free again. The
  descriptor is gone from the free queue and the directory stays in use by nobody.
\<close>

theorem fork_without_frames:
  assumes "kinv s Q" "Q FreeQ = t # ts" "dn < 15" "refs_DIR s dn = 0" "\<forall>k<dn. refs_DIR s k \<noteq> 0"
    and "aspace_ok dp s" "card (free_frames (phys_mem s)) < 20"
  shows "\<exists>s'. sys_fork ebp s = Some (- ENOMEM, s') \<and> refs_DIR s' = (refs_DIR s)(dn := 1) \<and>
    kinv s' (Q(FreeQ := ts)) \<and> free_frames (phys_mem s') = free_frames (phys_mem s) - {256}"
proof -
  let ?s = "\<lambda>h m pt pm. (fork_start t dn dp h s)\<lparr>phys_mem := pm, memory := m, pagusr_table := pt\<rparr>"
  obtain h m pt pm where r: "sys_fork ebp s = Some (- ENOMEM, ?s h m pt pm)"
    "lq.family h (tlists (Q(FreeQ := ts))) (heads s)" "free_frames pm = free_frames (phys_mem s) - {256}"
    using sys_fork_no_frames [OF assms] by blast
  have "kinv (?s h m pt pm) (Q(FreeQ := ts))"
    by (rule kinv_lost [OF assms(1,2) r(2)]) simp_all
  then show ?thesis using r(1,3) by (intro exI [of _ "?s h m pt pm"]) simp
qed

theorem fork_without_frames_witness:
  "\<exists>s'. sys_fork 1006 (sample\<lparr>phys_mem := \<lambda>_. USED_FRAME\<rparr>) = Some (- ENOMEM, s') \<and> refs_DIR s' 2 = 1 \<and>
    kinv s' (sample_queues(FreeQ := [4]))"
proof -
  let ?s = "sample\<lparr>phys_mem := \<lambda>_. USED_FRAME\<rparr>"
  have "kinv ?s sample_queues" using sample_kinv by (subst kinv_cong [of _ sample]) simp_all
  moreover have f: "free_frames (\<lambda>_. 1) = {}" by (simp add: free_frames_def)
  moreover have "aspace_ok 1 ?s" using sample_aspace by (simp add: aspace_ok_def f)
  moreover have "\<forall>k<2. refs_DIR ?s k \<noteq> 0" by (auto simp: less_2_cases_iff)
  ultimately show ?thesis using fork_without_frames [of ?s sample_queues 3 "[4]" 2 1 1006] by auto
qed

text \<open>
  C25. sys_clone makes a ready process with the directory of its creator, whose reference count
  grows by one, that starts at the given function with the given stack; no page table entry and
  no byte of memory changes.
\<close>

theorem clone_shares_memory:
  assumes "kinv s Q" "Q FreeQ = t # ts"
    and "access_ok VERIFY_WRITE stack 4 \<noteq> 0" "access_ok VERIFY_READ function_addr 4 \<noteq> 0"
    and "int_range (refs_DIR s (n_directorio (tasks s (cur s))) + 1)"
  shows "\<exists>s'. sys_clone ebp function_addr stack s = Some (incrementalPID s, s') \<and> kinv s' (spawned t Q) \<and>
    tasks s' = (tasks s)(t := clone_child ebp s) \<and> get_DIR s' t = get_DIR s (cur s) \<and>
    refs_DIR s' = (refs_DIR s)(n_directorio (tasks s (cur s)) := refs_DIR s (n_directorio (tasks s (cur s))) + 1) \<and>
    kstack s' t = (kstack s (cur s))(1022 := Data stack, 1019 := Data function_addr) \<and>
    pagusr_table s' = pagusr_table s \<and> memory s' = memory s"
proof -
  obtain h where h: "sys_clone ebp function_addr stack s =
      Some (incrementalPID s, clone_state ebp function_addr stack t h s)"
    "kinv (clone_state ebp function_addr stack t h s) (spawned t Q)"
    using sys_clone_runs [OF assms(1-4)] by blast
  then show ?thesis using assms(5)
    by (intro exI [of _ "clone_state ebp function_addr stack t h s"])
      (simp add: clone_state_def clone_stack_def clone_child_def get_DIR_def i32_id)
qed

theorem clone_shares_memory_witness:
  "\<exists>s'. sys_clone 1006 0x100040 0x10A000 sample = Some (6, s') \<and> get_DIR s' 3 = Some 1 \<and> refs_DIR s' 1 = 3 \<and>
    kstack s' 3 1022 = Data 0x10A000"
proof -
  have "access_ok VERIFY_WRITE 0x10A000 4 \<noteq> 0" "access_ok VERIFY_READ 0x100040 4 \<noteq> 0"
    by (simp_all add: access_ok_def)
  from clone_shares_memory [OF sample_kinv _ this, of 3 "[4]" 1006]
  show ?thesis by (simp add: int_range_def get_DIR_def) (elim ex_forward, simp add: clone_child_def)
qed

text \<open>
  C26. After sys_exit of a process that owns no semaphore the next process runs, but the
  descriptor has been put in the free queue twice: whatever list one takes, the free queue does
  not represent it any more.
\<close>

theorem exit_breaks_free_queue:
  assumes "kinv s Q" "\<forall>i<20. owner (semaphores s i) \<noteq> PID (tasks s (cur s))" "exit_release s \<noteq> None"
  shows "\<exists>s'. sys_exit s = Some s' \<and> cur s' = next_task s Q \<and> PID (tasks s' (cur s)) = - 1 \<and>
    (\<forall>xs. \<not> queue_repr (links s') FreeQ xs)"
proof -
  obtain s2 where r: "exit_release s = Some s2" using assms(3) by auto
  obtain s' where s': "sys_exit s = Some s'" "cur s' = next_task s Q" "PID (tasks s' (cur s)) = - 1"
    "nxt (links s' (TaskL (cur s))) = Some (TaskL (cur s))" "prv (links s' FreeQ) = Some (TaskL (cur s))"
    using sys_exit_effect [OF assms(1,2) r] by blast
  then show ?thesis using self_loop_not_queue [OF s'(4,5)] by auto
qed

definition sample_no_sem :: kstate where
  "sample_no_sem = sample\<lparr>semaphores := (semaphores sample)(0 := (semaphores sample 0)\<lparr>owner := 2\<rparr>)\<rparr>"

theorem exit_breaks_free_queue_witness:
  "\<exists>s'. sys_exit sample_no_sem = Some s' \<and> cur s' = 1 \<and> (\<forall>xs. \<not> queue_repr (links s') FreeQ xs)"
proof -
  have h: "heads sample_no_sem = heads sample" by (auto simp: heads_def sample_no_sem_def sample_sems_def split: if_splits)
  then have "kinv sample_no_sem sample_queues"
    using sample_kinv unfolding kinv_def qinv_def run_inv_def idle_inv_def in_queue_def h
    by (simp add: sample_no_sem_def)
  moreover have "exit_release sample_no_sem \<noteq> None"
    by (simp add: exit_release_def exit_refs_def sample_no_sem_def i32_id int_range_def)
  moreover have "\<forall>i<20. owner (semaphores sample_no_sem i) \<noteq> PID (tasks sample_no_sem (cur sample_no_sem))"
    by (auto simp: sample_no_sem_def sample_sems_def)
  ultimately have "\<exists>s'. sys_exit sample_no_sem = Some s' \<and> cur s' = next_task sample_no_sem sample_queues \<and>
    PID (tasks s' (cur sample_no_sem)) = - 1 \<and> (\<forall>xs. \<not> queue_repr (links s') FreeQ xs)"
    by (intro exit_breaks_free_queue)
  then show ?thesis by (simp add: next_task_def) blast
qed

section \<open>Input, output, heap and boot\<close>

text \<open>
  A valid write to descriptor 1 sends exactly the bytes of the user buffer, in order, to
  the console, returns their number, keeps the cursor on the screen, and changes no memory but
  the four bytes of the kernel buffer.
\<close>

theorem write_prints_user_bytes:
  assumes "0 < sz" "buf \<noteq> 0" "write_ok (kmmu s) kbuf buf (nat sz)" "screen_ok (con s)"
  shows "\<exists>m c. sys_write kbuf 1 buf sz s = Some (sz, s\<lparr>memory := m, con := c\<rparr>) \<and> screen_ok c \<and>
    port_e9 c = port_e9 (con s) @ user_bytes (kmmu s) (memory s) buf (nat sz) \<and>
    (\<forall>x. (\<forall>j<4. x \<noteq> pa (kmmu s) kbuf j) \<longrightarrow> m x = memory s x)"
  using sys_write_runs [OF assms(1-3)] con.foldl_out con.foldl_inv [OF assms(4)] by metis

theorem write_prints_user_bytes_witness:
  "\<exists>m c. sys_write 0x30000 1 0x108000 5 sample = Some (5, sample\<lparr>memory := m, con := c\<rparr>) \<and>
    port_e9 c = [0, 0, 0, 0, 0]"
proof -
  have "screen_ok (con sample)" by (simp add: screen_ok_def console_init_def)
  from write_prints_user_bytes [OF _ _ sample_write_ok this, of 5]
  show ?thesis by (auto simp: user_bytes_def console_init_def upt_rec)
qed

text \<open>
  C27. A make code in the table puts its character at the end of the keyboard buffer (unless it
  is full) and in the corner of the screen, where a code without character shows as a C; the
  first process waiting for keys becomes ready exactly when the buffer is full or holds what it
  still needs.
\<close>

theorem key_press_wakes_reader:
  assumes "kinv s Q" "unat entrada < length char_map" "buf_wf (keyboardBuff s)"
  shows "\<exists>s'. keyboard_rutine entrada s = Some s' \<and> cur s' = cur s \<and> buf_wf (keyboardBuff s') \<and>
    contents (keyboardBuff s') = (if length (contents (keyboardBuff s)) = 16 then contents (keyboardBuff s)
      else contents (keyboardBuff s) @ [char_map ! unat entrada]) \<and>
    con s' = key_shown (char_map ! unat entrada) (con s) \<and>
    kinv s' (if Q KeyQ \<noteq> [] \<and> keys_ready s (keyboardBuff s') (hd (Q KeyQ)) then wake KeyQ Q else Q)"
proof -
  obtain b where b: "cirBuffWrite (keyboardBuff s) (char_map ! unat entrada) = Some b" "buf_wf b"
      "contents b = (if length (contents (keyboardBuff s)) = 16 then contents (keyboardBuff s)
        else contents (keyboardBuff s) @ [char_map ! unat entrada])"
    using cirBuffWrite_refines [OF assms(3)] by blast
  show ?thesis using keyboard_rutine_make [OF assms(1,2) b(1)] b(2,3) by metis
qed

theorem key_press_wakes_reader_witness:
  "\<exists>s'. keyboard_rutine 2 sample = Some s' \<and> contents (keyboardBuff s') = [0x31] \<and> kinv s' sample_queues"
proof -
  have "unat (2 :: u8) < length char_map" "buf_wf (keyboardBuff sample)"
    using contents_zero by (simp_all add: char_map_def)
  from key_press_wakes_reader [OF sample_kinv this] show ?thesis
    using contents_zero by (elim ex_forward) (simp add: char_map_def)
qed

text \<open>
  A valid read with too few keys in the buffer and nobody waiting blocks the caller on the
  keyboard queue with its request recorded, runs the next process and consumes nothing.
\<close>

theorem read_waits_for_keys:
  assumes "kinv s Q" "idle_task s \<noteq> Some (cur s)" "Q KeyQ = []"
    and "buf \<noteq> 0" "0 \<le> count" "count < 2 ^ 31" "access_ok VERIFY_WRITE buf (word_of_int count) \<noteq> 0"
    and "cirBuffLenght (keyboardBuff s) < count" "cirBuffFull (keyboardBuff s) = 0"
  shows "\<exists>s'. sys_read 0 buf count s = Some (Switched, s') \<and>
    kinv s' (pop_ready (leave_to KeyQ (cur s) Q)) \<and> cur s' = next_task s Q \<and>
    readKeys (tasks s' (cur s)) = 0 \<and> requiredKeys (tasks s' (cur s)) = count \<and>
    keyboardBuff s' = keyboardBuff s \<and> memory s' = memory s \<and>
    kernel_esp (tasks s' (cur s)) = SwitchFrame (K_read buf)"
  using sys_read_blocks [OF assms] .

lemma sample_buffer: "cirBuffLenght (keyboardBuff sample) = 0" "cirBuffFull (keyboardBuff sample) = 0"
  by (simp_all add: cirBuffer_zero_def cirBuffLenght_def cirBuffFull_def)

theorem read_waits_for_keys_witness:
  "\<exists>s'. sys_read 0 0x108000 3 sample = Some (Switched, s') \<and> cur s' = 1 \<and>
    requiredKeys (tasks s' 13) = 3"
  using read_waits_for_keys [OF sample_kinv, of "0x108000" 3] sample_buffer
  by (auto simp: access_ok_def next_task_def)

text \<open>
  C28. When nobody else waits for keys, a valid read by a process whose keys are there page-
  faults in every state of the kernel invariant: the key itself is passed to copy_to_user as the
  source address, and under the page tables of the kernel no key is the address of a mapped
  byte.
\<close>

theorem read_with_keys_faults:
  assumes i: "kernel_inv s Q" and ni: "idle_task s \<noteq> Some (cur s)" and q: "Q KeyQ = []"
    and b: "buf \<noteq> 0" "0 < count" "count < 2 ^ 31" "access_ok VERIFY_WRITE buf (word_of_int count) \<noteq> 0"
    and n: "count \<le> cirBuffLenght (keyboardBuff s)"
  shows "sys_read 0 buf count s = None"
proof -
  have "kinv s Q" using i by (simp add: kernel_inv_def)
  then show ?thesis using q b n kernel_no_key_pages [OF i ni] by (rule sys_read_faults)
qed

definition sample_keys :: kstate where
  "sample_keys = sample\<lparr>keyboardBuff := \<lparr>writePos = 2, readPos = 0, full = 0, buffer = replicate 16 0x31\<rparr>\<rparr>"

lemma sample_keys_inv: "kernel_inv sample_keys sample_queues"
proof -
  have "io_only sample sample_keys"
    by (rule io_onlyI [where m = "memory sample" and c = "con sample"
        and b = "\<lparr>writePos = 2, readPos = 0, full = 0, buffer = replicate 16 0x31\<rparr>"]) (simp add: sample_keys_def)
  then show ?thesis using kernel_inv_view [OF sample_kernel_inv] io_only_view mem_step_io by blast
qed

theorem read_with_keys_faults_witness:
  "sys_read 0 0x108000 2 sample_keys = None"
  using read_with_keys_faults [OF sample_keys_inv, of "0x108000" 2]
  by (simp add: access_ok_def sample_keys_def cirBuffLenght_def i32_id int_range_def)

text \<open>
  C30. For a process with one of the 15 page tables and a break between the start of the heap
  and the end of page 1024, sys_sbrk returns and the break stays in that range, whatever the
  increment, unless the process has the last table and the loops get to its page 1024 (growing
  into that page, or shrinking from it to at most page 1023): that entry is outside
  pagusr_table, and the call faults when no heap page of the table is mapped.
\<close>

theorem sbrk_keeps_break:
  assumes "PT_of s (cur s) = Some (d * 1024)" "d < 15" "break_ok (processBreak (tasks s (cur s)))"
  shows "(\<not> sbrk_past_table s incr \<longrightarrow>
      (\<exists>r s'. sys_sbrk incr s = Some (r, s') \<and> cur s' = cur s \<and> break_ok (processBreak (tasks s' (cur s))))) \<and>
    (sbrk_past_table s incr \<and> (\<forall>p. 284 \<le> p \<and> p < 1024 \<longrightarrow> \<not> pte_present (pagusr_table s (14 * 1024 + p))) \<longrightarrow>
      sys_sbrk incr s = None)"
  using sys_sbrk_break_ok [OF assms] sys_sbrk_faults [OF _ assms(3)] by blast

theorem sbrk_keeps_break_witness:
  "\<exists>r s'. sys_sbrk (- 10) sample = Some (r, s') \<and> break_ok (processBreak (tasks s' 13))"
  using sbrk_keeps_break [of sample 1 "- 10"]
  by (simp add: sample_PT break_ok_def unat_of_nat_u32 sbrk_past_table_def) blast

text \<open>
  Growing a heap whose new pages are not mapped moves the break and nothing else: no frame
  is allocated and no page table entry is written.
\<close>

theorem sbrk_growth_maps_nothing:
  assumes "PT_of s (cur s) = Some (d * 1024)" "d < 15" "pb = processBreak (tasks s (cur s))" "HEAP_START \<le> unat pb"
    and "0 < incr" "unat pb + nat incr < 1024 * 4096"
    and "\<forall>p. unat pb div 4096 \<le> p \<and> p < 1024 \<longrightarrow> \<not> pte_present (pagusr_table s (d * 1024 + p))"
  shows "sys_sbrk incr s =
    Some (pb, upd_task (cur s) (processBreak_update (\<lambda>b. b + word_of_int incr)) s)"
  using sys_sbrk_grows [OF assms] .

theorem sbrk_growth_maps_nothing_witness:
  "sys_sbrk 8192 sample =
    Some (of_nat HEAP_START, upd_task 13 (processBreak_update (\<lambda>b. b + word_of_int 8192)) sample)"
  using sbrk_growth_maps_nothing [of sample 1 "of_nat HEAP_START" 8192] sample_pages(3)
  by (simp add: sample_PT kernel_entry_def unat_of_nat_u32)




text \<open>
  The initialisation done by main succeeds, and when process 1 first enters the kernel (by
  either entry) the scheduler, semaphore, quantum and address space invariants hold, with
  process 1 running, the idle task set aside and 356 free frames.
\<close>

theorem boot_establishes_invariants:
  assumes "table_addr_ok a"
  shows "\<exists>s. start_kernel (reset_state a m clk) = Some s \<and> boot_facts (enter_by_interrupt s) \<and>
    enter_by_sysenter s = enter_by_interrupt s"
  using start_kernel_establishes [OF assms, of console_init] by simp

theorem boot_establishes_invariants_witness:
  "\<exists>s. start_kernel (reset_state 0x20000 (\<lambda>_. 0) (\<lambda>_. 0)) = Some s \<and> cur (enter_by_interrupt s) = 13"
  using boot_establishes_invariants [OF sample_table_addr, of "\<lambda>_. 0" "\<lambda>_. 0"]
  by (elim ex_forward) (simp add: boot_facts_def)

section \<open>The whole kernel\<close>

text \<open>
  C2. In every reachable state the invariants of the kernel hold: represented and disjoint
  queues, process states that match them, semaphores with waiting processes only at a counter of
  at most zero, positive quanta, directories that hold their table and nothing else, tables that
  map neither page 0 nor a page of the heap, processes with directories, frames and breaks of
  their own, and counters that cannot overflow.
\<close>

theorem reachable_states_keep_invariants:
  assumes "table_addr_ok a" "reachable a m clk s"
  shows "\<exists>Q. kinv s Q \<and> sem_inv s Q \<and> quanta_ok s Q \<and> own_space s \<and> tables_inv s \<and>
    users_inv s (users s Q) \<and> counts_inv s (length (Q FreeQ))"
  using reachable_inv [OF assms] by (elim ex_forward) (simp add: kernel_inv_def)

theorem reachable_states_keep_invariants_witness:
  "\<exists>s s' Q. reachable 0x20000 (\<lambda>_. 0) (\<lambda>_. 0) s \<and> clock_rutine (\<lambda>c. c) s = Some s' \<and> kinv s' Q \<and> own_space s'"
proof -
  obtain s where s: "reachable 0x20000 (\<lambda>_. 0) (\<lambda>_. 0) s" "kernel_inv s boot_queues"
    using reachable_boot [OF sample_table_addr] by blast
  obtain s' where c: "clock_rutine (\<lambda>c. c) s = Some s'"
    using clock_rutine_keeps [of s boot_queues "\<lambda>c. c"] s(2) by (auto simp: kernel_inv_def)
  then have "kernel_step s s'" by (rule kernel_step.tick)
  then have "reachable 0x20000 (\<lambda>_. 0) (\<lambda>_. 0) s'"
    using s(1) rtranclp.rtrancl_into_rtrancl [of kernel_step] unfolding reachable_def by blast
  from reachable_states_keep_invariants [OF sample_table_addr this] show ?thesis using s(1) c by blast
qed

text \<open>
  C17. In every reachable state the quantum left is between 1 and the default of 15, every
  process that is not free has exactly the default quantum, and the result a process would get
  from a wait is 0 or -1. So the process at position j of the ready queue gets the processor
  after exactly the ticks left plus 15 j more, whichever processes are before it.
\<close>

theorem quanta_are_default:
  assumes "table_addr_ok a" "reachable a m clk s"
  shows "\<exists>Q. kinv s Q \<and> 1 \<le> qLeft s \<and> qLeft s \<le> 15 \<and> (\<forall>t\<in>active s Q. quantum (tasks s t) = 15) \<and>
    (\<forall>t. sem_ret (tasks s t) \<in> {0, - 1}) \<and>
    (\<forall>j<length (Q ReadyQ). \<exists>s'. sched_ticks (nat (qLeft s) + 15 * j) s = Some s' \<and> cur s' = Q ReadyQ ! j)"
proof -
  obtain Q where "kernel_inv s Q" using reachable_inv [OF assms] by blast
  then have k: "kinv s Q" "quanta_ok s Q" by (simp_all add: kernel_inv_def)
  have v: "values_ok s" by (rule reached_values [OF assms])
  have q: "quantum (tasks s t) = 15" if "t \<in> active s Q" for t
    using values_quantum(2) [OF v, of t] k(2) that by (simp add: quanta_ok_def)
  have q15: "\<forall>t\<in>set (cur s # Q ReadyQ). quantum (tasks s t) = 15"
    using q heads_basic by (fastforce simp: active_def)
  have "turn_start s (Q ReadyQ) j = nat (qLeft s) + 15 * j" if "j < length (Q ReadyQ)" for j
    using turn_start_default [OF q15, of j] that by simp
  moreover have "\<exists>s'. sched_ticks (turn_start s (Q ReadyQ) j) s = Some s' \<and> cur s' = Q ReadyQ ! j"
    if "j < length (Q ReadyQ)" for j
    using ready_turn [OF k(1) _ _ _ that] k(2) q15 by (auto simp: quanta_ok_def)
  ultimately show ?thesis using k v q by (intro exI [of _ Q]) (simp add: values_ok_def quanta_ok_def)
qed

theorem quanta_are_default_witness:
  "\<exists>s Q. reachable 0x20000 (\<lambda>_. 0) (\<lambda>_. 0) s \<and> kinv s Q \<and> quantum (tasks s (cur s)) = 15 \<and> qLeft s \<le> 15"
proof -
  obtain s where s: "reachable 0x20000 (\<lambda>_. 0) (\<lambda>_. 0) s" using reachable_boot [OF sample_table_addr] by blast
  from quanta_are_default [OF sample_table_addr s] show ?thesis using s by (force simp: active_def)
qed

text \<open>
  C16. The accounts of every task in every reachable state, when the two clock reads of each
  charge fall in the same tick: nothing is ever charged as blocked time, and the user, system
  and ready times add up to the time of the last charge, so every tick is charged once.
\<close>

theorem accounts_add_up:
  assumes "table_addr_ok a" "reachable a m clk s" "reads_agree clk"
  shows "blocked_ticks (estadisticas (tasks s t)) = 0 \<and>
    user_ticks (estadisticas (tasks s t)) + system_ticks (estadisticas (tasks s t)) +
      ready_ticks (estadisticas (tasks s t)) = elapsed_total_ticks (estadisticas (tasks s t))"
  using accounts.reached [OF assms(1,2) reset_accounts [OF assms(3)]] by (simp add: accounts_ok_def balanced_def)

text \<open>A clock that advances by one tick with every second read.\<close>

definition sample_clock :: "nat \<Rightarrow> u64" where
  "sample_clock n = of_nat (109000 * (n div 2))"

theorem accounts_add_up_witness:
  "\<exists>s s'. reachable 0x20000 (\<lambda>_. 0) sample_clock s \<and> statsEntrySys s = Some s' \<and>
    user_ticks (estadisticas (tasks s' 13)) + system_ticks (estadisticas (tasks s' 13)) +
      ready_ticks (estadisticas (tasks s' 13)) = elapsed_total_ticks (estadisticas (tasks s' 13))"
proof -
  obtain s where s: "reachable 0x20000 (\<lambda>_. 0) sample_clock s" using reachable_boot [OF sample_table_addr] by blast
  obtain s' where s': "statsEntrySys s = Some s'"
    using charge_Some [of user_ticks_update "cur s" s] by (auto simp: statsEntrySys_def)
  then have "kernel_step s s'" by (rule kernel_step.entry)
  then have "reachable 0x20000 (\<lambda>_. 0) sample_clock s'"
    using s rtranclp.rtrancl_into_rtrancl [of kernel_step] unfolding reachable_def by blast
  moreover have "reads_agree sample_clock" by (simp add: reads_agree_def sample_clock_def)
  ultimately show ?thesis using accounts_add_up [OF sample_table_addr] s s' by blast
qed

text \<open>
  C1. In every state reachable from the boot by interrupts, system calls other than exit, and
  stores of user programs, the running process runs in its own address space, every data page of
  every started process is mapped, and processes with different directories (any but clones)
  have different data frames: a store of one into its data pages is never read by the other.
\<close>

theorem processes_are_isolated:
  assumes "table_addr_ok a" "reachable a m clk s"
  shows "\<exists>Q. kinv s Q \<and> cr3 s = dir_pages_baseAddr (tasks s (cur s)) \<and>
    tss_esp0 s = cur s \<and> msr_esp s = cur s \<and>
    (idle_task s \<noteq> Some (cur s) \<longrightarrow> cur s \<in> users s Q) \<and>
    (\<forall>t \<in> users s Q. \<forall>j<20. \<forall>l<4096. data_byte s (n_directorio (tasks s t)) j l \<noteq> None) \<and>
    (\<forall>t \<in> users s Q. \<forall>u \<in> users s Q. n_directorio (tasks s t) \<noteq> n_directorio (tasks s u) \<longrightarrow>
      (\<forall>i<20. \<forall>j<20. data_frame (pagusr_table s) (n_directorio (tasks s t)) i \<noteq>
         data_frame (pagusr_table s) (n_directorio (tasks s u)) j) \<and>
      (\<forall>i<20. \<forall>k<4096. \<forall>j<20. \<forall>l<4096. \<forall>b.
         data_byte (s\<lparr>memory := (memory s)(faddr (frame_of s t i) k := b)\<rparr>) (n_directorio (tasks s u)) j l =
         data_byte s (n_directorio (tasks s u)) j l))"
proof -
  obtain Q where Q: "kernel_inv s Q" using reachable_inv [OF assms] by blast
  then have "separate s (users s Q)" by (simp add: kernel_inv_def users_inv_def)
  then have "data_frame (pagusr_table s) (n_directorio (tasks s t)) i \<noteq>
      data_frame (pagusr_table s) (n_directorio (tasks s u)) j"
    if "t \<in> users s Q" "u \<in> users s Q" "n_directorio (tasks s t) \<noteq> n_directorio (tasks s u)" "i < 20" "j < 20" for t u i j
    using separateD(1) [of s "users s Q" t u i j] that by (auto simp: frame_of_def)
  then show ?thesis
    using Q store_not_seen [OF Q] data_pages_mapped [OF Q] cur_user [of s Q]
    by (intro exI [of _ Q]) (simp add: kernel_inv_def own_space_def)
qed

theorem processes_are_isolated_witness:
  "\<exists>s Q. reachable 0x20000 (\<lambda>_. 0) (\<lambda>_. 0) s \<and> kinv s Q \<and> cur s \<in> users s Q \<and>
    data_byte s (n_directorio (tasks s (cur s))) 3 100 \<noteq> None"
proof -
  obtain s where s: "reachable 0x20000 (\<lambda>_. 0) (\<lambda>_. 0) s" "cur s = 13" "idle_task s = Some 14"
    using reachable_boot [OF sample_table_addr] by blast
  obtain Q where "kinv s Q" "cur s \<in> users s Q"
    "\<forall>t \<in> users s Q. \<forall>j<20. \<forall>l<4096. data_byte s (n_directorio (tasks s t)) j l \<noteq> None"
    using processes_are_isolated [OF sample_table_addr s(1)] s(2,3) by auto
  then show ?thesis using s(1) by (intro exI [of _ s] exI [of _ Q]) simp
qed

text \<open>
  In every reachable state the started processes have different process numbers, all
  between 1 and the next number, which stays at most 15.
\<close>

theorem process_numbers_are_unique:
  assumes "table_addr_ok a" "reachable a m clk s"
  shows "\<exists>Q. kinv s Q \<and> incrementalPID s \<le> 15 \<and>
    (\<forall>t \<in> users s Q. 1 \<le> PID (tasks s t) \<and> PID (tasks s t) < incrementalPID s \<and>
      (\<forall>u \<in> users s Q. PID (tasks s t) = PID (tasks s u) \<longrightarrow> t = u))"
proof -
  obtain Q where "kernel_inv s Q" using reachable_inv [OF assms] by blast
  then show ?thesis
    by (intro exI [of _ Q]) (auto simp: kernel_inv_def users_inv_def pids_inv_def counts_inv_def inj_on_def)
qed

theorem process_numbers_are_unique_witness:
  "\<exists>s Q. reachable 0x20000 (\<lambda>_. 0) (\<lambda>_. 0) s \<and> kinv s Q \<and> incrementalPID s \<le> 15"
proof -
  obtain s where s: "reachable 0x20000 (\<lambda>_. 0) (\<lambda>_. 0) s"
    using reachable_boot [OF sample_table_addr] by blast
  from process_numbers_are_unique [OF sample_table_addr s] show ?thesis using s by blast
qed

text \<open>
  C3. In every reachable state the clock interrupt and the calls sem_signal and sem_destroy
  return, fork, clone and sem_wait of a process return or switch to another process, sem_init
  returns unless a new identifier meets a full table, and sbrk returns unless its process has
  the last page table and the loops get to page 1024, whose entry is past pagusr_table: then,
  and only then, it faults. No loop runs forever.
\<close>

theorem kernel_routines_return:
  assumes "table_addr_ok a" "reachable a m clk s"
  shows "(\<exists>s'. clock_rutine draw s = Some s') \<and>
    (\<exists>x. sys_sem_signal n s = Some x) \<and> (\<exists>x. sys_sem_destroy n s = Some x) \<and>
    ((\<exists>x. sys_sem_init n v s = Some x) \<or> find_sem s n = None \<and> find_free s = None) \<and>
    (idle_task s = Some (cur s) \<or>
      (\<exists>x. sys_fork ebp s = Some x) \<and> (\<exists>x. sys_clone ebp fn stack s = Some x) \<and>
      (if sbrk_past_table s incr then sys_sbrk incr s = None else \<exists>x. sys_sbrk incr s = Some x) \<and>
      (\<exists>x. sys_sem_wait n s = Some x))"
proof -
  obtain Q where Q: "kernel_inv s Q" using reachable_inv [OF assms] by blast
  then have k: "kinv s Q" "sem_inv s Q" "quanta_ok s Q" by (simp_all add: kernel_inv_def)
  show ?thesis
    using sbrk_past_table_faults [OF Q, of incr] clock_rutine_keeps [OF k, of draw] sys_sem_signal_keeps [OF k, of n] sys_sem_destroy_keeps [OF k, of n]
      sys_sem_init_keeps [OF k, of n v] sys_sem_wait_keeps [OF k, of n] fork_kernel_inv [OF Q, of ebp]
      clone_kernel_inv [OF Q, of ebp fn stack] sbrk_kernel_inv [OF Q, of incr] by (simp split: if_splits) blast
qed

theorem kernel_routines_return_witness:
  "\<exists>s x. reachable 0x20000 (\<lambda>_. 0) (\<lambda>_. 0) s \<and> sys_fork 1006 s = Some x"
proof -
  obtain s where s: "reachable 0x20000 (\<lambda>_. 0) (\<lambda>_. 0) s" "cur s = 13" "idle_task s = Some 14"
    using reachable_boot [OF sample_table_addr] by blast
  then have "\<exists>x. sys_fork 1006 s = Some x"
    using kernel_routines_return [OF sample_table_addr s(1), of "\<lambda>c. c" 0 0 1006 0 0 0] by auto
  then show ?thesis using s(1) by blast
qed

end
